(* ===== verification/Py_Prelude.thy ===== *)
theory Py_Prelude
  imports Complex_Main "HOL-Library.Word"
begin

text \<open>
  The vocabulary the components share: Python's exceptions as values, fallible results as
  sums, bytes as lists of 8-bit words, the parts of \<open>struct\<close>, \<open>bytes\<close>, slicing and
  string handling the sources use, and the lemmas on them that carry the component proofs.
  Python integers are \<open>int\<close>; a byte read from a \<open>bytes\<close> value is \<open>uint\<close> of the word.
\<close>

unbundle bit_operations_syntax

named_theorems py_simps \<open>unfolding rules for the Python runtime vocabulary\<close>
named_theorems frame_simps \<open>unfolding rules for frame builders and parsers\<close>

section \<open>Exceptions and fallible results\<close>

text \<open>Exception classes, without their message texts.\<close>

datatype exn =
    ValueError
  | StructError
  | OverflowError
  | KeyError
  | IndexError
  | RuntimeError
  | AssertionError
  | OSError
  | ConnectionError
  | TimeoutError
  | RequestException
  | TypeError
  | AttributeError
  | BrokenBarrierError
  | CsvError
  | ZeroDivisionError
  | JSONDecodeError
  | WebSocketTimeout
  | WebSocketPayload
  | WebSocketProtocol
  | WebSocketClosed
  | KeyboardInterrupt
  | SystemExit int
  | SkipException

datatype json =
    JNull
  | JBool bool
  | JNum rat
  | JStr string
  | JArr "json list"
  | JObj "(string \<times> json) list"

type_synonym 'a res = "exn + 'a"

text \<open>\<open>ConnectionError\<close> and \<open>TimeoutError\<close> (of which \<open>socket.timeout\<close> is an alias)
  are subclasses of \<open>OSError\<close>.\<close>

definition is_OSError :: "exn \<Rightarrow> bool" where
  "is_OSError e \<longleftrightarrow> e \<in> {OSError, ConnectionError, TimeoutError}"

text \<open>What \<open>except Exception\<close> catches.\<close>

fun is_Exception :: "exn \<Rightarrow> bool" where
  "is_Exception KeyboardInterrupt \<longleftrightarrow> False"
| "is_Exception (SystemExit _) \<longleftrightarrow> False"
| "is_Exception SkipException \<longleftrightarrow> False"
| "is_Exception _ \<longleftrightarrow> True"

definition rbind :: "'a res \<Rightarrow> ('a \<Rightarrow> 'b res) \<Rightarrow> 'b res" where
  "rbind r f = (case r of Inl e \<Rightarrow> Inl e | Inr x \<Rightarrow> f x)"

lemma rbind_simps [simp]: "rbind (Inl e) f = Inl e" "rbind (Inr x) f = f x"
  by (simp_all add: rbind_def)

lemma rbind_eq_Inr: "rbind r f = Inr y \<longleftrightarrow> (\<exists>x. r = Inr x \<and> f x = Inr y)"
  by (cases r) auto

lemma rbind_eq_Inl: "rbind r f = Inl e \<longleftrightarrow> r = Inl e \<or> (\<exists>x. r = Inr x \<and> f x = Inl e)"
  by (cases r) auto

text \<open>Which exceptions a computation can raise.\<close>

definition raises_only :: "exn set \<Rightarrow> 'a res \<Rightarrow> bool" where
  "raises_only E r \<longleftrightarrow> (\<forall>e. r = Inl e \<longrightarrow> e \<in> E)"

lemma raises_only_Inr [simp]: "raises_only E (Inr x)"
  by (simp add: raises_only_def)

lemma raises_only_rbind:
  "raises_only E r \<Longrightarrow> (\<And>x. raises_only E (f x)) \<Longrightarrow> raises_only E (rbind r f)"
  by (cases r) (simp_all add: raises_only_def)

section \<open>Time\<close>

text \<open>Readings of \<open>time.monotonic()\<close>, in seconds, as exact rationals: the rounding of
  Python's floats is not modelled.\<close>

type_synonym time = rat

section \<open>Bytes, slices and struct\<close>

type_synonym byte = "8 word"
type_synonym bytes = "byte list"

text \<open>\<open>bytes([v, ...])\<close> and \<open>bytearray([v, ...])\<close>: every element has to be in
  \<open>0..255\<close>, anything else is a \<open>ValueError\<close>.\<close>

definition is_byte :: "int \<Rightarrow> bool" where
  "is_byte v \<longleftrightarrow> 0 \<le> v \<and> v \<le> 255"

definition py_bytes :: "int list \<Rightarrow> bytes res" where
  "py_bytes vs = (if list_all is_byte vs then Inr (map word_of_int vs) else Inl ValueError)"

text \<open>\<open>xs[a:b]\<close> with \<open>0 \<le> a\<close>, \<open>0 \<le> b\<close>.\<close>

definition py_slice :: "nat \<Rightarrow> nat \<Rightarrow> 'a list \<Rightarrow> 'a list" where
  "py_slice a b xs = drop a (take b xs)"

text \<open>\<open>xs[:n]\<close>, where a negative \<open>n\<close> counts from the end.\<close>

definition py_upto :: "int \<Rightarrow> 'a list \<Rightarrow> 'a list" where
  "py_upto n xs = (if n < 0 then take (nat (int (length xs) + n)) xs else take (nat n) xs)"

text \<open>\<open>struct.pack\<close> and \<open>struct.unpack\<close> of the big-endian codes \<open>B\<close> and \<open>H\<close>.\<close>

definition pack_B :: "int \<Rightarrow> bytes res" where
  "pack_B v = (if 0 \<le> v \<and> v \<le> 255 then Inr [word_of_int v] else Inl StructError)"

definition pack_H :: "int \<Rightarrow> bytes res" where
  "pack_H v = (if 0 \<le> v \<and> v \<le> 65535 then Inr [word_of_int (v div 256), word_of_int (v mod 256)]
               else Inl StructError)"

primrec pack_Hs :: "int list \<Rightarrow> bytes res" where
  "pack_Hs [] = Inr []"
| "pack_Hs (v # vs) = rbind (pack_H v) (\<lambda>b. rbind (pack_Hs vs) (\<lambda>bs. Inr (b @ bs)))"

definition unpack_H :: "byte \<Rightarrow> byte \<Rightarrow> int" where
  "unpack_H hi lo = 256 * uint hi + uint lo"

fun unpack_Hs :: "bytes \<Rightarrow> int list" where
  "unpack_Hs (hi # lo # bs) = unpack_H hi lo # unpack_Hs bs"
| "unpack_Hs _ = []"

text \<open>\<open>v.to_bytes(2, "little")\<close>: low byte first, \<open>OverflowError\<close> outside 16 bits.\<close>

definition to_bytes_le2 :: "int \<Rightarrow> bytes res" where
  "to_bytes_le2 v = (if 0 \<le> v \<and> v \<le> 65535 then Inr [word_of_int (v mod 256), word_of_int (v div 256)]
                     else Inl OverflowError)"

lemma uint_byte_bounds [simp]: "0 \<le> uint (b :: byte)" "uint (b :: byte) < 256" "uint (b :: byte) \<le> 255"
proof -
  have "uint b < 2 ^ 8" using uint_lt2p [of b] by simp
  then show "uint b < 256" "uint b \<le> 255" by simp_all
qed simp

lemma drop_prefix: "length p = n \<Longrightarrow> drop n (p @ r) = r"
  by simp

lemma take_prefix: "length p = n \<Longrightarrow> take n (p @ r) = p"
  by simp

lemma py_bytes_raises: "ValueError \<in> E \<Longrightarrow> raises_only E (py_bytes vs)"
  by (simp add: raises_only_def py_bytes_def)

lemma pack_H_raises: "StructError \<in> E \<Longrightarrow> raises_only E (pack_H v)"
  by (simp add: raises_only_def pack_H_def)

lemma pack_Hs_raises: "StructError \<in> E \<Longrightarrow> raises_only E (pack_Hs vs)"
  by (induction vs) (simp_all add: raises_only_rbind pack_H_raises)

lemmas raises_rules = raises_only_rbind py_bytes_raises pack_H_raises pack_Hs_raises

lemma unat_byte_le: "unat (b :: byte) \<le> 255"
proof -
  have "int (unat b) = uint b" by simp
  then show ?thesis using uint_byte_bounds(3) [of b] by linarith
qed

lemma uint_word_of_int_byte [simp]:
  "0 \<le> v \<Longrightarrow> v < 256 \<Longrightarrow> uint (word_of_int v :: byte) = v"
  by (simp add: uint_word_of_int)

lemma pack_B_uint [simp]: "pack_B (uint b) = Inr [b]"
  by (simp add: pack_B_def)

lemma unpack_H_bounds: "0 \<le> unpack_H hi lo" "unpack_H hi lo \<le> 65535"
  using uint_byte_bounds(3) [of hi] uint_byte_bounds(3) [of lo]
  unfolding unpack_H_def by (simp, linarith)

lemma pack_H_Inr:
  "pack_H v = Inr bs \<longleftrightarrow> 0 \<le> v \<and> v \<le> 65535 \<and> bs = [word_of_int (v div 256), word_of_int (v mod 256)]"
  by (auto simp: pack_H_def)

lemma unpack_H_div_mod:
  assumes "0 \<le> v" "v \<le> 65535"
  shows "unpack_H (word_of_int (v div 256)) (word_of_int (v mod 256)) = v"
proof -
  have "v div 256 < 256" using assms by linarith
  moreover have "0 \<le> v div 256" using assms by simp
  ultimately show ?thesis by (simp add: unpack_H_def)
qed

lemma pack_H_unpack_H [simp]: "pack_H (unpack_H hi lo) = Inr [hi, lo]"
proof -
  have d: "unpack_H hi lo div 256 = uint hi" "unpack_H hi lo mod 256 = uint lo"
    by (simp_all add: unpack_H_def)
  show ?thesis
    using unpack_H_bounds [of hi lo] by (simp add: pack_H_def d)
qed

lemma pack_Hs_roundtrip:
  "list_all (\<lambda>v. 0 \<le> v \<and> v \<le> 65535) vs \<Longrightarrow>
   \<exists>bs. pack_Hs vs = Inr bs \<and> length bs = 2 * length vs \<and> unpack_Hs bs = vs"
proof (induction vs)
  case (Cons v vs)
  then obtain bs where "pack_Hs vs = Inr bs" "length bs = 2 * length vs" "unpack_Hs bs = vs"
    by auto
  with Cons.prems show ?case
    by (auto simp: pack_H_def unpack_H_div_mod)
qed simp

text \<open>16-bit values as the big-endian bytes that carry them.\<close>

definition be_bytes :: "int list \<Rightarrow> bytes" where
  "be_bytes vs = concat (map (\<lambda>v. [word_of_int (v div 256), word_of_int (v mod 256)]) vs)"

lemma length_be_bytes [simp]: "length (be_bytes vs) = 2 * length vs"
  by (induction vs) (simp_all add: be_bytes_def)

lemma unpack_be_bytes: "list_all (\<lambda>v. 0 \<le> v \<and> v \<le> 65535) vs \<Longrightarrow> unpack_Hs (be_bytes vs) = vs"
  by (induction vs) (simp_all add: be_bytes_def unpack_H_div_mod)

lemma pack_Hs_be_bytes: "list_all (\<lambda>v. 0 \<le> v \<and> v \<le> 65535) vs \<Longrightarrow> pack_Hs vs = Inr (be_bytes vs)"
  by (induction vs) (simp_all add: be_bytes_def pack_H_def)

end
