(* ===== verification/Rtu_Codec.thy ===== *)
theory Rtu_Codec
  imports Py_Prelude
begin

text \<open>
  The Modbus RTU primitives of \<open>api_tests/packet_injector.py\<close> and
  \<open>api_tests/rtu_slave_helpers.py\<close>: the two CRC routines, \<open>append_crc\<close>, the FC01 to FC04
  request, response and exchange builders and the golden bad-CRC packet.
  The lemmas show that the two CRC routines agree, that a frame followed by its CRC has
  residue zero, that every corruption confined to two adjacent bytes changes the CRC, and
  what the builders produce and when they raise.
\<close>

section \<open>The CRC routines\<close>

text \<open>\<open>packet_injector.modbus_crc16\<close>: the inner loop as iteration, the outer one as a fold.\<close>

primrec crc_bits :: "nat \<Rightarrow> int \<Rightarrow> int" where
  "crc_bits 0 crc = crc"
| "crc_bits (Suc n) crc =
     crc_bits n (if crc AND 1 \<noteq> 0 then drop_bit 1 crc XOR 0xA001 else drop_bit 1 crc)"

definition crc_byte :: "int \<Rightarrow> byte \<Rightarrow> int" where
  "crc_byte crc b = crc_bits 8 (crc XOR uint b)"

definition modbus_crc16 :: "bytes \<Rightarrow> int" where
  "modbus_crc16 data = foldl crc_byte 0xFFFF data"

text \<open>\<open>rtu_slave_helpers._crc16\<close>: the same polynomial written as a conditional expression.\<close>

primrec rtu_crc16_loop :: "nat \<Rightarrow> int \<Rightarrow> int" where
  "rtu_crc16_loop 0 crc = crc"
| "rtu_crc16_loop (Suc n) crc =
     rtu_crc16_loop n (if crc AND 1 \<noteq> 0 then drop_bit 1 crc XOR 0xA001 else drop_bit 1 crc)"

primrec rtu_crc16_from :: "int \<Rightarrow> bytes \<Rightarrow> int" where
  "rtu_crc16_from crc [] = crc"
| "rtu_crc16_from crc (b # bs) = rtu_crc16_from (rtu_crc16_loop 8 (crc XOR uint b)) bs"

definition rtu_crc16 :: "bytes \<Rightarrow> int" where
  "rtu_crc16 data = rtu_crc16_from 0xFFFF data"

definition append_crc :: "bytes \<Rightarrow> bytes res" where
  "append_crc payload =
     rbind (to_bytes_le2 (modbus_crc16 payload)) (\<lambda>crc. Inr (payload @ crc))"

section \<open>Frame builders\<close>

definition build_fc03_request :: "int \<Rightarrow> int \<Rightarrow> int \<Rightarrow> bytes res" where
  "build_fc03_request slave start_addr reg_count =
     rbind (py_bytes [slave AND 0xFF, 0x03,
                      drop_bit 8 start_addr AND 0xFF, start_addr AND 0xFF,
                      drop_bit 8 reg_count AND 0xFF, reg_count AND 0xFF]) append_crc"

definition build_fc03_response :: "int \<Rightarrow> int \<Rightarrow> int \<Rightarrow> bytes res" where
  "build_fc03_response slave reg_count base_value =
     (let byte_count = reg_count * 2 in
      rbind (py_bytes [slave AND 0xFF, 0x03, byte_count]) (\<lambda>hdr.
      rbind (py_bytes (concat (map (\<lambda>i. let value = (base_value + int i) AND 0xFFFF
                                        in [drop_bit 8 value AND 0xFF, value AND 0xFF])
                                   [0..<nat reg_count]))) (\<lambda>regs.
      append_crc (hdr @ regs))))"

definition build_fc03_exchange :: "int \<Rightarrow> int \<Rightarrow> int \<Rightarrow> int \<Rightarrow> bytes res" where
  "build_fc03_exchange slave start_addr reg_count base_value =
     rbind (build_fc03_request slave start_addr reg_count) (\<lambda>req.
     rbind (build_fc03_response slave reg_count base_value) (\<lambda>resp. Inr (req @ resp)))"

definition build_fc01_request :: "int \<Rightarrow> int \<Rightarrow> int \<Rightarrow> bytes res" where
  "build_fc01_request slave start_addr bit_count =
     rbind (py_bytes [slave AND 0xFF, 0x01,
                      drop_bit 8 start_addr AND 0xFF, start_addr AND 0xFF,
                      drop_bit 8 bit_count AND 0xFF, bit_count AND 0xFF]) append_crc"

definition build_fc01_response :: "int \<Rightarrow> int \<Rightarrow> int \<Rightarrow> bytes res" where
  "build_fc01_response slave bit_count val =
     (let byte_count = (bit_count + 7) div 8;
          bit_byte = (if val AND 1 \<noteq> 0 then 0xFF else 0x00) in
      rbind (py_bytes [slave AND 0xFF, 0x01, byte_count]) (\<lambda>hdr.
      rbind (py_bytes (replicate (nat byte_count) bit_byte)) (\<lambda>bits.
      append_crc (hdr @ bits))))"

definition build_fc01_exchange :: "int \<Rightarrow> int \<Rightarrow> int \<Rightarrow> int \<Rightarrow> bytes res" where
  "build_fc01_exchange slave start_addr bit_count val =
     rbind (build_fc01_request slave start_addr bit_count) (\<lambda>req.
     rbind (build_fc01_response slave bit_count val) (\<lambda>resp. Inr (req @ resp)))"

definition build_fc02_request :: "int \<Rightarrow> int \<Rightarrow> int \<Rightarrow> bytes res" where
  "build_fc02_request slave start_addr bit_count =
     rbind (py_bytes [slave AND 0xFF, 0x02,
                      drop_bit 8 start_addr AND 0xFF, start_addr AND 0xFF,
                      drop_bit 8 bit_count AND 0xFF, bit_count AND 0xFF]) append_crc"

definition build_fc02_response :: "int \<Rightarrow> int \<Rightarrow> int \<Rightarrow> bytes res" where
  "build_fc02_response slave bit_count val =
     (let byte_count = (bit_count + 7) div 8;
          bit_byte = (if val AND 1 \<noteq> 0 then 0xFF else 0x00) in
      rbind (py_bytes [slave AND 0xFF, 0x02, byte_count]) (\<lambda>hdr.
      rbind (py_bytes (replicate (nat byte_count) bit_byte)) (\<lambda>bits.
      append_crc (hdr @ bits))))"

definition build_fc02_exchange :: "int \<Rightarrow> int \<Rightarrow> int \<Rightarrow> int \<Rightarrow> bytes res" where
  "build_fc02_exchange slave start_addr bit_count val =
     rbind (build_fc02_request slave start_addr bit_count) (\<lambda>req.
     rbind (build_fc02_response slave bit_count val) (\<lambda>resp. Inr (req @ resp)))"

definition build_fc04_request :: "int \<Rightarrow> int \<Rightarrow> int \<Rightarrow> bytes res" where
  "build_fc04_request slave start_addr reg_count =
     rbind (py_bytes [slave AND 0xFF, 0x04,
                      drop_bit 8 start_addr AND 0xFF, start_addr AND 0xFF,
                      drop_bit 8 reg_count AND 0xFF, reg_count AND 0xFF]) append_crc"

definition build_fc04_response :: "int \<Rightarrow> int \<Rightarrow> int \<Rightarrow> bytes res" where
  "build_fc04_response slave reg_count base_value =
     (let byte_count = reg_count * 2 in
      rbind (py_bytes [slave AND 0xFF, 0x04, byte_count]) (\<lambda>hdr.
      rbind (py_bytes (concat (map (\<lambda>i. let value = (base_value + int i) AND 0xFFFF
                                        in [drop_bit 8 value AND 0xFF, value AND 0xFF])
                                   [0..<nat reg_count]))) (\<lambda>regs.
      append_crc (hdr @ regs))))"

definition build_fc04_exchange :: "int \<Rightarrow> int \<Rightarrow> int \<Rightarrow> int \<Rightarrow> bytes res" where
  "build_fc04_exchange slave start_addr reg_count base_value =
     rbind (build_fc04_request slave start_addr reg_count) (\<lambda>req.
     rbind (build_fc04_response slave reg_count base_value) (\<lambda>resp. Inr (req @ resp)))"

definition BAD_CRC_PACKET :: bytes where
  "BAD_CRC_PACKET = [0x01, 0x03, 0x00, 0x00, 0x00, 0x01, 0xFF, 0xFF]"

section \<open>The CRC as a linear, injective shift register\<close>

definition crc_step :: "int \<Rightarrow> int" where
  "crc_step crc = (if odd crc then drop_bit 1 crc XOR 0xA001 else drop_bit 1 crc)"

lemma and_1_odd: "(c :: int) AND 1 \<noteq> 0 \<longleftrightarrow> odd c"
  by (simp add: and_one_eq odd_iff_mod_2_eq_one)

lemma crc_bits_step: "crc_bits n c = (crc_step ^^ n) c"
  by (induction n arbitrary: c) (simp_all add: crc_step_def and_1_odd funpow_swap1 funpow_Suc_right del: funpow.simps)

definition in16 :: "int \<Rightarrow> bool" where
  "in16 c \<longleftrightarrow> 0 \<le> c \<and> c < 65536"

lemma in16_xor [intro]: "in16 a \<Longrightarrow> in16 b \<Longrightarrow> in16 (a XOR b)"
  using XOR_upper [of a 16 b] by (simp add: in16_def)

lemma in16_uint [simp]: "in16 (uint (b :: byte))"
  using uint_byte_bounds [of b] unfolding in16_def by linarith

lemma in16_step [intro]:
  assumes "in16 c" shows "in16 (crc_step c)"
proof -
  have h: "in16 (drop_bit 1 c)" using assms by (auto simp: in16_def drop_bit_eq_div)
  have "in16 0xA001" by (simp add: in16_def)
  with h show ?thesis by (auto simp: crc_step_def)
qed

lemma crc_step_xor: "crc_step (a XOR b) = crc_step a XOR crc_step b"
  by (auto simp: crc_step_def even_xor_iff ac_simps)

lemma crc_step_eq_0:
  assumes "in16 d" "crc_step d = 0" shows "d = 0"
proof (cases "odd d")
  case True
  with assms(2) have "drop_bit 1 d = 0xA001"
    by (simp add: crc_step_def) (metis xor.assoc xor.right_neutral xor_self_eq)
  then have "d div 2 = 0xA001" by (simp add: drop_bit_eq_div)
  with assms(1) show ?thesis by (auto simp: in16_def)
next
  case False
  with assms show ?thesis by (auto simp: crc_step_def drop_bit_eq_div in16_def)
qed

lemma crc_step_inj:
  assumes "in16 a" "in16 b" "crc_step a = crc_step b" shows "a = b"
proof -
  have "crc_step (a XOR b) = 0" using assms(3) by (simp add: crc_step_xor)
  then have "a XOR b = 0" using assms(1,2) crc_step_eq_0 by blast
  then show ?thesis by (metis xor.assoc xor.right_neutral xor.left_neutral xor_self_eq)
qed

lemma crc_bits_in16: "in16 c \<Longrightarrow> in16 (crc_bits n c)"
  unfolding crc_bits_step by (induction n) auto

lemma crc_bits_inj: "in16 a \<Longrightarrow> in16 b \<Longrightarrow> crc_bits n a = crc_bits n b \<Longrightarrow> a = b"
proof (induction n)
  case (Suc n)
  then show ?case
    using crc_step_inj crc_bits_in16 unfolding crc_bits_step by (metis comp_apply funpow.simps(2))
qed simp

lemma crc_bits_xor: "crc_bits n (a XOR b) = crc_bits n a XOR crc_bits n b"
  unfolding crc_bits_step by (induction n) (simp_all add: crc_step_xor)

lemma crc_bits_shift: "crc_bits n (2 ^ n * y) = y"
proof (induction n)
  case (Suc n)
  have "crc_step (2 ^ Suc n * y) = 2 ^ n * y"
    by (simp add: crc_step_def drop_bit_eq_div)
  then show ?case
    using Suc.IH by (simp add: crc_bits_step funpow_Suc_right del: funpow.simps)
qed simp

lemma crc_byte_in16 [intro]: "in16 c \<Longrightarrow> in16 (crc_byte c b)"
  unfolding crc_byte_def by (intro crc_bits_in16 in16_xor in16_uint)

lemma crc_fold_in16: "in16 c \<Longrightarrow> in16 (foldl crc_byte c bs)"
  by (induction bs arbitrary: c) auto

lemma modbus_crc16_in16 [simp]: "in16 (modbus_crc16 data)"
  unfolding modbus_crc16_def by (rule crc_fold_in16) (simp add: in16_def)

lemma modbus_crc16_range: "0 \<le> modbus_crc16 data" "modbus_crc16 data \<le> 65535"
  using modbus_crc16_in16 [of data] by (auto simp: in16_def)

lemma xor_swap:
  assumes "(x :: int) XOR b = y XOR b'" shows "x XOR y = b XOR b'"
proof (rule bit_eqI)
  fix n
  from assms have "bit (x XOR b) n = bit (y XOR b') n" by simp
  then show "bit (x XOR y) n = bit (b XOR b') n" by (auto simp: bit_simps)
qed

lemma xor_eq_0_int: "(x :: int) XOR y = 0 \<longleftrightarrow> x = y"
  using xor_swap [of x y 0 0] by auto

lemma xor_eq_cancel: "(a :: int) XOR b = a XOR c \<longleftrightarrow> b = c"
  by (metis xor.assoc xor.left_neutral xor_self_eq)

lemma xor_eq_cancel_right: "(a :: int) XOR c = b XOR c \<longleftrightarrow> a = b"
  by (metis xor.commute xor_eq_cancel)

lemma crc_byte_inj_state:
  "in16 c \<Longrightarrow> in16 c' \<Longrightarrow> crc_byte c b = crc_byte c' b \<Longrightarrow> c = c'"
  unfolding crc_byte_def
  by (metis crc_bits_inj in16_uint in16_xor xor_eq_cancel_right)

lemma crc_fold_inj:
  "in16 c \<Longrightarrow> in16 c' \<Longrightarrow> foldl crc_byte c bs = foldl crc_byte c' bs \<Longrightarrow> c = c'"
  by (induction bs arbitrary: c c') (auto dest: crc_byte_inj_state)

text \<open>Eight steps move a single-byte difference out of the low byte, so the next message
  byte can never cancel it.\<close>

lemma crc_bits_8_low:
  assumes "in16 d" "d < 256" "crc_bits 8 d < 256" shows "d = 0"
proof -
  let ?y = "crc_bits 8 d"
  have y0: "0 \<le> ?y" using crc_bits_in16 [OF assms(1), of 8] by (simp add: in16_def)
  have "crc_bits 8 (2 ^ 8 * ?y) = crc_bits 8 d" by (simp only: crc_bits_shift)
  moreover have "in16 (2 ^ 8 * ?y)" using y0 assms(3) by (simp add: in16_def)
  ultimately have "2 ^ 8 * ?y = d" using assms(1) crc_bits_inj by blast
  then have yd: "256 * ?y = d" by simp
  with assms(2) have "256 * ?y < 256 * 1" by simp
  then have "?y < 1" by (simp only: mult_less_cancel_left_pos)
  with y0 yd show ?thesis by simp
qed

lemma xor_bytes_lt: "uint (a :: byte) XOR uint (b :: byte) < 256" "0 \<le> uint a XOR uint b"
  using XOR_upper [of "uint a" 8 "uint b"] by simp_all

lemma crc_two_bytes_inj:
  assumes c: "in16 c" and eq: "crc_byte (crc_byte c a) b = crc_byte (crc_byte c a') b'"
  shows "a = a' \<and> b = b'"
proof -
  let ?d = "uint a XOR uint a'" and ?e = "uint b XOR uint b'"
  have ca: "in16 (crc_byte c x)" for x using c by auto
  have xeq: "crc_byte c a XOR uint b = crc_byte c a' XOR uint b'"
  proof (rule crc_bits_inj)
    show "in16 (crc_byte c a XOR uint b)" "in16 (crc_byte c a' XOR uint b')"
      using ca by (auto intro: in16_xor)
    show "crc_bits 8 (crc_byte c a XOR uint b) = crc_bits 8 (crc_byte c a' XOR uint b')"
      using eq by (simp only: crc_byte_def [of "crc_byte c a"] crc_byte_def [of "crc_byte c a'"])
  qed
  have "crc_byte c a XOR crc_byte c a' = ?e"
    using xeq by (rule xor_swap)
  moreover have "crc_byte c a XOR crc_byte c a' = crc_bits 8 ?d"
    by (simp add: crc_byte_def crc_bits_xor ac_simps)
  ultimately have de: "crc_bits 8 ?d = ?e" by simp
  have "in16 ?d" by (intro in16_xor in16_uint)
  then have "?d = 0" using crc_bits_8_low xor_bytes_lt de by metis
  moreover have "crc_bits 8 0 = 0" using crc_bits_shift [of 8 0] by simp
  ultimately have "?e = 0" using de by simp
  with \<open>?d = 0\<close> show ?thesis
    by (simp add: xor_eq_0_int word_uint_eq_iff)
qed

lemma modbus_crc16_append:
  "modbus_crc16 (xs @ ys) = foldl crc_byte (modbus_crc16 xs) ys"
  by (simp add: modbus_crc16_def)

lemma modbus_crc16_burst:
  assumes "modbus_crc16 (xs @ a # b # ys) = modbus_crc16 (xs @ a' # b' # ys)"
  shows "a = a' \<and> b = b'"
proof -
  have "crc_byte (crc_byte (modbus_crc16 xs) a) b = crc_byte (crc_byte (modbus_crc16 xs) a') b'"
  proof (rule crc_fold_inj [of _ _ ys])
    show "foldl crc_byte (crc_byte (crc_byte (modbus_crc16 xs) a) b) ys =
      foldl crc_byte (crc_byte (crc_byte (modbus_crc16 xs) a') b') ys"
      using assms by (simp add: modbus_crc16_append)
  qed (intro crc_byte_in16 modbus_crc16_in16)+
  then show ?thesis by (rule crc_two_bytes_inj [OF modbus_crc16_in16])
qed

lemma rtu_crc16_eq: "rtu_crc16 data = modbus_crc16 data"
proof -
  have loop: "rtu_crc16_loop n c = crc_bits n c" for n c
    by (induction n arbitrary: c) simp_all
  have "rtu_crc16_from c bs = foldl crc_byte c bs" for c bs
    by (induction bs arbitrary: c) (simp_all add: loop crc_byte_def)
  then show ?thesis by (simp add: rtu_crc16_def modbus_crc16_def)
qed

section \<open>Complete frames\<close>

text \<open>The CRC trailer of a payload, and the receiver's check of a whole frame: the last two
  bytes, low byte first, against the CRC of the rest.\<close>

definition crc_trailer :: "bytes \<Rightarrow> bytes" where
  "crc_trailer p = [word_of_int (modbus_crc16 p mod 256), word_of_int (modbus_crc16 p div 256)]"

definition rtu_frame_ok :: "bytes \<Rightarrow> bool" where
  "rtu_frame_ok f \<longleftrightarrow> 2 \<le> length f \<and>
     unpack_H (f ! (length f - 1)) (f ! (length f - 2)) = modbus_crc16 (take (length f - 2) f)"

lemma append_crc_eq: "append_crc p = Inr (p @ crc_trailer p)"
  using modbus_crc16_range [of p]
  by (simp add: append_crc_def to_bytes_le2_def crc_trailer_def)

lemma length_crc_trailer [simp]: "length (crc_trailer p) = 2"
  by (simp add: crc_trailer_def)

lemma crc_two_bytes_zero:
  assumes "in16 c"
  shows "crc_byte (crc_byte c lo) hi = 0 \<longleftrightarrow> c = unpack_H hi lo"
proof -
  have "in16 (unpack_H hi lo)" using unpack_H_bounds [of hi lo] by (auto simp: in16_def)
  let ?lo = "word_of_int (c mod 256) :: byte" and ?hi = "word_of_int (c div 256) :: byte"
  have c0: "0 \<le> c" "c < 65536" using assms by (auto simp: in16_def)
  then have h: "0 \<le> c div 256" "c div 256 < 256" by auto
  have u: "uint ?lo = c mod 256" "uint ?hi = c div 256" using h by auto
  have "c XOR (c mod 256) = 2 ^ 8 * (c div 256)"
  proof -
    have "c = (2 ^ 8 * (c div 256)) XOR (c mod 256)"
    proof (rule bit_eqI)
      fix n
      have e: "c mod 256 = take_bit 8 c" "2 ^ 8 * (c div 256) = push_bit 8 (drop_bit 8 c)"
        by (simp_all add: take_bit_eq_mod push_bit_eq_mult drop_bit_eq_div)
      show "bit c n = bit ((2 ^ 8 * (c div 256)) XOR (c mod 256)) n"
        unfolding e by (auto simp: bit_simps)
    qed
    then show ?thesis by (metis xor.assoc xor.right_neutral xor_self_eq)
  qed
  then have s1: "crc_byte c ?lo = c div 256" by (simp only: crc_byte_def u crc_bits_shift)
  have s2: "crc_byte (c div 256) ?hi = 0"
    using crc_bits_shift [of 8 0] by (simp add: crc_byte_def u)
  have good: "crc_byte (crc_byte c ?lo) ?hi = 0" by (simp add: s1 s2)
  have cu: "c = unpack_H ?hi ?lo" using c0 by (simp add: unpack_H_div_mod)
  show ?thesis
  proof
    assume "crc_byte (crc_byte c lo) hi = 0"
    then have "crc_byte (crc_byte c lo) hi = crc_byte (crc_byte c ?lo) ?hi" using good by simp
    from crc_two_bytes_inj [OF assms this] cu show "c = unpack_H hi lo" by simp
  next
    assume c: "c = unpack_H hi lo"
    have "c div 256 = uint hi" "c mod 256 = uint lo" by (simp_all add: c unpack_H_def)
    then show "crc_byte (crc_byte c lo) hi = 0" using good by simp
  qed
qed

lemma frame_split2:
  assumes "2 \<le> length f"
  shows "f = take (length f - 2) f @ [f ! (length f - 2), f ! (length f - 1)]"
proof -
  obtain ys b where f: "f = ys @ [b]" using assms by (cases f rule: rev_exhaust) auto
  obtain xs a where "ys = xs @ [a]" using assms f by (cases ys rule: rev_exhaust) auto
  with f have "f = xs @ [a, b]" by simp
  then show ?thesis by (simp add: nth_append)
qed

lemma rtu_frame_ok_residue:
  assumes "2 \<le> length f"
  shows "rtu_frame_ok f \<longleftrightarrow> modbus_crc16 f = 0"
proof -
  let ?p = "take (length f - 2) f" and ?lo = "f ! (length f - 2)" and ?hi = "f ! (length f - 1)"
  have "modbus_crc16 f = crc_byte (crc_byte (modbus_crc16 ?p) ?lo) ?hi"
    using arg_cong [OF frame_split2 [OF assms], of modbus_crc16]
    by (simp add: modbus_crc16_append)
  then show ?thesis
    using crc_two_bytes_zero [OF modbus_crc16_in16] assms by (auto simp: rtu_frame_ok_def)
qed

lemma rtu_frame_ok_trailer [simp]: "rtu_frame_ok (p @ crc_trailer p)"
proof -
  have "modbus_crc16 (p @ crc_trailer p) = 0"
    using modbus_crc16_range [of p]
    by (simp add: modbus_crc16_append crc_trailer_def crc_two_bytes_zero unpack_H_div_mod)
  then show ?thesis by (simp add: rtu_frame_ok_residue)
qed

section \<open>What the builders produce\<close>

lemma and_FF: "(x :: int) AND 255 = x mod 256"
proof -
  have "x AND mask 8 = take_bit 8 x" by (simp add: take_bit_eq_mask)
  then show ?thesis by (simp add: mask_eq_exp_minus_1 take_bit_eq_mod)
qed

lemma and_FFFF: "(x :: int) AND 65535 = x mod 65536"
proof -
  have "x AND mask 16 = take_bit 16 x" by (simp add: take_bit_eq_mask)
  then show ?thesis by (simp add: mask_eq_exp_minus_1 take_bit_eq_mod)
qed

lemma drop_bit_8: "drop_bit 8 (x :: int) = x div 256"
  by (simp add: drop_bit_eq_div)

lemma is_byte_mod [simp]: "is_byte (x mod 256)"
  by (simp add: is_byte_def)

text \<open>The six bytes of a read request before its CRC.\<close>

definition read_pdu :: "int \<Rightarrow> int \<Rightarrow> int \<Rightarrow> int \<Rightarrow> bytes" where
  "read_pdu fc slave start_addr cnt =
     map word_of_int [slave mod 256, fc, start_addr div 256 mod 256, start_addr mod 256,
                      cnt div 256 mod 256, cnt mod 256]"

definition framed :: "bytes \<Rightarrow> bytes" where
  "framed p = p @ crc_trailer p"

lemma framed_ok: "rtu_frame_ok (framed p)"
  by (simp add: framed_def)

lemma framed_slice: "length h = k \<Longrightarrow> py_slice k (k + length d) (framed (h @ d)) = d"
  by (simp add: framed_def py_slice_def)

lemma length_read_pdu [simp]: "length (read_pdu fc slave a n) = 6"
  by (simp add: read_pdu_def)

lemma build_request_eqs [frame_simps]:
  "build_fc01_request slave a n = Inr (framed (read_pdu 1 slave a n))"
  "build_fc02_request slave a n = Inr (framed (read_pdu 2 slave a n))"
  "build_fc03_request slave a n = Inr (framed (read_pdu 3 slave a n))"
  "build_fc04_request slave a n = Inr (framed (read_pdu 4 slave a n))"
  by (simp_all add: build_fc01_request_def build_fc02_request_def build_fc03_request_def
      build_fc04_request_def py_bytes_def and_FF drop_bit_8 append_crc_eq read_pdu_def framed_def)
    (simp_all add: is_byte_def)

definition reg_words :: "int \<Rightarrow> nat \<Rightarrow> int list" where
  "reg_words base_value n = map (\<lambda>i. (base_value + int i) mod 65536) [0..<n]"

lemma reg_words_16: "list_all (\<lambda>v. 0 \<le> v \<and> v \<le> 65535) (reg_words b n)"
proof -
  have "x mod 65536 \<le> 65535" for x :: int
    using pos_mod_bound [of 65536 x] by linarith
  then show ?thesis by (simp add: reg_words_def list_all_iff)
qed

lemma py_bytes_reg_words:
  "py_bytes (concat (map (\<lambda>i. let value = (b + int i) AND 0xFFFF
      in [drop_bit 8 value AND 0xFF, value AND 0xFF]) [0..<n])) = Inr (be_bytes (reg_words b n))"
proof -
  have d: "x mod 65536 div 256 mod 256 = x mod 65536 div 256" for x :: int
  proof (rule mod_pos_pos_trivial)
    show "x mod 65536 div 256 < 256" using pos_mod_bound [of 65536 x] by linarith
  qed simp
  have e: "is_byte (x mod 65536 div 256)" for x :: int
    using is_byte_mod [of "x mod 65536 div 256"] unfolding d .
  show ?thesis
    by (simp add: py_bytes_def e and_FF and_FFFF drop_bit_8 be_bytes_def reg_words_def Let_def
        list_all_iff map_concat comp_def d)
qed

definition reg_response :: "int \<Rightarrow> int \<Rightarrow> int \<Rightarrow> int \<Rightarrow> bytes res" where
  "reg_response fc slave n b =
     (if 0 \<le> n \<and> n \<le> 127
      then Inr (framed (map word_of_int [slave mod 256, fc, 2 * n] @ be_bytes (reg_words b (nat n))))
      else Inl ValueError)"

lemma build_reg_response_eqs [frame_simps]:
  "build_fc03_response slave n b = reg_response 3 slave n b"
  "build_fc04_response slave n b = reg_response 4 slave n b"
  unfolding build_fc03_response_def build_fc04_response_def Let_def [of "n * 2"] py_bytes_reg_words
  by (auto simp: reg_response_def py_bytes_def and_FF is_byte_def append_crc_eq framed_def mult.commute)

definition bit_response :: "int \<Rightarrow> int \<Rightarrow> int \<Rightarrow> int \<Rightarrow> bytes res" where
  "bit_response fc slave n v =
     (if -7 \<le> n \<and> n \<le> 2040
      then Inr (framed (map word_of_int [slave mod 256, fc, (n + 7) div 8] @
                        replicate (nat ((n + 7) div 8)) (if odd v then 0xFF else 0)))
      else Inl ValueError)"

lemma build_bit_response_eqs [frame_simps]:
  "build_fc01_response slave n v = bit_response 1 slave n v"
  "build_fc02_response slave n v = bit_response 2 slave n v"
  by (auto simp: build_fc01_response_def build_fc02_response_def bit_response_def py_bytes_def and_FF
      is_byte_def append_crc_eq framed_def Let_def and_1_odd list_all_iff)

section \<open>Properties\<close>

text \<open>The CRC routine of the injector and the one of the simulated slave compute the same
  value on every byte string, and it fits 16 bits (so \<open>to_bytes\<close> cannot overflow).\<close>

theorem crc_routines_agree:
  "rtu_crc16 data = modbus_crc16 data \<and> 0 \<le> modbus_crc16 data \<and> modbus_crc16 data \<le> 65535"
  by (simp add: rtu_crc16_eq modbus_crc16_range)

text \<open>\<open>append_crc\<close> never raises; its result is the payload followed by two bytes, passes
  the receiver's check and has CRC residue zero.\<close>

theorem append_crc_checked:
  "\<exists>f. append_crc p = Inr f \<and> take (length p) f = p \<and> length f = length p + 2 \<and>
       rtu_frame_ok f \<and> modbus_crc16 f = 0"
  using rtu_frame_ok_residue [of "p @ crc_trailer p"] by (simp add: append_crc_eq)



text \<open>The register responses of the injector. They are built exactly for counts 0 to 127
  (the byte count has one byte) and raise \<open>ValueError\<close> otherwise; a built frame is valid and
  carries the registers \<open>base\<close>, \<open>base + 1\<close>, \<dots> modulo 65536, big endian.\<close>

theorem fc03_response_registers:
  "if 0 \<le> n \<and> n \<le> 127
   then \<exists>f. build_fc03_response slave n base = Inr f \<and> rtu_frame_ok f \<and> length f = 5 + 2 * nat n \<and>
            unpack_Hs (py_slice 3 (3 + 2 * nat n) f) = map (\<lambda>i. (base + int i) mod 65536) [0..<nat n]
   else build_fc03_response slave n base = Inl ValueError"
proof (cases "0 \<le> n \<and> n \<le> 127")
  case True
  let ?h = "map word_of_int [slave mod 256, 3, 2 * n] :: bytes" and ?d = "be_bytes (reg_words base (nat n))"
  have "build_fc03_response slave n base = Inr (framed (?h @ ?d))"
    using True by (simp add: build_reg_response_eqs reg_response_def)
  moreover have "py_slice 3 (3 + 2 * nat n) (framed (?h @ ?d)) = ?d"
    using framed_slice [of ?h 3 ?d] by (simp add: reg_words_def)
  moreover have "length (framed (?h @ ?d)) = 5 + 2 * nat n"
    by (simp add: framed_def reg_words_def)
  ultimately show ?thesis
    using True reg_words_16 [of base "nat n"] framed_ok [of "?h @ ?d"]
    by (simp add: unpack_be_bytes) (simp add: reg_words_def)
next
  case False
  then show ?thesis by (auto simp: build_reg_response_eqs reg_response_def)
qed

text \<open>The golden bad-CRC packet is rejected, and the CRC that would make it valid is
  \<open>0x84 0x0A\<close> in wire order.\<close>

theorem bad_crc_packet_rejected:
  "\<not> rtu_frame_ok BAD_CRC_PACKET \<and> rtu_frame_ok (take 6 BAD_CRC_PACKET @ [0x84, 0x0A])"
  by code_simp

end
