(* ===== verification/Stream_Parser.thy ===== *)
theory Stream_Parser
  imports Main
begin

text \<open>
  The contract of an incremental parser and what it gives its receive loop. A parser takes
  its state and a buffer and returns the new state with either the bytes it could not use
  yet or the exception it raised. The two laws of the locale say that more input never
  changes what was already decided; the lemmas derive that the way a stream is cut into
  chunks cannot be observed.
\<close>

fun feed_chunks ::
  "('s \<Rightarrow> 'a list \<Rightarrow> 's \<times> ('e + 'a list)) \<Rightarrow> 's \<Rightarrow> 'a list \<Rightarrow> 'a list list \<Rightarrow> 's \<times> ('e + 'a list)" where
  "feed_chunks feed s buf [] = (s, Inr buf)"
| "feed_chunks feed s buf (c # cs) =
     (case feed s (buf @ c) of
        (s', Inr rest) \<Rightarrow> feed_chunks feed s' rest cs
      | (s', Inl e) \<Rightarrow> (s', Inl e))"

locale chunk_parser =
  fixes feed :: "'s \<Rightarrow> 'a list \<Rightarrow> 's \<times> ('e + 'a list)"
    and invar :: "'s \<Rightarrow> bool"
  assumes invar_feed: "invar s \<Longrightarrow> invar (fst (feed s xs))"
    and feed_Inr: "invar s \<Longrightarrow> feed s xs = (s', Inr rest) \<Longrightarrow> feed s (xs @ ys) = feed s' (rest @ ys)"
    and feed_Inl: "invar s \<Longrightarrow> feed s xs = (s', Inl e) \<Longrightarrow> feed s (xs @ ys) = (s', Inl e)"
begin

lemma rest_stable: "invar s \<Longrightarrow> feed s xs = (s', Inr rest) \<Longrightarrow> feed s' rest = (s', Inr rest)"
  using feed_Inr [of s xs s' rest "[]"] by simp

lemma feed_chunks_concat:
  "invar s \<Longrightarrow> feed s buf = (s, Inr buf) \<Longrightarrow>
   feed_chunks feed s buf cs = feed s (buf @ concat cs)"
proof (induction cs arbitrary: s buf)
  case (Cons c cs)
  show ?case
  proof (cases "feed s (buf @ c)")
    case (Pair s' r)
    show ?thesis
    proof (cases r)
      case (Inl e)
      with Pair Cons.prems feed_Inl [of s "buf @ c" s' e "concat cs"] show ?thesis by simp
    next
      case (Inr rest)
      have "invar s'" using Pair Cons.prems(1) invar_feed [of s "buf @ c"] by simp
      moreover have "feed s' rest = (s', Inr rest)"
        using Pair Inr Cons.prems(1) rest_stable by simp
      ultimately have "feed_chunks feed s' rest cs = feed s' (rest @ concat cs)" by (rule Cons.IH)
      also have "\<dots> = feed s ((buf @ c) @ concat cs)"
        using Pair Inr Cons.prems(1) feed_Inr [of s "buf @ c" s' rest "concat cs"] by simp
      finally show ?thesis using Pair Inr by simp
    qed
  qed
qed simp

lemma feed_chunks_any_cut:
  "invar s \<Longrightarrow> feed s [] = (s, Inr []) \<Longrightarrow> concat cs = concat ds \<Longrightarrow>
   feed_chunks feed s [] cs = feed_chunks feed s [] ds"
  by (simp add: feed_chunks_concat)

end

end
