(* ===== verification/Rtu_Slave.thy ===== *)
theory Rtu_Slave
  imports Rtu_Codec Stream_Parser
begin

text \<open>
  The Modbus RTU slave thread of \<open>api_tests/rtu_slave_helpers.py\<close>
  (\<open>ModbusRtuSlaveThread\<close>) and the silent reader \<open>_UartNoEchoThread\<close>: the reply builder,
  the stream parser \<open>_process_buffer\<close> with its CRC resynchronisation, the receive loop
  \<open>run\<close> and the control calls.
  A socket is what the thread sees of it: the replies written so far and, as an oracle, the
  outcome of the \<open>sendall\<close> calls to come; the receive loop consumes a list of events, one
  per pass, with the calls of other threads between them.
\<close>

section \<open>State and replies\<close>

record rtu_slave =
  fake_value :: int
  exception_fc :: "(int \<times> int) list"
  drop_count :: int
  request_count :: int
  connected :: bool
  stop_event :: bool
  has_sock :: bool
  sock_closed :: bool
  last_write_addr :: "int option"
  last_write_qty :: "int option"
  last_write_values :: "int list option"
  sent :: "bytes list"
  send_oracle :: "bool list"

definition init_slave :: "int \<Rightarrow> (int \<times> int) list \<Rightarrow> int \<Rightarrow> rtu_slave" where
  "init_slave v exc drops =
     \<lparr>fake_value = v, exception_fc = exc, drop_count = drops, request_count = 0,
      connected = False, stop_event = False, has_sock = False, sock_closed = False,
      last_write_addr = None, last_write_qty = None, last_write_values = None,
      sent = [], send_oracle = []\<rparr>"

definition build_rtu_response :: "int \<Rightarrow> int \<Rightarrow> bytes \<Rightarrow> bytes res" where
  "build_rtu_response slave_id fc data =
     rbind (py_bytes [slave_id, fc]) (\<lambda>hd2.
     (let body = hd2 @ data; crc = rtu_crc16 body in
      rbind (py_bytes [crc AND 0xFF, drop_bit 8 crc]) (\<lambda>tl2. Inr (body @ tl2))))"

text \<open>The coil loop of FC01/FC02: bit \<open>i\<close> of the array is set, LSB first, when the fake
  value is true.\<close>

definition coil_bytes :: "int \<Rightarrow> nat \<Rightarrow> bytes" where
  "coil_bytes v cnt =
     foldl (\<lambda>coil i. if v \<noteq> 0 then coil[i div 8 := coil ! (i div 8) OR push_bit (i mod 8) 1] else coil)
       (replicate ((cnt + 7) div 8) 0) [0..<cnt]"

definition build_response :: "rtu_slave \<Rightarrow> int \<Rightarrow> int \<Rightarrow> int \<Rightarrow> int \<Rightarrow> bytes res" where
  "build_response s slave_id fc addr cnt =
     (case map_of (exception_fc s) fc of
        Some exc_code \<Rightarrow>
          rbind (py_bytes [exc_code]) (\<lambda>d. build_rtu_response slave_id (fc OR 0x80) d)
      | None \<Rightarrow>
          if fc \<in> {0x03, 0x04} then
            rbind (pack_Hs (replicate (nat cnt) (fake_value s))) (\<lambda>payload.
            rbind (py_bytes [int (length payload)]) (\<lambda>n.
            build_rtu_response slave_id fc (n @ payload)))
          else if fc \<in> {0x01, 0x02} then
            rbind (py_bytes [(cnt + 7) div 8]) (\<lambda>n.
            build_rtu_response slave_id fc (n @ coil_bytes (fake_value s) (nat cnt)))
          else if fc = 0x10 then
            rbind (pack_Hs [addr, cnt]) (\<lambda>d. build_rtu_response slave_id fc d)
          else
            rbind (py_bytes [0x01]) (\<lambda>d. build_rtu_response slave_id (fc OR 0x80) d))"

section \<open>The stream parser\<close>

text \<open>\<open>(hi << 8) | lo\<close>.\<close>

definition be16 :: "byte \<Rightarrow> byte \<Rightarrow> int" where
  "be16 hi lo = push_bit 8 (uint hi) OR uint lo"

text \<open>\<open>if response and self._sock: self._sock.sendall(response)\<close>: whether the call returned.\<close>

definition rtu_send :: "rtu_slave \<Rightarrow> bytes \<Rightarrow> rtu_slave \<times> bool" where
  "rtu_send s response =
     (if response \<noteq> [] \<and> has_sock s then
        (case send_oracle s of
           [] \<Rightarrow> (s\<lparr>sent := sent s @ [response]\<rparr>, True)
         | ok # rest \<Rightarrow>
             if ok then (s\<lparr>sent := sent s @ [response], send_oracle := rest\<rparr>, True)
             else (s\<lparr>send_oracle := rest\<rparr>, False))
      else (s, True))"

text \<open>How one pass of the \<open>while True\<close> loop ends.\<close>

datatype rtu_flow =
    Break
  | Continue rtu_slave bytes
  | Return rtu_slave bytes
  | Raise rtu_slave exn

text \<open>The common tail of both branches: the silent drop, the reply and the accounting.\<close>

definition rtu_answer :: "rtu_slave \<Rightarrow> int \<Rightarrow> int \<Rightarrow> int \<Rightarrow> int \<Rightarrow> bytes \<Rightarrow> nat \<Rightarrow> rtu_flow" where
  "rtu_answer s slave_id fc addr cnt buf req_len =
     (if drop_count s > 0 then
        Continue (s\<lparr>drop_count := drop_count s - 1, request_count := request_count s + 1\<rparr>)
          (drop req_len buf)
      else
        (case build_response s slave_id fc addr cnt of
           Inl e \<Rightarrow> Raise s e
         | Inr response \<Rightarrow>
             (case rtu_send s response of
                (s', False) \<Rightarrow> Return s' buf
              | (s', True) \<Rightarrow>
                  Continue (s'\<lparr>request_count := request_count s' + 1\<rparr>) (drop req_len buf))))"

definition rtu_iter :: "rtu_slave \<Rightarrow> bytes \<Rightarrow> rtu_flow" where
  "rtu_iter s buf =
     (if length buf < 4 then Break
      else
        (let fc = uint (buf ! 1) in
         if fc = 0x10 then
           (if length buf < 7 then Break
            else
              (let byte_count = unat (buf ! 6); req_len = 9 + byte_count in
               if length buf < req_len then Break
               else if be16 (buf ! (req_len - 1)) (buf ! (req_len - 2)) \<noteq> rtu_crc16 (take (req_len - 2) buf)
               then Continue s (drop 1 buf)
               else
                 (let slave_id = uint (buf ! 0);
                      addr = be16 (buf ! 2) (buf ! 3);
                      qty = be16 (buf ! 4) (buf ! 5);
                      s' = (if int byte_count = qty * 2 \<and> qty > 0
                            then s\<lparr>last_write_addr := Some addr, last_write_qty := Some qty,
                                   last_write_values := Some (unpack_Hs (py_slice 7 (7 + byte_count) buf))\<rparr>
                            else s)
                  in rtu_answer s' slave_id fc addr qty buf req_len)))
         else if length buf < 8 then Break
         else
           (let slave_id = uint (buf ! 0);
                addr = be16 (buf ! 2) (buf ! 3);
                cnt = be16 (buf ! 4) (buf ! 5);
                crc_recv = be16 (buf ! 7) (buf ! 6);
                crc_calc = rtu_crc16 (take 6 buf)
            in if crc_recv \<noteq> crc_calc then Continue s (drop 1 buf)
               else rtu_answer s slave_id fc addr cnt buf 8)))"

lemma rtu_answer_Continue_length:
  "rtu_answer s i fc a n buf k = Continue s' buf' \<Longrightarrow> buf' = drop k buf"
  by (auto simp: rtu_answer_def split: if_splits sum.splits prod.splits bool.splits)

text \<open>The same pass, seen as: how many bytes the decision needs, whether their CRC matches,
  and what is remembered of a write.\<close>

definition frame_need :: "bytes \<Rightarrow> nat option" where
  "frame_need buf =
     (if length buf < 4 then None
      else if uint (buf ! 1) = 16 then
        (if length buf < 7 then None
         else if length buf < 9 + unat (buf ! 6) then None else Some (9 + unat (buf ! 6)))
      else if length buf < 8 then None else Some 8)"

definition crc_matches :: "nat \<Rightarrow> bytes \<Rightarrow> bool" where
  "crc_matches n buf \<longleftrightarrow> be16 (buf ! (n - 1)) (buf ! (n - 2)) = rtu_crc16 (take (n - 2) buf)"

definition note_write :: "rtu_slave \<Rightarrow> bytes \<Rightarrow> rtu_slave" where
  "note_write s buf =
     (if uint (buf ! 1) = 16 \<and> int (unat (buf ! 6)) = be16 (buf ! 4) (buf ! 5) * 2 \<and> be16 (buf ! 4) (buf ! 5) > 0
      then s\<lparr>last_write_addr := Some (be16 (buf ! 2) (buf ! 3)),
             last_write_qty := Some (be16 (buf ! 4) (buf ! 5)),
             last_write_values := Some (unpack_Hs (py_slice 7 (7 + unat (buf ! 6)) buf))\<rparr>
      else s)"

lemma frame_need_Some: "frame_need buf = Some n \<Longrightarrow> 8 \<le> n \<and> n \<le> length buf \<and> n < 265"
  using unat_byte_le [of "buf ! 6"] by (auto simp: frame_need_def split: if_splits)

lemma rtu_iter_alt:
  "rtu_iter s buf =
     (case frame_need buf of
        None \<Rightarrow> Break
      | Some n \<Rightarrow>
          if crc_matches n buf
          then rtu_answer (note_write s buf) (uint (buf ! 0)) (uint (buf ! 1))
                 (be16 (buf ! 2) (buf ! 3)) (be16 (buf ! 4) (buf ! 5)) buf n
          else Continue s (drop 1 buf))"
  by (auto simp: rtu_iter_def frame_need_def crc_matches_def note_write_def Let_def)

lemma rtu_answer_not_Break: "rtu_answer s i fc a n buf k \<noteq> Break"
  by (simp add: rtu_answer_def split: sum.split prod.split bool.split)

lemma rtu_iter_Continue_drop:
  assumes "rtu_iter s buf = Continue s' buf'"
  shows "\<exists>k. 0 < k \<and> k \<le> length buf \<and> buf' = drop k buf"
proof -
  from assms obtain n where n: "frame_need buf = Some n"
    by (auto simp: rtu_iter_alt split: option.splits)
  have "buf' = drop 1 buf \<or> buf' = drop n buf"
    using assms n by (auto simp: rtu_iter_alt split: if_splits dest: rtu_answer_Continue_length)
  then show ?thesis using frame_need_Some [OF n] by (auto intro: exI [of _ 1] exI [of _ n])
qed

lemma rtu_iter_Continue_shorter:
  "rtu_iter s buf = Continue s' buf' \<Longrightarrow> length buf' < length buf"
  using rtu_iter_Continue_drop by fastforce

function process_buffer :: "rtu_slave \<Rightarrow> bytes \<Rightarrow> rtu_slave \<times> bytes res" where
  "process_buffer s buf =
     (case rtu_iter s buf of
        Break \<Rightarrow> (s, Inr buf)
      | Continue s' buf' \<Rightarrow> process_buffer s' buf'
      | Return s' buf' \<Rightarrow> (s', Inr buf')
      | Raise s' e \<Rightarrow> (s', Inl e))"
  by pat_completeness auto
termination
  by (relation "measure (\<lambda>(s, buf). length buf)") (auto dest: rtu_iter_Continue_shorter)

declare process_buffer.simps [simp del]

section \<open>The receive loop and the control calls\<close>

text \<open>What one pass of the receive loop can meet: bytes (the empty chunk is end of file), the
  0.5 s receive timeout, an \<open>OSError\<close>, or \<open>stop()\<close> called by another thread.\<close>

datatype rtu_event = Recv bytes | RecvTimeout | RecvError | StopCall

datatype rtu_status = Running | Finished | Died exn

definition rtu_stop :: "rtu_slave \<Rightarrow> rtu_slave" where
  "rtu_stop s = s\<lparr>stop_event := True, sock_closed := (has_sock s \<or> sock_closed s)\<rparr>"

definition rtu_close :: "rtu_slave \<Rightarrow> rtu_slave" where
  "rtu_close s = s\<lparr>sock_closed := True\<rparr>"

fun rtu_loop :: "rtu_slave \<Rightarrow> bytes \<Rightarrow> rtu_event list \<Rightarrow> rtu_slave \<times> bytes \<times> rtu_status" where
  "rtu_loop s buf evs =
     (if stop_event s then (rtu_close s, buf, Finished)
      else
        (case evs of
           [] \<Rightarrow> (s, buf, Running)
         | StopCall # rest \<Rightarrow> rtu_loop (rtu_stop s) buf rest
         | RecvTimeout # rest \<Rightarrow> rtu_loop s buf rest
         | RecvError # rest \<Rightarrow> (rtu_close s, buf, Finished)
         | Recv chunk # rest \<Rightarrow>
             if chunk = [] then (rtu_close s, buf, Finished)
             else
               (case process_buffer s (buf @ chunk) of
                  (s', Inr buf') \<Rightarrow> rtu_loop s' buf' rest
                | (s', Inl e) \<Rightarrow>
                    if e = TimeoutError then rtu_loop s' (buf @ chunk) rest
                    else if is_OSError e then (rtu_close s', buf @ chunk, Finished)
                    else (s', buf @ chunk, Died e))))"

declare rtu_loop.simps [simp del]

text \<open>\<open>run\<close>: \<open>None\<close> as the outcome of \<open>connect\<close> is an \<open>OSError\<close>.\<close>

definition rtu_run :: "rtu_slave \<Rightarrow> bool \<Rightarrow> rtu_event list \<Rightarrow> rtu_slave \<times> bytes \<times> rtu_status" where
  "rtu_run s connect_ok evs =
     (if connect_ok then rtu_loop (s\<lparr>has_sock := True, connected := True\<rparr>) [] evs
      else (s\<lparr>has_sock := True\<rparr>, [], Finished))"

text \<open>\<open>wait_connected\<close>: the values of \<open>self.connected\<close> seen at the polls before the deadline.\<close>

fun wait_connected :: "bool list \<Rightarrow> bool" where
  "wait_connected [] = False"
| "wait_connected (c # cs) = (if c then True else wait_connected cs)"

text \<open>\<open>_UartNoEchoThread.run\<close>: the bytes counted until the loop ends.\<close>

fun no_echo_loop :: "bool \<Rightarrow> nat \<Rightarrow> rtu_event list \<Rightarrow> nat \<times> rtu_status" where
  "no_echo_loop stopped n evs =
     (if stopped then (n, Finished)
      else
        (case evs of
           [] \<Rightarrow> (n, Running)
         | StopCall # rest \<Rightarrow> no_echo_loop True n rest
         | RecvTimeout # rest \<Rightarrow> no_echo_loop stopped n rest
         | RecvError # rest \<Rightarrow> (n, Finished)
         | Recv chunk # rest \<Rightarrow>
             if chunk = [] then (n, Finished) else no_echo_loop stopped (n + length chunk) rest))"

declare no_echo_loop.simps [simp del]

section \<open>The parser keeps the chunk contract\<close>

definition sends_ok :: "rtu_slave \<Rightarrow> bool" where
  "sends_ok s \<longleftrightarrow> list_all (\<lambda>ok. ok) (send_oracle s)"

lemma be16_unpack_H: "be16 hi lo = unpack_H hi lo"
proof -
  have "push_bit 8 (uint hi) AND uint lo = 0"
  proof (rule bit_eqI)
    fix n
    have "\<not> bit (uint lo) n" if "8 \<le> n"
      using that by (simp add: bit_uint_iff)
    then show "bit (push_bit 8 (uint hi) AND uint lo) n = bit (0 :: int) n"
      by (auto simp: bit_simps)
  qed
  then have "push_bit 8 (uint hi) + uint lo = push_bit 8 (uint hi) OR uint lo"
    by (rule disjunctive_add_eq_or)
  then show ?thesis by (simp add: be16_def unpack_H_def push_bit_eq_mult)
qed

lemma sends_ok_upd [simp]:
  "sends_ok (t\<lparr>request_count := q\<rparr>) = sends_ok t" "sends_ok (t\<lparr>drop_count := d\<rparr>) = sends_ok t"
  "sends_ok (note_write t buf) = sends_ok t"
  by (simp_all add: sends_ok_def note_write_def)

lemma rtu_send_ok: "rtu_send s r = (s', b) \<Longrightarrow> sends_ok s \<Longrightarrow> b \<and> sends_ok s'"
  by (auto simp: rtu_send_def sends_ok_def split: list.splits if_splits)

lemma rtu_answer_ok:
  assumes "sends_ok s"
  shows "rtu_answer s i fc a n buf k \<noteq> Return s' r"
    and "rtu_answer s i fc a n buf k = Continue s' r \<Longrightarrow> sends_ok s'"
    and "rtu_answer s i fc a n buf k = Raise s' e \<Longrightarrow> sends_ok s'"
  using assms
  by (auto simp: rtu_answer_def split: if_splits sum.splits prod.splits bool.splits dest: rtu_send_ok)

lemma rtu_iter_sends_ok:
  assumes "sends_ok s"
  shows "rtu_iter s buf \<noteq> Return s' r"
    and "rtu_iter s buf = Continue s' r \<Longrightarrow> sends_ok s'"
    and "rtu_iter s buf = Raise s' e \<Longrightarrow> sends_ok s'"
proof -
  have ok: "sends_ok (note_write s buf)" using assms by simp
  note a = rtu_answer_ok [OF ok]
  show "rtu_iter s buf \<noteq> Return s' r"
    using a(1) by (simp add: rtu_iter_alt split: option.split)
  show "rtu_iter s buf = Continue s' r \<Longrightarrow> sends_ok s'"
    using a(2) assms by (fastforce simp: rtu_iter_alt split: option.splits if_splits)
  show "rtu_iter s buf = Raise s' e \<Longrightarrow> sends_ok s'"
    using a(3) by (fastforce simp: rtu_iter_alt split: option.splits if_splits)
qed

text \<open>A decision taken on a buffer is taken on every extension of it.\<close>

lemma frame_need_append: "frame_need buf = Some n \<Longrightarrow> frame_need (buf @ ys) = Some n"
  by (auto simp: frame_need_def nth_append split: if_splits)

lemma frame_need_prefix:
  assumes "frame_need buf = Some n"
  shows "crc_matches n (buf @ ys) = crc_matches n buf"
    and "note_write s (buf @ ys) = note_write s buf"
    and "i < 6 \<Longrightarrow> (buf @ ys) ! i = buf ! i"
proof -
  have n: "8 \<le> n" "n \<le> length buf" using frame_need_Some [OF assms] by auto
  show "crc_matches n (buf @ ys) = crc_matches n buf"
  proof -
    have "n - 1 < length buf" "n - 2 < length buf" using n by auto
    then show ?thesis by (simp add: crc_matches_def nth_append)
  qed
  show "(buf @ ys) ! i = buf ! i" if "i < 6"
    using n that by (simp add: nth_append)
  have "uint (buf ! 1) = 16 \<Longrightarrow> 7 + unat (buf ! 6) \<le> length buf"
    using assms by (auto simp: frame_need_def split: if_splits)
  then show "note_write s (buf @ ys) = note_write s buf"
    using n by (auto simp: note_write_def nth_append py_slice_def)
qed

lemma rtu_answer_append:
  assumes "k \<le> length buf"
  shows "rtu_answer s i fc a n (buf @ ys) k =
    (case rtu_answer s i fc a n buf k of
       Continue s' r \<Rightarrow> Continue s' (r @ ys) | Return s' r \<Rightarrow> Return s' (r @ ys) | x \<Rightarrow> x)"
  using assms by (auto simp: rtu_answer_def split: sum.splits prod.splits bool.splits)

lemma rtu_iter_append:
  assumes "rtu_iter s buf \<noteq> Break"
  shows "rtu_iter s (buf @ ys) =
    (case rtu_iter s buf of
       Continue s' r \<Rightarrow> Continue s' (r @ ys) | Return s' r \<Rightarrow> Return s' (r @ ys) | x \<Rightarrow> x)"
proof -
  from assms obtain n where n: "frame_need buf = Some n"
    by (auto simp: rtu_iter_alt split: option.splits)
  note l = frame_need_Some [OF n] and p = frame_need_prefix [OF n]
  have "drop 1 (buf @ ys) = drop 1 buf @ ys" using l by simp
  then show ?thesis
    using l by (simp add: rtu_iter_alt n frame_need_append [OF n] p rtu_answer_append)
qed

lemma process_buffer_sends_ok: "sends_ok s \<Longrightarrow> sends_ok (fst (process_buffer s buf))"
proof (induction s buf rule: process_buffer.induct)
  case (1 s buf)
  then show ?case
    using rtu_iter_sends_ok [OF "1.prems", of buf]
    by (subst process_buffer.simps) (auto split: rtu_flow.splits)
qed

lemma process_buffer_append:
  "sends_ok s \<Longrightarrow>
   process_buffer s (buf @ ys) =
     (case process_buffer s buf of
        (s', Inr rest) \<Rightarrow> process_buffer s' (rest @ ys)
      | (s', Inl e) \<Rightarrow> (s', Inl e))"
proof (induction s buf rule: process_buffer.induct)
  case (1 s buf)
  note ok = rtu_iter_sends_ok [OF "1.prems", of buf]
  show ?case
  proof (cases "rtu_iter s buf")
    case Break
    then show ?thesis by (simp add: process_buffer.simps [of s buf])
  next
    case (Continue s' r)
    with ok(2) have "sends_ok s'" by blast
    with Continue show ?thesis
      using "1.IH" [OF Continue] rtu_iter_append [of s buf ys]
      by (simp add: process_buffer.simps [of s buf] process_buffer.simps [of s "buf @ ys"])
  next
    case (Return s' r)
    with ok(1) show ?thesis by blast
  next
    case (Raise s' e)
    then show ?thesis
      using rtu_iter_append [of s buf ys]
      by (simp add: process_buffer.simps [of s buf] process_buffer.simps [of s "buf @ ys"])
  qed
qed

interpretation rtu: chunk_parser process_buffer sends_ok
  by unfold_locales (simp_all add: process_buffer_sends_ok process_buffer_append)

section \<open>The receive loop over the contract\<close>

fun deliveries :: "rtu_event list \<Rightarrow> bytes list" where
  "deliveries [] = []"
| "deliveries (Recv c # evs) = c # deliveries evs"
| "deliveries (_ # evs) = deliveries evs"

text \<open>Events of a connection that stays up and is not stopped.\<close>

fun orderly :: "rtu_event list \<Rightarrow> bool" where
  "orderly [] = True"
| "orderly (Recv c # evs) = (c \<noteq> [] \<and> orderly evs)"
| "orderly (RecvTimeout # evs) = orderly evs"
| "orderly _ = False"

lemma build_response_errors: "raises_only {ValueError, StructError} (build_response s i fc a n)"
  by (simp add: build_response_def build_rtu_response_def Let_def raises_rules split: option.split)

lemma rtu_send_stop [simp]: "stop_event (fst (rtu_send s r)) = stop_event s"
  by (simp add: rtu_send_def split: list.split)

lemma rtu_answer_frame:
  "rtu_answer s i fc a n buf k = Continue s' r \<Longrightarrow> stop_event s' = stop_event s"
  "rtu_answer s i fc a n buf k = Raise s' e \<Longrightarrow> stop_event s' = stop_event s \<and> e \<in> {ValueError, StructError}"
proof -
  have st: "rtu_send s x = (s', b) \<Longrightarrow> stop_event s' = stop_event s" for x s' b
    using rtu_send_stop [of s x] by simp
  have er: "build_response s i fc a n = Inl e \<Longrightarrow> e \<in> {ValueError, StructError}" for e
    using build_response_errors [of s i fc a n] by (simp add: raises_only_def)
  show "rtu_answer s i fc a n buf k = Continue s' r \<Longrightarrow> stop_event s' = stop_event s"
    by (auto simp: rtu_answer_def split: if_splits sum.splits prod.splits bool.splits dest: st)
  show "rtu_answer s i fc a n buf k = Raise s' e \<Longrightarrow> stop_event s' = stop_event s \<and> e \<in> {ValueError, StructError}"
    using er by (simp add: rtu_answer_def split: if_splits sum.splits prod.splits bool.splits)
qed

lemma note_write_stop [simp]: "stop_event (note_write s buf) = stop_event s"
  by (simp add: note_write_def)

lemma rtu_iter_frame:
  "rtu_iter s buf = Continue s' r \<Longrightarrow> stop_event s' = stop_event s"
  "rtu_iter s buf = Raise s' e \<Longrightarrow> stop_event s' = stop_event s \<and> e \<in> {ValueError, StructError}"
proof -
  note a = rtu_answer_frame [of "note_write s buf", unfolded note_write_stop]
  show "rtu_iter s buf = Continue s' r \<Longrightarrow> stop_event s' = stop_event s"
    using a(1) by (simp add: rtu_iter_alt split: option.splits if_splits)
  show "rtu_iter s buf = Raise s' e \<Longrightarrow> stop_event s' = stop_event s \<and> e \<in> {ValueError, StructError}"
    using a(2) by (simp add: rtu_iter_alt split: option.splits if_splits)
qed

lemma process_buffer_frame:
  assumes "sends_ok s"
  shows "process_buffer s buf = (s', r) \<Longrightarrow>
    stop_event s' = stop_event s \<and> (\<forall>e. r = Inl e \<longrightarrow> e \<in> {ValueError, StructError})"
  using assms
proof (induction s buf rule: process_buffer.induct)
  case (1 s buf)
  note ok = rtu_iter_sends_ok [OF "1.prems"(2), of buf]
  show ?case
  proof (cases "rtu_iter s buf")
    case (Continue t b)
    with "1.prems" "1.IH" [OF Continue] ok(2) rtu_iter_frame(1) [OF Continue] show ?thesis
      by (simp add: process_buffer.simps [of s buf])
  next
    case (Return t b)
    with ok(1) show ?thesis by blast
  next
    case (Raise t e)
    with "1.prems" rtu_iter_frame(2) [OF Raise] show ?thesis
      by (auto simp: process_buffer.simps [of s buf])
  qed (use "1.prems" in \<open>auto simp: process_buffer.simps [of s buf]\<close>)
qed

definition loop_outcome :: "rtu_slave \<times> bytes res \<Rightarrow> rtu_slave \<times> rtu_status" where
  "loop_outcome p = (case p of (s, Inr _) \<Rightarrow> (s, Running) | (s, Inl e) \<Rightarrow> (s, Died e))"

lemma rtu_loop_feed:
  "\<not> stop_event s \<Longrightarrow> sends_ok s \<Longrightarrow> orderly evs \<Longrightarrow>
   (case rtu_loop s buf evs of (s', b, st) \<Rightarrow> (s', st)) =
     loop_outcome (feed_chunks process_buffer s buf (deliveries evs))"
proof (induction evs arbitrary: s buf)
  case Nil
  then show ?case by (simp add: rtu_loop.simps loop_outcome_def)
next
  case (Cons ev evs)
  show ?case
  proof (cases ev)
    case (Recv c)
    obtain s' r where pb: "process_buffer s (buf @ c) = (s', r)" by fastforce
    note fr = process_buffer_frame [OF Cons.prems(2) pb]
    have ok: "sends_ok s'" using process_buffer_sends_ok [OF Cons.prems(2), of "buf @ c"] pb by simp
    show ?thesis
    proof (cases r)
      case (Inr b)
      with Cons.prems Recv pb fr ok show ?thesis
        by (simp add: rtu_loop.simps [of s] Cons.IH)
    next
      case (Inl e)
      with fr have "e = ValueError \<or> e = StructError" by auto
      with Cons.prems Recv pb Inl show ?thesis
        by (auto simp: rtu_loop.simps [of s] is_OSError_def loop_outcome_def)
    qed
  next
    case RecvTimeout
    with Cons show ?thesis by (simp add: rtu_loop.simps [of s buf "RecvTimeout # evs"])
  qed (use Cons.prems in simp_all)
qed

lemma process_buffer_Nil: "process_buffer s [] = (s, Inr [])"
  by (simp add: process_buffer.simps rtu_iter_def)

section \<open>Bounds on what is left over\<close>

lemma process_buffer_suffix:
  "process_buffer s buf = (s', Inr rest) \<Longrightarrow> sends_ok s \<Longrightarrow>
   (\<exists>k. rest = drop k buf) \<and> length rest < 264"
proof (induction s buf rule: process_buffer.induct)
  case (1 s buf)
  note ok = rtu_iter_sends_ok [OF "1.prems"(2), of buf]
  show ?case
  proof (cases "rtu_iter s buf")
    case Break
    then have none: "frame_need buf = None"
      using rtu_answer_not_Break by (auto simp: rtu_iter_alt split: option.splits if_splits)
    then have "length buf < 264"
      using unat_byte_le [of "buf ! 6"] by (auto simp: frame_need_def split: if_splits)
    moreover have "rest = buf" using Break "1.prems"(1) by (simp add: process_buffer.simps [of s buf])
    ultimately show ?thesis by (auto intro: exI [of _ 0])
  next
    case (Continue t b)
    with "1.prems" "1.IH" [OF Continue] ok(2) obtain k where k: "rest = drop k b" "length rest < 264"
      by (auto simp: process_buffer.simps [of s buf])
    obtain j where "b = drop j buf" using rtu_iter_Continue_drop [OF Continue] by blast
    with k show ?thesis by auto
  next
    case (Return t b)
    with ok(1) show ?thesis by blast
  next
    case (Raise t e)
    with "1.prems" show ?thesis by (simp add: process_buffer.simps [of s buf])
  qed
qed

section \<open>Serving read and write requests\<close>

lemma build_rtu_response_eq:
  assumes "0 \<le> i" "i \<le> 255" "0 \<le> fc" "fc \<le> 255"
  shows "build_rtu_response i fc data = Inr (framed (word_of_int i # word_of_int fc # data))"
proof -
  let ?b = "word_of_int i # word_of_int fc # data"
  have "0 \<le> modbus_crc16 ?b div 256" "modbus_crc16 ?b div 256 \<le> 255"
    using modbus_crc16_range [of ?b] by linarith+
  then have "is_byte (modbus_crc16 ?b div 256)" by (simp add: is_byte_def)
  moreover have "is_byte i" "is_byte fc" using assms by (simp_all add: is_byte_def)
  ultimately show ?thesis
    by (simp add: build_rtu_response_def py_bytes_def rtu_crc16_eq and_FF Let_def
        drop_bit_8 framed_def crc_trailer_def)
qed

text \<open>A read request as a tuple of slave id, function code, start address and count; the
  counts are the ones whose reply length fits its one-byte field.\<close>

type_synonym read_req = "int \<times> int \<times> int \<times> int"

fun readable :: "rtu_slave \<Rightarrow> read_req \<Rightarrow> bool" where
  "readable s (i, fc, a, n) \<longleftrightarrow>
     0 \<le> i \<and> i \<le> 255 \<and> fc \<in> {1, 2, 3, 4} \<and> map_of (exception_fc s) fc = None \<and>
     0 \<le> a \<and> a \<le> 65535 \<and> 0 \<le> n \<and> n \<le> (if fc \<in> {3, 4} then 127 else 2040)"

lemma readable_cong: "exception_fc s = exception_fc t \<Longrightarrow> readable s = readable t"
  by (intro ext) (auto split: prod.split)

fun request_of :: "read_req \<Rightarrow> bytes" where
  "request_of (i, fc, a, n) = framed (read_pdu fc i a n)"

fun reply_of :: "int \<Rightarrow> read_req \<Rightarrow> bytes" where
  "reply_of v (i, fc, a, n) =
     framed (word_of_int i # word_of_int fc #
       (if fc \<in> {3, 4} then word_of_int (2 * n) # be_bytes (replicate (nat n) v)
        else word_of_int ((n + 7) div 8) # coil_bytes v (nat n)))"

lemma build_response_read:
  assumes "readable s (i, fc, a, n)" "0 \<le> fake_value s" "fake_value s \<le> 65535"
  shows "build_response s i fc a n = Inr (reply_of (fake_value s) (i, fc, a, n))"
proof -
  have "pack_Hs (replicate (nat n) (fake_value s)) = Inr (be_bytes (replicate (nat n) (fake_value s)))"
    using assms(2,3) by (intro pack_Hs_be_bytes) (simp add: list_all_iff)
  then show ?thesis
    using assms(1) by (auto simp: build_response_def py_bytes_def is_byte_def build_rtu_response_eq
        split: if_splits)
qed

lemma read_frame_fields:
  assumes "0 \<le> a" "a \<le> 65535" "0 \<le> n" "n \<le> 65535" "0 \<le> i" "i \<le> 255" "0 \<le> fc" "fc \<le> 255"
    and buf: "buf = framed (read_pdu fc i a n) @ rest"
  shows "uint (buf ! 0) = i" "uint (buf ! 1) = fc" "be16 (buf ! 2) (buf ! 3) = a"
    "be16 (buf ! 4) (buf ! 5) = n" "length buf = 8 + length rest" "drop 8 buf = rest"
    "crc_matches 8 buf"
proof -
  have h: "a div 256 mod 256 = a div 256" "n div 256 mod 256 = n div 256"
    using assms by (auto intro!: mod_pos_pos_trivial)
  have i: "i mod 256 = i" using assms by (auto intro!: mod_pos_pos_trivial)
  show "uint (buf ! 0) = i" "uint (buf ! 1) = fc" "be16 (buf ! 2) (buf ! 3) = a"
    "be16 (buf ! 4) (buf ! 5) = n" "length buf = 8 + length rest" "drop 8 buf = rest"
    using assms by (simp_all add: framed_def read_pdu_def h i be16_unpack_H unpack_H_div_mod
        crc_trailer_def eval_nat_numeral)
  have "take 6 buf = read_pdu fc i a n" by (simp add: buf framed_def)
  moreover have "buf ! 6 = word_of_int (modbus_crc16 (read_pdu fc i a n) mod 256)"
    "buf ! 7 = word_of_int (modbus_crc16 (read_pdu fc i a n) div 256)"
    by (simp_all add: buf framed_def nth_append crc_trailer_def)
  ultimately show "crc_matches 8 buf"
    using modbus_crc16_range [of "read_pdu fc i a n"]
    by (simp add: crc_matches_def rtu_crc16_eq be16_unpack_H unpack_H_div_mod)
qed

definition serving :: "rtu_slave \<Rightarrow> bool" where
  "serving s \<longleftrightarrow> 0 \<le> fake_value s \<and> fake_value s \<le> 65535 \<and> has_sock s \<and> send_oracle s = []"

lemma rtu_iter_read:
  assumes "readable s q" "serving s" "drop_count s \<le> 0"
  shows "rtu_iter s (request_of q @ rest) =
    Continue (s\<lparr>sent := sent s @ [reply_of (fake_value s) q], request_count := request_count s + 1\<rparr>) rest"
proof -
  obtain i fc a n where q: "q = (i, fc, a, n)" by (cases q)
  let ?buf = "framed (read_pdu fc i a n) @ rest"
  have r: "0 \<le> a" "a \<le> 65535" "0 \<le> n" "n \<le> 65535" "0 \<le> i" "i \<le> 255" "0 \<le> fc" "fc \<le> 255" "fc \<noteq> 16"
    using assms(1) by (auto simp: q split: if_splits)
  note f = read_frame_fields [OF r(1-8) refl, of rest]
  have need: "frame_need ?buf = Some 8" using f r by (simp add: frame_need_def)
  have nw: "note_write s ?buf = s" using f r by (simp add: note_write_def)
  have "build_response s i fc a n = Inr (reply_of (fake_value s) q)"
    using assms(1,2) build_response_read [of s i fc a n] by (simp add: q serving_def)
  moreover have "reply_of (fake_value s) q \<noteq> []" by (simp add: q framed_def)
  ultimately have "rtu_answer s i fc a n ?buf 8 =
      Continue (s\<lparr>sent := sent s @ [reply_of (fake_value s) q], request_count := request_count s + 1\<rparr>) rest"
    using assms(2,3) f(6) by (simp add: rtu_answer_def rtu_send_def serving_def)
  then show ?thesis using need nw f by (simp add: rtu_iter_alt q)
qed

lemma process_buffer_reads:
  "list_all (readable s) qs \<Longrightarrow> serving s \<Longrightarrow> drop_count s \<le> 0 \<Longrightarrow>
   process_buffer s (concat (map request_of qs) @ rest) =
     process_buffer (s\<lparr>sent := sent s @ map (reply_of (fake_value s)) qs,
                       request_count := request_count s + int (length qs)\<rparr>) rest"
proof (induction qs arbitrary: s)
  case (Cons q qs)
  let ?s = "s\<lparr>sent := sent s @ [reply_of (fake_value s) q], request_count := request_count s + 1\<rparr>"
  have rd: "readable ?s = readable s" by (rule readable_cong) simp
  have "process_buffer s (concat (map request_of (q # qs)) @ rest) =
      process_buffer ?s (concat (map request_of qs) @ rest)"
    using Cons.prems rtu_iter_read [of s q "concat (map request_of qs) @ rest"]
    by (subst process_buffer.simps) simp
  also have "\<dots> = process_buffer (?s\<lparr>sent := sent ?s @ map (reply_of (fake_value ?s)) qs,
      request_count := request_count ?s + int (length qs)\<rparr>) rest"
    using Cons.prems by (intro Cons.IH) (simp_all add: rd serving_def)
  finally show ?case by (simp add: ac_simps)
qed simp

text \<open>A request that hits a positive drop counter is counted and not answered.\<close>

lemma rtu_iter_drop:
  assumes "readable s q" "drop_count s > 0"
  shows "rtu_iter s (request_of q @ rest) =
    Continue (s\<lparr>drop_count := drop_count s - 1, request_count := request_count s + 1\<rparr>) rest"
proof -
  obtain i fc a n where q: "q = (i, fc, a, n)" by (cases q)
  let ?buf = "framed (read_pdu fc i a n) @ rest"
  have r: "0 \<le> a" "a \<le> 65535" "0 \<le> n" "n \<le> 65535" "0 \<le> i" "i \<le> 255" "0 \<le> fc" "fc \<le> 255" "fc \<noteq> 16"
    using assms(1) by (auto simp: q split: if_splits)
  note f = read_frame_fields [OF r(1-8) refl, of rest]
  have need: "frame_need ?buf = Some 8" using f r by (simp add: frame_need_def)
  have nw: "note_write s ?buf = s" using f r by (simp add: note_write_def)
  show ?thesis using need nw f assms(2) by (simp add: rtu_iter_alt q rtu_answer_def)
qed

lemma process_buffer_drops:
  "list_all (readable s) qs \<Longrightarrow> drop_count s \<ge> int (length qs) \<Longrightarrow>
   process_buffer s (concat (map request_of qs) @ rest) =
     process_buffer (s\<lparr>drop_count := drop_count s - int (length qs),
                       request_count := request_count s + int (length qs)\<rparr>) rest"
proof (induction qs arbitrary: s)
  case (Cons q qs)
  let ?s = "s\<lparr>drop_count := drop_count s - 1, request_count := request_count s + 1\<rparr>"
  have rd: "readable ?s = readable s" by (rule readable_cong) simp
  have "process_buffer s (concat (map request_of (q # qs)) @ rest) =
      process_buffer ?s (concat (map request_of qs) @ rest)"
    using Cons.prems rtu_iter_drop [of s q "concat (map request_of qs) @ rest"]
    by (subst process_buffer.simps) simp
  also have "\<dots> = process_buffer (?s\<lparr>drop_count := drop_count ?s - int (length qs),
      request_count := request_count ?s + int (length qs)\<rparr>) rest"
    using Cons.prems by (intro Cons.IH) (simp_all add: rd)
  finally show ?case by (simp add: algebra_simps)
qed simp

text \<open>An FC16 request for the registers \<open>vs\<close>, and the echo it is answered with.\<close>

definition write_request :: "int \<Rightarrow> int \<Rightarrow> int list \<Rightarrow> bytes" where
  "write_request i a vs =
     (let q = int (length vs) in
      framed (map word_of_int [i, 16, a div 256, a mod 256, q div 256, q mod 256, 2 * q] @ be_bytes vs))"

definition write_echo :: "int \<Rightarrow> int \<Rightarrow> int \<Rightarrow> bytes" where
  "write_echo i a q = framed (map word_of_int [i, 16, a div 256, a mod 256, q div 256, q mod 256])"

lemma write_frame_fields:
  assumes r: "0 \<le> i" "i \<le> 255" "0 \<le> a" "a \<le> 65535" "0 < length vs" "length vs \<le> 127"
    and v: "list_all (\<lambda>v. 0 \<le> v \<and> v \<le> 65535) vs"
    and buf: "buf = write_request i a vs @ rest"
  shows "uint (buf ! 0) = i" "uint (buf ! 1) = 16" "be16 (buf ! 2) (buf ! 3) = a"
    "be16 (buf ! 4) (buf ! 5) = int (length vs)" "unat (buf ! 6) = 2 * length vs"
    "length buf = 9 + 2 * length vs + length rest" "drop (9 + 2 * length vs) buf = rest"
    "unpack_Hs (py_slice 7 (7 + 2 * length vs) buf) = vs" "crc_matches (9 + 2 * length vs) buf"
proof -
  let ?q = "int (length vs)"
  let ?h = "map word_of_int [i, 16, a div 256, a mod 256, ?q div 256, ?q mod 256, 2 * ?q] :: bytes"
  let ?p = "?h @ be_bytes vs"
  have b: "buf = ?p @ crc_trailer ?p @ rest"
    by (simp add: buf write_request_def framed_def Let_def)
  have u6: "unat (word_of_int (2 * ?q) :: byte) = 2 * length vs"
  proof -
    have "uint (word_of_int (2 * ?q) :: byte) = 2 * ?q" using r by (intro uint_word_of_int_byte) auto
    then have "int (unat (word_of_int (2 * ?q) :: byte)) = int (2 * length vs)" by simp
    then show ?thesis by (simp only: of_nat_eq_iff)
  qed
  show "uint (buf ! 0) = i" "uint (buf ! 1) = 16" "be16 (buf ! 2) (buf ! 3) = a"
    using r by (simp_all add: b be16_unpack_H unpack_H_div_mod)
  show "be16 (buf ! 4) (buf ! 5) = int (length vs)"
    using r unpack_H_div_mod [of ?q] by (simp add: b be16_unpack_H)
  show "unat (buf ! 6) = 2 * length vs" using u6 by (simp add: b)
  show "length buf = 9 + 2 * length vs + length rest" by (simp add: b)
  have "length (?p @ crc_trailer ?p) = 9 + 2 * length vs" by simp
  then have "drop (9 + 2 * length vs) ((?p @ crc_trailer ?p) @ rest) = rest"
    by (rule drop_prefix)
  then show "drop (9 + 2 * length vs) buf = rest" unfolding b append_assoc .
  have t: "take (7 + 2 * length vs) buf = ?p" unfolding b by (rule take_prefix) simp
  have "drop 7 ?p = be_bytes vs" by (rule drop_prefix) simp
  then have "py_slice 7 (7 + 2 * length vs) buf = be_bytes vs" by (simp only: py_slice_def t)
  then show "unpack_Hs (py_slice 7 (7 + 2 * length vs) buf) = vs" by (simp add: unpack_be_bytes v)
  have "buf ! (7 + 2 * length vs) = word_of_int (modbus_crc16 ?p mod 256)"
    "buf ! (8 + 2 * length vs) = word_of_int (modbus_crc16 ?p div 256)"
    by (simp_all add: b nth_append crc_trailer_def)
  then show "crc_matches (9 + 2 * length vs) buf"
    using modbus_crc16_range [of ?p] t
    by (simp add: crc_matches_def rtu_crc16_eq be16_unpack_H unpack_H_div_mod)
qed

lemma rtu_iter_write:
  assumes r: "0 \<le> i" "i \<le> 255" "0 \<le> a" "a \<le> 65535" "0 < length vs" "length vs \<le> 127"
    and v: "list_all (\<lambda>v. 0 \<le> v \<and> v \<le> 65535) vs"
    and s: "serving s" "drop_count s \<le> 0" "map_of (exception_fc s) 16 = None"
  shows "rtu_iter s (write_request i a vs @ rest) =
    Continue (s\<lparr>last_write_addr := Some a, last_write_qty := Some (int (length vs)),
                last_write_values := Some vs, sent := sent s @ [write_echo i a (int (length vs))],
                request_count := request_count s + 1\<rparr>) rest"
proof -
  let ?q = "int (length vs)" and ?buf = "write_request i a vs @ rest"
  note f = write_frame_fields [OF r v refl, of rest]
  let ?s = "s\<lparr>last_write_addr := Some a, last_write_qty := Some ?q, last_write_values := Some vs\<rparr>"
  have need: "frame_need ?buf = Some (9 + 2 * length vs)" using f by (simp add: frame_need_def)
  have nw: "note_write s ?buf = ?s" using f r by (simp add: note_write_def)
  have "pack_Hs [a, ?q] = Inr (be_bytes [a, ?q])" using r by (intro pack_Hs_be_bytes) simp
  then have "build_response ?s i 16 a ?q = Inr (write_echo i a ?q)"
    using r s(3) by (simp add: build_response_def build_rtu_response_eq write_echo_def be_bytes_def del: pack_Hs.simps)
  moreover have "write_echo i a ?q \<noteq> []" by (simp add: write_echo_def framed_def)
  ultimately have "rtu_answer ?s i 16 a ?q ?buf (9 + 2 * length vs) =
      Continue (?s\<lparr>sent := sent s @ [write_echo i a ?q], request_count := request_count s + 1\<rparr>) rest"
    using s(1,2) f(7) by (simp add: rtu_answer_def rtu_send_def serving_def)
  then show ?thesis using need nw f by (simp add: rtu_iter_alt)
qed

section \<open>Coil replies bit by bit\<close>

lemma coil_bytes_bits:
  assumes "v \<noteq> 0"
  defines "upd \<equiv> \<lambda>coil i. if v \<noteq> 0 then coil[i div 8 := coil ! (i div 8) OR push_bit (i mod 8) 1] else coil"
  shows "m \<le> cnt \<Longrightarrow>
    length (foldl upd (replicate ((cnt + 7) div 8) (0 :: byte)) [0..<m]) = (cnt + 7) div 8 \<and>
    (\<forall>k < (cnt + 7) div 8. \<forall>j < 8.
       bit (foldl upd (replicate ((cnt + 7) div 8) (0 :: byte)) [0..<m] ! k) j \<longleftrightarrow> 8 * k + j < m)"
proof (induction m)
  case 0
  then show ?case by simp
next
  case (Suc m)
  let ?c = "foldl upd (replicate ((cnt + 7) div 8) (0 :: byte)) [0..<m]"
  from Suc have l: "length ?c = (cnt + 7) div 8"
    and b: "\<And>k j. k < (cnt + 7) div 8 \<Longrightarrow> j < 8 \<Longrightarrow> bit (?c ! k) j \<longleftrightarrow> 8 * k + j < m"
    by auto
  have e: "foldl upd (replicate ((cnt + 7) div 8) (0 :: byte)) [0..<Suc m] =
      ?c[m div 8 := ?c ! (m div 8) OR push_bit (m mod 8) 1]"
    using assms(1) by (simp add: upd_def)
  have "bit (?c[m div 8 := ?c ! (m div 8) OR push_bit (m mod 8) 1] ! k) j \<longleftrightarrow> 8 * k + j < Suc m"
    if kj: "k < (cnt + 7) div 8" "j < 8" for k j
  proof (cases "k = m div 8")
    case True
    have "bit (?c ! k OR push_bit (m mod 8) 1) j \<longleftrightarrow> bit (?c ! k) j \<or> j = m mod 8"
      using kj(2) by (auto simp: bit_simps)
    moreover have "j = m mod 8 \<longleftrightarrow> 8 * k + j = m" using True kj(2) by presburger
    ultimately show ?thesis using True kj l b by auto
  next
    case False
    moreover have "8 * k + j \<noteq> m" using False kj(2) by auto
    ultimately show ?thesis using kj b by auto
  qed
  then show ?case unfolding e using l by simp
qed

lemma coil_bytes_bit:
  assumes "k < (cnt + 7) div 8" "j < 8"
  shows "bit (coil_bytes v cnt ! k) j \<longleftrightarrow> v \<noteq> 0 \<and> 8 * k + j < cnt"
proof (cases "v = 0")
  case True
  have "coil_bytes v cnt = replicate ((cnt + 7) div 8) 0"
  proof -
    have "foldl (\<lambda>c i. c) c xs = c" for c :: bytes and xs :: "nat list"
      by (induction xs) simp_all
    then show ?thesis using True by (simp add: coil_bytes_def)
  qed
  with True assms show ?thesis by simp
next
  case False
  with coil_bytes_bits [OF False, of cnt cnt] assms show ?thesis by (simp add: coil_bytes_def)
qed

lemma length_coil_bytes [simp]: "length (coil_bytes v cnt) = (cnt + 7) div 8"
proof -
  have "length (foldl (\<lambda>coil i. if v \<noteq> 0 then coil[i div 8 := coil ! (i div 8) OR push_bit (i mod 8) 1] else coil)
     c xs) = length (c :: bytes)" for c xs
    by (induction xs arbitrary: c) auto
  then show ?thesis by (simp add: coil_bytes_def)
qed

section \<open>Properties\<close>

text \<open>The injector's builder for the function code of a read request.\<close>

fun build_request :: "read_req \<Rightarrow> bytes res" where
  "build_request (i, fc, a, n) =
     (if fc = 1 then build_fc01_request i a n
      else if fc = 2 then build_fc02_request i a n
      else if fc = 3 then build_fc03_request i a n
      else build_fc04_request i a n)"

lemma build_request_eq: "readable s q \<Longrightarrow> build_request q = Inr (request_of q)"
  by (cases q) (auto simp: frame_simps)

lemma build_requests_eq:
  "list_all (readable s) qs \<Longrightarrow> list_all2 (\<lambda>q f. build_request q = Inr f) qs frames \<Longrightarrow>
   frames = map request_of qs"
proof (induction qs arbitrary: frames)
  case (Cons q qs)
  then show ?case using build_request_eq [of s q] by (auto simp: list_all2_Cons1)
qed simp

lemma slave_serves_requests:
  assumes "list_all (readable s) qs" and "serving s" and "drop_count s \<le> 0" and "\<not> stop_event s"
    and "orderly evs" and "concat (deliveries evs) = concat (map request_of qs)"
  shows "\<exists>s' buf. rtu_run s True evs = (s', buf, Running) \<and>
    sent s' = sent s @ map (reply_of (fake_value s)) qs \<and>
    request_count s' = request_count s + int (length qs)"
proof -
  let ?s = "s\<lparr>has_sock := True, connected := True\<rparr>"
  let ?t = "?s\<lparr>sent := sent ?s @ map (reply_of (fake_value ?s)) qs,
               request_count := request_count ?s + int (length qs)\<rparr>"
  have ok: "sends_ok ?s" using assms(2) by (simp add: sends_ok_def serving_def)
  have rd: "readable ?s = readable s" by (rule readable_cong) simp
  have "process_buffer ?s (concat (map request_of qs)) = process_buffer ?t []"
    using assms(1-3) process_buffer_reads [of ?s qs "[]"] by (simp add: rd serving_def)
  then have "feed_chunks process_buffer ?s [] (deliveries evs) = (?t, Inr [])"
    using rtu.feed_chunks_concat [OF ok process_buffer_Nil] assms(6) by (simp add: process_buffer_Nil)
  moreover obtain s' b st where l: "rtu_loop ?s [] evs = (s', b, st)" by (metis prod_cases3)
  ultimately have "(s', st) = (?t, Running)"
    using rtu_loop_feed [of ?s evs "[]"] assms(4,5) ok by (simp add: loop_outcome_def)
  then show ?thesis using l by (simp add: rtu_run_def)
qed

text \<open>C15: end-to-end service. Whatever read requests the injector's builders produce, and
  however the stream that carries them is cut into receives and receive timeouts, the slave
  thread answers each of them once, in order, counts them all and stays in its loop.\<close>

theorem slave_serves_any_cut:
  assumes "list_all (readable s) qs" and "serving s" and "drop_count s \<le> 0" and "\<not> stop_event s"
    and "list_all2 (\<lambda>q f. build_request q = Inr f) qs frames"
    and "orderly evs" and "concat (deliveries evs) = concat frames"
  shows "\<exists>s' buf. rtu_run s True evs = (s', buf, Running) \<and>
    sent s' = sent s @ map (reply_of (fake_value s)) qs \<and>
    request_count s' = request_count s + int (length qs)"
  using slave_serves_requests [OF assms(1-4,6)] build_requests_eq [OF assms(1,5)] assms(7) by simp

theorem slave_serves_any_cut_witness:
  "\<exists>s' buf. rtu_run (init_slave 0x1234 [] 0\<lparr>has_sock := True\<rparr>) True
      [Recv [1, 3, 0], RecvTimeout, Recv [0, 0, 1, 0x84, 0x0A]] = (s', buf, Running) \<and>
    sent s' = [[1, 3, 2, 0x12, 0x34, 0xB5, 0x33]] \<and> request_count s' = 1"
proof -
  let ?s = "init_slave 0x1234 [] 0\<lparr>has_sock := True\<rparr>"
  have "list_all2 (\<lambda>q f. build_request q = Inr f) [(1, 3, 0, 1)] [[1, 3, 0, 0, 0, 1, 0x84, 0x0A]]"
    by code_simp
  moreover have "reply_of 0x1234 (1, 3, 0, 1) = [1, 3, 2, 0x12, 0x34, 0xB5, 0x33]" by code_simp
  ultimately show ?thesis
    using slave_serves_any_cut [of ?s "[(1, 3, 0, 1)]" "[[1, 3, 0, 0, 0, 1, 0x84, 0x0A]]"
      "[Recv [1, 3, 0], RecvTimeout, Recv [0, 0, 1, 0x84, 0x0A]]"]
    by (simp add: init_slave_def serving_def)
qed

text \<open>C16: fragmentation is invisible. For arbitrary bytes, valid frames or noise, two ways of
  delivering the same stream leave the slave in the same state with the same outcome.\<close>

theorem slave_fragmentation_invisible:
  assumes "sends_ok s" and "\<not> stop_event s" and "orderly evs" and "orderly evs'"
    and "concat (deliveries evs) = concat (deliveries evs')"
  shows "(case rtu_run s True evs of (s', b, st) \<Rightarrow> (s', st)) =
         (case rtu_run s True evs' of (s', b, st) \<Rightarrow> (s', st))"
proof -
  let ?s = "s\<lparr>has_sock := True, connected := True\<rparr>"
  have ok: "sends_ok ?s" using assms(1) by (simp add: sends_ok_def)
  then have "feed_chunks process_buffer ?s [] (deliveries evs) = feed_chunks process_buffer ?s [] (deliveries evs')"
    using rtu.feed_chunks_any_cut process_buffer_Nil assms(5) by blast
  then show ?thesis
    using rtu_loop_feed [of ?s _ "[]"] ok assms(2-4) by (simp add: rtu_run_def)
qed

theorem slave_fragmentation_invisible_witness:
  "(case rtu_run (init_slave 7 [] 0) True [Recv [9], RecvTimeout, Recv [1, 2]] of (s', b, st) \<Rightarrow> (s', st)) =
   (case rtu_run (init_slave 7 [] 0) True [Recv [9, 1, 2]] of (s', b, st) \<Rightarrow> (s', st))"
  by (rule slave_fragmentation_invisible) (simp_all add: init_slave_def sends_ok_def)

text \<open>The parser terminates on every buffer, and while sends succeed what it keeps for the
  next receive is a suffix of the input shorter than one maximal FC16 frame (264 bytes), so
  the receive buffer of the thread cannot grow without bound.\<close>

theorem slave_leftover_bounded:
  assumes "sends_ok s" and "process_buffer s buf = (s', Inr rest)"
  shows "(\<exists>k. rest = drop k buf) \<and> length rest < 264"
  using process_buffer_suffix [OF assms(2,1)] .

theorem slave_leftover_bounded_witness:
  "process_buffer (init_slave 7 [] 0) [1, 3, 0] = (init_slave 7 [] 0, Inr [1, 3, 0]) \<and>
   (\<exists>k. [1, 3, 0] = drop k [1, 3, 0 :: byte]) \<and> length [1, 3, 0 :: byte] < 264"
proof -
  have p: "process_buffer (init_slave 7 [] 0) [1, 3, 0] = (init_slave 7 [] 0, Inr [1, 3, 0])"
    by (subst process_buffer.simps) (simp add: rtu_iter_def)
  show ?thesis
    using p slave_leftover_bounded [OF _ p] by (simp add: init_slave_def sends_ok_def)
qed

text \<open>A well-formed FC16 write is recorded exactly (address, quantity and the register
  values as sent), echoed back, and consumed as one frame.\<close>

theorem slave_records_write:
  assumes "0 \<le> i" "i \<le> 255" "0 \<le> a" "a \<le> 65535" "0 < length vs" "length vs \<le> 127"
    and "list_all (\<lambda>v. 0 \<le> v \<and> v \<le> 65535) vs"
    and "serving s" "drop_count s \<le> 0" "map_of (exception_fc s) 16 = None"
  shows "process_buffer s (write_request i a vs) =
    (s\<lparr>last_write_addr := Some a, last_write_qty := Some (int (length vs)), last_write_values := Some vs,
       sent := sent s @ [write_echo i a (int (length vs))], request_count := request_count s + 1\<rparr>, Inr [])"
  using rtu_iter_write [OF assms, of "[]"]
  by (subst process_buffer.simps) (simp add: process_buffer_Nil)

theorem slave_records_write_witness:
  "process_buffer (init_slave 7 [] 0\<lparr>has_sock := True\<rparr>) (write_request 1 0x0010 [0x1122, 0x3344]) =
    (init_slave 7 [] 0\<lparr>has_sock := True, last_write_addr := Some 16, last_write_qty := Some 2,
       last_write_values := Some [0x1122, 0x3344], sent := [write_echo 1 16 2], request_count := 1\<rparr>, Inr [])"
  using slave_records_write [of 1 16 "[0x1122, 0x3344]" "init_slave 7 [] 0\<lparr>has_sock := True\<rparr>"]
  by (simp add: init_slave_def serving_def)

text \<open>The simulated outage. With a drop counter of \<open>k\<close> the first \<open>k\<close> read requests are
  consumed and counted without any reply, and the following ones are answered in order.\<close>

theorem slave_drops_then_serves:
  assumes "list_all (readable s) ds" and "list_all (readable s) qs" and "serving s"
    and "drop_count s = int (length ds)"
  shows "process_buffer s (concat (map request_of ds) @ concat (map request_of qs)) =
    (s\<lparr>drop_count := 0, request_count := request_count s + int (length ds) + int (length qs),
       sent := sent s @ map (reply_of (fake_value s)) qs\<rparr>, Inr [])"
proof -
  let ?s = "s\<lparr>drop_count := 0, request_count := request_count s + int (length ds)\<rparr>"
  have rd: "readable ?s = readable s" by (rule readable_cong) simp
  have "process_buffer s (concat (map request_of ds) @ concat (map request_of qs)) =
      process_buffer ?s (concat (map request_of qs) @ [])"
    using process_buffer_drops [OF assms(1), of "concat (map request_of qs)"] assms(4) by simp
  also have "\<dots> = process_buffer (?s\<lparr>sent := sent ?s @ map (reply_of (fake_value ?s)) qs,
      request_count := request_count ?s + int (length qs)\<rparr>) []"
    using assms by (intro process_buffer_reads) (simp_all add: rd serving_def)
  finally show ?thesis by (simp add: process_buffer_Nil)
qed

theorem slave_drops_then_serves_witness:
  "process_buffer (init_slave 7 [] 1\<lparr>has_sock := True\<rparr>) (request_of (1, 3, 0, 1) @ request_of (1, 4, 5, 2)) =
    (init_slave 7 [] 0\<lparr>has_sock := True, request_count := 2, sent := [reply_of 7 (1, 4, 5, 2)]\<rparr>, Inr [])"
  using slave_drops_then_serves [of "init_slave 7 [] 1\<lparr>has_sock := True\<rparr>" "[(1, 3, 0, 1)]" "[(1, 4, 5, 2)]"]
  by (simp add: init_slave_def serving_def del: request_of.simps reply_of.simps)

text \<open>C39: the limit of the simulation. A CRC-valid FC03 or FC04 request for 128 or more registers
  makes the reply builder raise \<open>ValueError\<close> (its byte count does not fit one byte), and
  since the receive loop catches only \<open>OSError\<close> the slave thread ends there.\<close>

theorem slave_dies_on_oversized_read:
  assumes "0 \<le> i" "i \<le> 255" "fc \<in> {3, 4}" "map_of (exception_fc s) fc = None" "0 \<le> a" "a \<le> 65535"
    and "128 \<le> n" "n \<le> 65535" and "serving s" "drop_count s \<le> 0" "\<not> stop_event s"
  shows "\<exists>s' buf. rtu_run s True [Recv (framed (read_pdu fc i a n))] = (s', buf, Died ValueError)"
proof -
  let ?s = "s\<lparr>has_sock := True, connected := True\<rparr>" and ?buf = "framed (read_pdu fc i a n)"
  have fc: "0 \<le> fc" "fc \<le> 255" "fc \<noteq> 16" using assms(3) by auto
  have n0: "0 \<le> n" using assms(7) by simp
  note f = read_frame_fields [OF assms(5,6) n0 assms(8) assms(1,2) fc(1,2) refl, of "[]", simplified]
  have "pack_Hs (replicate (nat n) (fake_value s)) = Inr (be_bytes (replicate (nat n) (fake_value s)))"
    using assms(9) by (intro pack_Hs_be_bytes) (simp add: list_all_iff serving_def)
  then have "build_response ?s i fc a n = Inl ValueError"
    using assms(3,4,7) by (auto simp: build_response_def py_bytes_def is_byte_def)
  moreover have "note_write ?s ?buf = ?s" using f fc by (simp add: note_write_def)
  moreover have "frame_need ?buf = Some 8" using f fc by (simp add: frame_need_def)
  ultimately have "rtu_iter ?s ?buf = Raise ?s ValueError"
    using f assms(10) by (simp add: rtu_iter_alt rtu_answer_def)
  then have "process_buffer ?s ?buf = (?s, Inl ValueError)" by (subst process_buffer.simps) simp
  moreover have "?buf \<noteq> []" using f(5) by auto
  ultimately show ?thesis
    using assms(11) by (simp add: rtu_run_def rtu_loop.simps [of ?s "[]"] is_OSError_def)
qed

theorem slave_dies_on_oversized_read_witness:
  "\<exists>s' buf. rtu_run (init_slave 7 [] 0\<lparr>has_sock := True\<rparr>) True [Recv (framed (read_pdu 3 1 0 200))] =
     (s', buf, Died ValueError)"
  by (rule slave_dies_on_oversized_read) (simp_all add: init_slave_def serving_def)

end
