(* ===== verification/Py_Text.thy ===== *)
theory Py_Text
  imports Py_Prelude
begin

text \<open>
  The string operations the sources use, over ASCII text: \<open>str.isspace\<close>, \<open>strip\<close>,
  \<open>split\<close>, \<open>isdigit\<close>, \<open>startswith\<close>, \<open>join\<close>, \<open>int(text)\<close> and
  \<open>str(int)\<close>, with the round trip between the last two. Digits and white space outside
  ASCII, which Python also accepts, are not modelled.
\<close>

definition is_space :: "char \<Rightarrow> bool" where
  "is_space c \<longleftrightarrow> (let k = of_char c :: nat in (9 \<le> k \<and> k \<le> 13) \<or> (28 \<le> k \<and> k \<le> 32))"

definition is_digit :: "char \<Rightarrow> bool" where
  "is_digit c \<longleftrightarrow> (let k = of_char c :: nat in 48 \<le> k \<and> k \<le> 57)"

definition is_letter :: "char \<Rightarrow> bool" where
  "is_letter c \<longleftrightarrow> (let k = of_char c :: nat in (65 \<le> k \<and> k \<le> 90) \<or> (97 \<le> k \<and> k \<le> 122))"

definition digit_value :: "char \<Rightarrow> int" where
  "digit_value c = of_char c - 48"

definition digit_char :: "nat \<Rightarrow> char" where
  "digit_char n = char_of (48 + n)"

definition py_lstrip :: "string \<Rightarrow> string" where
  "py_lstrip s = dropWhile is_space s"

definition py_rstrip :: "string \<Rightarrow> string" where
  "py_rstrip s = rev (dropWhile is_space (rev s))"

definition py_strip :: "string \<Rightarrow> string" where
  "py_strip s = py_rstrip (py_lstrip s)"

text \<open>\<open>str.isdigit()\<close>: not empty and all digits.\<close>

definition py_isdigit :: "string \<Rightarrow> bool" where
  "py_isdigit s \<longleftrightarrow> s \<noteq> [] \<and> list_all is_digit s"

definition py_startswith :: "string \<Rightarrow> string \<Rightarrow> bool" where
  "py_startswith s p \<longleftrightarrow> take (length p) s = p"

text \<open>\<open>s.split(sep)\<close> for a one-character separator, and \<open>s.split()\<close>.\<close>

fun py_split :: "char \<Rightarrow> string \<Rightarrow> string list" where
  "py_split sep [] = [[]]"
| "py_split sep (c # s) =
     (if c = sep then [] # py_split sep s
      else (case py_split sep s of [] \<Rightarrow> [[c]] | w # ws \<Rightarrow> (c # w) # ws))"

fun py_words_from :: "string \<Rightarrow> string \<Rightarrow> string list" where
  "py_words_from w [] = (if w = [] then [] else [w])"
| "py_words_from w (c # s) =
     (if is_space c then (if w = [] then py_words_from [] s else w # py_words_from [] s)
      else py_words_from (w @ [c]) s)"

definition py_words :: "string \<Rightarrow> string list" where
  "py_words s = py_words_from [] s"

fun py_join :: "string \<Rightarrow> string list \<Rightarrow> string" where
  "py_join sep [] = []"
| "py_join sep [w] = w"
| "py_join sep (w # ws) = w @ sep @ py_join sep ws"

text \<open>\<open>sub in s\<close>.\<close>

fun py_in :: "string \<Rightarrow> string \<Rightarrow> bool" where
  "py_in sub [] \<longleftrightarrow> sub = []"
| "py_in sub (c # s) \<longleftrightarrow> py_startswith (c # s) sub \<or> py_in sub s"

text \<open>\<open>int(text)\<close> in base ten: surrounding white space, one sign, digits with single
  underscores between them; \<open>None\<close> stands for the \<open>ValueError\<close>.\<close>

fun digits_us :: "int \<Rightarrow> bool \<Rightarrow> string \<Rightarrow> int option" where
  "digits_us acc after_digit [] = (if after_digit then Some acc else None)"
| "digits_us acc after_digit (c # s) =
     (if is_digit c then digits_us (10 * acc + digit_value c) True s
      else if c = CHR ''_'' \<and> after_digit then digits_us acc False s
      else None)"

definition py_int :: "string \<Rightarrow> int option" where
  "py_int s =
     (case py_strip s of
        [] \<Rightarrow> None
      | c # t \<Rightarrow>
          if c = CHR ''-'' then map_option uminus (digits_us 0 False t)
          else if c = CHR ''+'' then digits_us 0 False t
          else digits_us 0 False (c # t))"

definition py_int_res :: "string \<Rightarrow> int res" where
  "py_int_res s = (case py_int s of None \<Rightarrow> Inl ValueError | Some v \<Rightarrow> Inr v)"

fun str_nat :: "nat \<Rightarrow> string" where
  "str_nat n = (if n < 10 then [digit_char n] else str_nat (n div 10) @ [digit_char (n mod 10)])"

declare str_nat.simps [simp del]

definition py_str :: "int \<Rightarrow> string" where
  "py_str v = (if v < 0 then CHR ''-'' # str_nat (nat (- v)) else str_nat (nat v))"

section \<open>Lemmas\<close>

lemma of_digit_char: "n < 10 \<Longrightarrow> of_char (digit_char n) = (48 + n :: nat)"
  by (simp add: digit_char_def)

lemma digit_char_facts [simp]:
  assumes "n < 10"
  shows "is_digit (digit_char n)" "digit_value (digit_char n) = int n" "\<not> is_space (digit_char n)"
proof -
  have "of_char (digit_char n) = (48 + int n)"
    using arg_cong [OF of_digit_char [OF assms], of int] by (simp add: of_nat_of_char)
  then show "digit_value (digit_char n) = int n" by (simp add: digit_value_def)
  show "is_digit (digit_char n)" "\<not> is_space (digit_char n)"
    using of_digit_char [OF assms] assms by (simp_all add: is_digit_def is_space_def)
qed

lemma digit_not_space: "is_digit c \<Longrightarrow> \<not> is_space c"
  by (auto simp: is_digit_def is_space_def Let_def)

lemma digit_neq: "is_digit c \<Longrightarrow> c \<noteq> CHR ''-'' \<and> c \<noteq> CHR ''+'' \<and> c \<noteq> CHR '','' \<and> c \<noteq> CHR ''_''"
  by (auto simp: is_digit_def)

lemma py_strip_id: "list_all (\<lambda>c. \<not> is_space c) s \<Longrightarrow> py_strip s = s"
proof -
  have d: "dropWhile is_space t = t" if "list_all (\<lambda>c. \<not> is_space c) t" for t
    using that by (cases t) auto
  assume "list_all (\<lambda>c. \<not> is_space c) s"
  then show ?thesis by (simp add: py_strip_def py_rstrip_def py_lstrip_def d list_all_rev)
qed

lemma digits_us_digits:
  "list_all is_digit s \<Longrightarrow> digits_us acc b s =
     (if s = [] \<and> \<not> b then None else Some (foldl (\<lambda>a c. 10 * a + digit_value c) acc s))"
  by (induction s arbitrary: acc b) auto

lemma str_nat_digits: "list_all is_digit (str_nat n) \<and> str_nat n \<noteq> []"
proof (induction n rule: str_nat.induct)
  case (1 n)
  show ?case
  proof (cases "n < 10")
    case True
    then show ?thesis by (simp add: str_nat.simps [of n])
  next
    case False
    with 1 have "list_all is_digit (str_nat (n div 10)) \<and> str_nat (n div 10) \<noteq> []" by blast
    moreover have "n mod 10 < 10" by simp
    ultimately show ?thesis using False by (simp add: str_nat.simps [of n])
  qed
qed

lemma str_nat_value: "foldl (\<lambda>a c. 10 * a + digit_value c) 0 (str_nat n) = int n"
proof (induction n rule: str_nat.induct)
  case (1 n)
  show ?case
  proof (cases "n < 10")
    case True
    then show ?thesis by (simp add: str_nat.simps [of n])
  next
    case False
    have "n mod 10 < 10" by simp
    with 1 False show ?thesis by (subst str_nat.simps) (simp add: of_nat_mod of_nat_div)
  qed
qed

lemma py_str_no_space: "list_all (\<lambda>c. \<not> is_space c) (py_str v)"
proof -
  have "list_all (\<lambda>c. \<not> is_space c) (str_nat n)" for n
    using str_nat_digits [of n] by (auto simp: list_all_iff digit_not_space)
  then show ?thesis by (simp add: py_str_def is_space_def)
qed

lemma py_int_py_str [simp]: "py_int (py_str v) = Some v"
proof -
  have u: "digits_us 0 False (str_nat n) = Some (int n)" for n
    using str_nat_digits [of n] by (simp add: digits_us_digits str_nat_value)
  obtain c t where ct: "str_nat (nat v) = c # t" "is_digit c"
    using str_nat_digits [of "nat v"] by (cases "str_nat (nat v)") auto
  show ?thesis
  proof (cases "v < 0")
    case True
    then show ?thesis
      by (simp add: py_int_def py_strip_id [OF py_str_no_space]) (simp add: py_str_def u)
  next
    case False
    then have "py_str v = c # t" using ct by (simp add: py_str_def)
    moreover from this have "py_strip (c # t) = c # t" using py_strip_id [OF py_str_no_space, of v] by simp
    ultimately show ?thesis using u [of "nat v"] ct digit_neq [OF ct(2)] False
      by (simp add: py_int_def)
  qed
qed

lemma py_split_no_sep: "sep \<notin> set s \<Longrightarrow> py_split sep s = [s]"
  by (induction s) auto

lemma py_split_ne [simp]: "py_split sep s \<noteq> []"
  by (induction s) (auto split: list.splits)

lemma py_split_append: "sep \<notin> set w \<Longrightarrow> py_split sep (w @ sep # s) = w # py_split sep s"
  by (induction w) auto

end
