(* ===== verification/Deadline_Loop.thy ===== *)
theory Deadline_Loop
  imports Py_Prelude
begin

text \<open>
  The polling loop that recurs through the sources,

    \<^verbatim>\<open>while time.monotonic() < deadline: ...\<close>

  as one combinator. A pass consumes one clock reading together with whatever the
  environment contributes to that pass. The loop can leave because its own condition turned
  false, because the body broke out, returned or raised, or because the deadline passed;
  running out of passes is the value \<open>None\<close>: the loop has not left yet.
\<close>

datatype ('s, 'r) flow = Next 's | Stop 'r

datatype ('s, 'r) outcome = Done 's | Stopped 'r | Expired 's

fun deadline_loop ::
  "('s \<Rightarrow> bool) \<Rightarrow> time \<Rightarrow> ('p \<Rightarrow> 's \<Rightarrow> ('s, 'r) flow) \<Rightarrow> (time \<times> 'p) list \<Rightarrow> 's
   \<Rightarrow> (('s, 'r) outcome \<times> (time \<times> 'p) list) option" where
  "deadline_loop go d body ps s =
     (if go s then
        (case ps of
           [] \<Rightarrow> None
         | (now, p) # rest \<Rightarrow>
             if now < d then
               (case body p s of
                  Next s' \<Rightarrow> deadline_loop go d body rest s'
                | Stop r \<Rightarrow> Some (Stopped r, rest))
             else Some (Expired s, rest))
      else Some (Done s, ps))"

declare deadline_loop.simps [simp del]

named_theorems loop_simps \<open>one pass of a deadline loop\<close>

lemma deadline_loop_pass [loop_simps]:
  "\<not> go s \<Longrightarrow> deadline_loop go d body ps s = Some (Done s, ps)"
  "go s \<Longrightarrow> deadline_loop go d body [] s = None"
  "go s \<Longrightarrow> d \<le> now \<Longrightarrow> deadline_loop go d body ((now, p) # ps) s = Some (Expired s, ps)"
  "go s \<Longrightarrow> now < d \<Longrightarrow> deadline_loop go d body ((now, p) # ps) s =
     (case body p s of Next s' \<Rightarrow> deadline_loop go d body ps s' | Stop r \<Rightarrow> Some (Stopped r, ps))"
  by (simp_all add: deadline_loop.simps [of go d body _ s])

section \<open>Leaving the loop\<close>

text \<open>A clock that reaches the deadline ends the loop, whatever its body does.\<close>

lemma deadline_loop_returns:
  assumes "(t, p) \<in> set ps" and "d \<le> t"
  shows "\<exists>out rest. deadline_loop go d body ps s = Some (out, rest)"
  using assms
proof (induction ps arbitrary: s)
  case (Cons q ps)
  obtain now x where q: "q = (now, x)" by (cases q)
  show ?case
  proof (cases "go s \<and> now < d")
    case True
    then have "(t, p) \<in> set ps" using Cons.prems q by auto
    then show ?thesis using Cons.IH Cons.prems(2) True q
      by (auto simp: loop_simps split: flow.split)
  next
    case False
    then show ?thesis using q by (cases "go s") (auto simp: loop_simps)
  qed
qed simp

text \<open>A loop that leaves by its own condition has not read the clock past its deadline.\<close>

lemma deadline_loop_done_rest:
  assumes "deadline_loop go d body ps s = Some (Done s', rest)" and "(t, p) \<in> set ps" and "d \<le> t"
  shows "(t, p) \<in> set rest"
  using assms
proof (induction ps arbitrary: s)
  case (Cons q ps)
  obtain now x where q: "q = (now, x)" by (cases q)
  show ?case
  proof (cases "go s \<and> now < d")
    case True
    then show ?thesis using Cons q by (cases "body x s") (auto simp: loop_simps)
  next
    case False
    then show ?thesis using Cons.prems q by (cases "go s") (auto simp: loop_simps)
  qed
qed simp

lemma deadline_loop_done_guard: "deadline_loop go d body ps s = Some (Done s', rest) \<Longrightarrow> \<not> go s'"
proof (induction ps arbitrary: s)
  case Nil
  then show ?case by (cases "go s") (auto simp: loop_simps)
next
  case (Cons q ps)
  obtain now x where q: "q = (now, x)" by (cases q)
  show ?case
    using Cons q by (cases "go s"; cases "now < d"; cases "body x s") (auto simp: loop_simps)
qed

lemma deadline_loop_rest:
  "deadline_loop go d body ps s = Some (out, rest) \<Longrightarrow> \<exists>used. ps = used @ rest"
proof (induction ps arbitrary: s)
  case Nil
  then show ?case by (cases "go s") (auto simp: loop_simps)
next
  case (Cons q ps)
  obtain now x where q: "q = (now, x)" by (cases q)
  show ?case
  proof (cases "\<exists>s'. go s \<and> now < d \<and> body x s = Next s'")
    case True
    then obtain s' where "deadline_loop go d body ps s' = Some (out, rest)"
      using Cons.prems q by (auto simp: loop_simps)
    then show ?thesis using Cons.IH q by (metis append_Cons)
  next
    case False
    then show ?thesis using Cons.prems q
      by (cases "go s"; cases "now < d"; cases "body x s") (auto simp: loop_simps)
  qed
qed

text \<open>Passes whose clock readings are spaced by at least \<open>\<delta>\<close>.\<close>

fun spaced :: "time \<Rightarrow> (time \<times> 'p) list \<Rightarrow> bool" where
  "spaced \<delta> ((t, p) # (u, q) # ps) \<longleftrightarrow> t + \<delta> \<le> u \<and> spaced \<delta> ((u, q) # ps)"
| "spaced \<delta> ps \<longleftrightarrow> True"

lemma spaced_last:
  "spaced \<delta> ((t, p) # ps) \<Longrightarrow> \<exists>u q. last ((t, p) # ps) = (u, q) \<and> t + of_nat (length ps) * \<delta> \<le> u"
proof (induction ps arbitrary: t p)
  case (Cons x ps)
  obtain u q where x: "x = (u, q)" by (cases x)
  from Cons.prems x have "t + \<delta> \<le> u" and "spaced \<delta> ((u, q) # ps)" by auto
  moreover from Cons.IH [OF this(2)] obtain v r where
    "last ((u, q) # ps) = (v, r)" "u + of_nat (length ps) * \<delta> \<le> v" by blast
  ultimately show ?case using x by (auto simp: algebra_simps)
qed auto

text \<open>Hence a loop whose passes take at least \<open>\<delta>\<close> each leaves within its budget.\<close>

lemma deadline_loop_bounded:
  assumes "spaced \<delta> ps" and "ps \<noteq> []" and "d \<le> fst (hd ps) + of_nat (length ps - 1) * \<delta>"
  shows "\<exists>out rest. deadline_loop go d body ps s = Some (out, rest)"
proof -
  obtain t p qs where ps: "ps = (t, p) # qs" using assms(2) by (cases ps) auto
  then obtain u q where "last ps = (u, q)" "t + of_nat (length qs) * \<delta> \<le> u"
    using spaced_last [of \<delta> t p qs] assms(1) by auto
  then have "(u, q) \<in> set ps" "d \<le> u" using assms ps last_in_set [of ps] by auto
  then show ?thesis by (rule deadline_loop_returns)
qed

text \<open>A loop that only the deadline or its body ends: the passes that go on, then the one that leaves.\<close>

fun passes_go :: "time \<Rightarrow> ('p \<Rightarrow> 's \<Rightarrow> ('s, 'r) flow) \<Rightarrow> (time \<times> 'p) list \<Rightarrow> 's \<Rightarrow> 's option" where
  "passes_go d body [] s = Some s"
| "passes_go d body ((now, p) # ps) s =
     (if now < d then (case body p s of Next s' \<Rightarrow> passes_go d body ps s' | Stop _ \<Rightarrow> None) else None)"

lemma deadline_loop_decompose:
  assumes "(t, p) \<in> set ps" and "d \<le> t"
  shows "\<exists>pre now q rest s'. ps = pre @ (now, q) # rest \<and> passes_go d body pre s = Some s' \<and>
     (d \<le> now \<and> deadline_loop (\<lambda>_. True) d body ps s = Some (Expired s', rest) \<or>
      now < d \<and> (\<exists>r. body q s' = Stop r \<and> deadline_loop (\<lambda>_. True) d body ps s = Some (Stopped r, rest)))"
  using assms
proof (induction ps arbitrary: s)
  case (Cons x ps)
  obtain now q where x: "x = (now, q)" by (cases x)
  show ?case
  proof (cases "\<exists>s1. now < d \<and> body q s = Next s1")
    case True
    then obtain s1 where s1: "now < d" "body q s = Next s1" by blast
    then have "(t, p) \<in> set ps" using Cons.prems x by auto
    from Cons.IH [OF this Cons.prems(2), of s1] obtain pre now' q' rest s' where
      "ps = pre @ (now', q') # rest" "passes_go d body pre s1 = Some s'"
      "d \<le> now' \<and> deadline_loop (\<lambda>_. True) d body ps s1 = Some (Expired s', rest) \<or>
       now' < d \<and> (\<exists>r. body q' s' = Stop r \<and> deadline_loop (\<lambda>_. True) d body ps s1 = Some (Stopped r, rest))"
      by blast
    then show ?thesis using s1 x by (intro exI [of _ "x # pre"]) (auto simp: loop_simps)
  next
    case False
    show ?thesis
    proof (cases "now < d")
      case True
      then obtain r where "body q s = Stop r" using False by (cases "body q s") auto
      then show ?thesis using True x by (intro exI [of _ "[]"]) (auto simp: loop_simps)
    next
      case False
      then show ?thesis using x by (intro exI [of _ "[]"]) (auto simp: loop_simps)
    qed
  qed
qed simp

section \<open>Invariants of a polling body\<close>

locale polling =
  fixes go :: "'s \<Rightarrow> bool" and body :: "'p \<Rightarrow> 's \<Rightarrow> ('s, 'r) flow"
    and ok :: "'p \<Rightarrow> bool" and inv :: "'s \<Rightarrow> bool" and post :: "'r \<Rightarrow> bool"
  assumes next_inv: "inv s \<Longrightarrow> go s \<Longrightarrow> ok p \<Longrightarrow> body p s = Next s' \<Longrightarrow> inv s'"
    and stop_post: "inv s \<Longrightarrow> go s \<Longrightarrow> ok p \<Longrightarrow> body p s = Stop r \<Longrightarrow> post r"
begin

lemma loop_inv:
  assumes "inv s" and "list_all (ok \<circ> snd) ps" and "deadline_loop go d body ps s = Some (out, rest)"
  shows "case out of Done s' \<Rightarrow> inv s' \<and> \<not> go s' | Stopped r \<Rightarrow> post r | Expired s' \<Rightarrow> inv s' \<and> go s'"
  using assms
proof (induction ps arbitrary: s)
  case Nil
  then show ?case by (cases "go s") (auto simp: loop_simps)
next
  case (Cons q ps)
  obtain now p where q: "q = (now, p)" by (cases q)
  show ?case
  proof (cases "go s \<and> now < d")
    case True
    show ?thesis
    proof (cases "body p s")
      case (Next s')
      with True Cons q have "inv s'" by (auto intro: next_inv)
      with Next True Cons q show ?thesis by (auto simp: loop_simps)
    next
      case (Stop r)
      with True Cons q have "post r" by (auto intro: stop_post)
      with Stop True Cons q show ?thesis by (auto simp: loop_simps)
    qed
  next
    case False
    with Cons q show ?thesis by (cases "go s") (auto simp: loop_simps)
  qed
qed

end

end
