(* ===== verification/Modbus_Tcp.thy ===== *)
theory Modbus_Tcp
  imports Deadline_Loop
begin

text \<open>
  The Modbus TCP client side of \<open>api_tests/modbus_helpers.py\<close>: the MBAP request builder, the
  exact and the deadline-bounded receive loops, the payload decoders, the register pass with
  its per-thread result, the worker thread, the CSV register map, the one-shot query and the
  staleness test.
  A socket is the list of receive outcomes still to come and the list of frames written; a
  loop against the clock takes one clock reading per pass.
\<close>

section \<open>Constants and the request builder\<close>

definition TYPE_TO_FC :: "string \<rightharpoonup> int" where
  "TYPE_TO_FC = map_of [(''holding'', 0x03), (''input'', 0x04), (''coil'', 0x01), (''discrete'', 0x02)]"

definition MBAP_HEADER_SIZE :: nat where "MBAP_HEADER_SIZE = 7"
definition MIN_RESPONSE_SIZE :: nat where "MIN_RESPONSE_SIZE = 8"
definition MAX_TID :: int where "MAX_TID = 65535"
definition RECV_BUFFER :: nat where "RECV_BUFFER = 4096"

definition make_mbap_request :: "int \<Rightarrow> int \<Rightarrow> int \<Rightarrow> int \<Rightarrow> int \<Rightarrow> bytes res" where
  "make_mbap_request tid slave_id fc start_addr cnt =
     rbind (rbind (pack_B fc) (\<lambda>b0. rbind (pack_H start_addr) (\<lambda>b1. rbind (pack_H cnt) (\<lambda>b2.
       Inr (b0 @ b1 @ b2))))) (\<lambda>pdu.
     rbind (rbind (pack_H tid) (\<lambda>h0. rbind (pack_H 0) (\<lambda>h1. rbind (pack_H (int (length pdu) + 1)) (\<lambda>h2.
       rbind (pack_B slave_id) (\<lambda>h3. Inr (h0 @ h1 @ h2 @ h3)))))) (\<lambda>mbap.
     Inr (mbap @ pdu)))"

section \<open>Sockets\<close>

text \<open>What a \<open>recv\<close> can meet: queued data, or an exception such as the socket timeout. The
  end of the list is the peer's orderly close.\<close>

datatype rx = Data bytes | Fail exn

fun sock_recv :: "nat \<Rightarrow> rx list \<Rightarrow> bytes res \<times> rx list" where
  "sock_recv n [] = (Inr [], [])"
| "sock_recv n (Fail e # q) = (Inl e, q)"
| "sock_recv n (Data seg # q) = (Inr (take n seg), if length seg \<le> n then q else Data (drop n seg) # q)"

text \<open>\<open>recv_exactly\<close>, over any source of received bytes.\<close>

function recv_exactly_from ::
  "(nat \<Rightarrow> 'w \<Rightarrow> bytes res \<times> 'w) \<Rightarrow> nat \<Rightarrow> bytes \<Rightarrow> 'w \<Rightarrow> bytes res \<times> 'w" where
  "recv_exactly_from recv n buf w =
     (if length buf < n then
        (case recv (n - length buf) w of
           (Inl e, w') \<Rightarrow> (Inl e, w')
         | (Inr chunk, w') \<Rightarrow>
             if chunk = [] then (Inl ConnectionError, w')
             else recv_exactly_from recv n (buf @ chunk) w')
      else (Inr buf, w))"
  by pat_completeness auto
termination
  by (relation "measure (\<lambda>(recv, n, buf, w). n - length buf)") (auto intro!: diff_less_mono2)

declare recv_exactly_from.simps [simp del]

record tsock =
  rxq :: "rx list"
  txd :: "bytes list"
  tx_oracle :: "exn option list"

definition recv_exactly :: "tsock \<Rightarrow> nat \<Rightarrow> bytes res \<times> tsock" where
  "recv_exactly sock n =
     (case recv_exactly_from sock_recv n [] (rxq sock) of (r, q) \<Rightarrow> (r, sock\<lparr>rxq := q\<rparr>))"

definition sock_sendall :: "tsock \<Rightarrow> bytes \<Rightarrow> unit res \<times> tsock" where
  "sock_sendall sock data =
     (case tx_oracle sock of
        [] \<Rightarrow> (Inr (), sock\<lparr>txd := txd sock @ [data]\<rparr>)
      | None # rest \<Rightarrow> (Inr (), sock\<lparr>txd := txd sock @ [data], tx_oracle := rest\<rparr>)
      | Some e # rest \<Rightarrow> (Inl e, sock\<lparr>tx_oracle := rest\<rparr>))"

definition send_and_receive :: "tsock \<Rightarrow> bytes \<Rightarrow> (int \<times> int \<times> int \<times> bytes) res \<times> tsock" where
  "send_and_receive sock request =
     (case sock_sendall sock request of
        (Inl e, sock) \<Rightarrow> (Inl e, sock)
      | (Inr _, sock) \<Rightarrow>
          (case recv_exactly sock MIN_RESPONSE_SIZE of
             (Inl e, sock) \<Rightarrow> (Inl e, sock)
           | (Inr header, sock) \<Rightarrow>
               (let tid = unpack_H (header ! 0) (header ! 1);
                    len = unpack_H (header ! 4) (header ! 5);
                    unit_id = uint (header ! 6);
                    fc = uint (header ! 7);
                    remaining = len - 2
                in if remaining > 0 then
                     (case recv_exactly sock (nat remaining) of
                        (Inl e, sock) \<Rightarrow> (Inl e, sock)
                      | (Inr payload, sock) \<Rightarrow> (Inr (tid, unit_id, fc, payload), sock))
                   else (Inr (tid, unit_id, fc, []), sock))))"

section \<open>The deadline-bounded receive\<close>

text \<open>What \<open>sock.recv(256)\<close> gives in one pass; the empty chunk is end of file.\<close>

datatype recv256 = Chunk bytes | SockTimeout | SockFail exn

fun header_pass :: "recv256 \<Rightarrow> bytes \<Rightarrow> (bytes, exn) flow" where
  "header_pass SockTimeout response = Next response"
| "header_pass (SockFail e) response = Stop e"
| "header_pass (Chunk c) response =
     (if c = [] then Stop ConnectionError else Next (response @ c))"

fun pdu_pass :: "recv256 \<Rightarrow> bytes \<Rightarrow> (bytes, bytes res) flow" where
  "pdu_pass SockTimeout response = Next response"
| "pdu_pass (SockFail e) response = Stop (Inl e)"
| "pdu_pass (Chunk c) response =
     (if c = [] then Stop (Inr response) else Next (response @ c))"

definition recv_pdu ::
  "time \<Rightarrow> bytes \<Rightarrow> (time \<times> recv256) list \<Rightarrow> (bytes res \<times> (time \<times> recv256) list) option" where
  "recv_pdu deadline response ps =
     (let resp_length = unpack_H (response ! 4) (response ! 5);
          total_expected = 6 + resp_length
      in case deadline_loop (\<lambda>r. int (length r) < total_expected) deadline pdu_pass ps response of
           None \<Rightarrow> None
         | Some (Stopped r, rest) \<Rightarrow> Some (r, rest)
         | Some (Expired _, rest) \<Rightarrow> Some (Inl TimeoutError, rest)
         | Some (Done r, rest) \<Rightarrow> Some (Inr r, rest))"

definition recv_modbus_tcp_response ::
  "time \<Rightarrow> (time \<times> recv256) list \<Rightarrow> (bytes res \<times> (time \<times> recv256) list) option" where
  "recv_modbus_tcp_response deadline ps =
     (case deadline_loop (\<lambda>r. length r < 6) deadline header_pass ps [] of
        None \<Rightarrow> None
      | Some (Stopped e, rest) \<Rightarrow> Some (Inl e, rest)
      | Some (Expired _, rest) \<Rightarrow> Some (Inl TimeoutError, rest)
      | Some (Done response, rest) \<Rightarrow> recv_pdu deadline response rest)"

section \<open>Decoders\<close>

definition decode_fc03_fc04 :: "bytes \<Rightarrow> int \<Rightarrow> int list res" where
  "decode_fc03_fc04 payload cnt =
     (if length payload < 1 then Inl ValueError
      else
        (let byte_count = unat (payload ! 0) in
         if length payload < 1 + byte_count then Inl ValueError
         else Inr (map (\<lambda>i. unpack_H (payload ! (1 + i * 2)) (payload ! (1 + i * 2 + 1)))
                       [0..<byte_count div 2])))"

definition decode_fc01_fc02 :: "bytes \<Rightarrow> int \<Rightarrow> int list res" where
  "decode_fc01_fc02 payload cnt =
     (if length payload < 1 then Inl ValueError
      else
        (let byte_count = unat (payload ! 0) in
         if length payload < 1 + byte_count then Inl ValueError
         else
           (let bits = concat (map (\<lambda>byte_idx.
                          map (\<lambda>bit_idx. drop_bit bit_idx (uint (payload ! (1 + byte_idx))) AND 1) [0..<8])
                        [0..<byte_count])
            in Inr (py_upto cnt bits))))"

definition decode_response :: "int \<Rightarrow> bytes \<Rightarrow> int \<Rightarrow> int list res" where
  "decode_response fc payload cnt =
     (if fc \<in> {0x03, 0x04} then decode_fc03_fc04 payload cnt
      else if fc \<in> {0x01, 0x02} then decode_fc01_fc02 payload cnt
      else Inl ValueError)"

section \<open>The register pass\<close>

type_synonym reg_key = "int \<times> string \<times> int"
type_synonym register_map = "(reg_key \<times> (int \<times> int)) list"

text \<open>The error messages of a pass, by what they report.\<close>

datatype reg_error =
    SocketErr exn
  | TidMismatch int int
  | ExcNotInCache
  | ExcCode int
  | DecodeErr
  | EmptyDecode

record thread_result =
  thread_id :: int
  connected_at :: time
  errors :: "(reg_key \<times> reg_error) list"
  checks_passed :: int
  checks_failed :: int
  iterations :: int
  exc :: "exn option"

definition new_result :: "int \<Rightarrow> thread_result" where
  "new_result thread_no = \<lparr>thread_id = thread_no, connected_at = 0, errors = [], checks_passed = 0,
                     checks_failed = 0, iterations = 0, exc = None\<rparr>"

definition add_error :: "(reg_key \<times> reg_error) \<Rightarrow> thread_result \<Rightarrow> thread_result" where
  "add_error msg r = r\<lparr>errors := errors r @ [msg], checks_failed := checks_failed r + 1\<rparr>"

definition add_pass :: "thread_result \<Rightarrow> thread_result" where
  "add_pass r = r\<lparr>checks_passed := checks_passed r + 1\<rparr>"

text \<open>The verdict on one answer: \<open>None\<close> is a pass.\<close>

definition judge_answer :: "int \<Rightarrow> int \<Rightarrow> int \<times> int \<times> int \<times> bytes \<Rightarrow> reg_error option" where
  "judge_answer tid fc answer =
     (case answer of (resp_tid, resp_unit_id, resp_fc, payload) \<Rightarrow>
        if resp_tid \<noteq> tid then Some (TidMismatch tid resp_tid)
        else if resp_fc AND 0x80 \<noteq> 0 then
          (let exception_code = (if payload \<noteq> [] then uint (payload ! 0) else -1)
           in Some (if exception_code = 0x02 then ExcNotInCache else ExcCode exception_code))
        else
          (case decode_response fc payload 1 of
             Inl e \<Rightarrow> Some DecodeErr
           | Inr decoded_values \<Rightarrow> if decoded_values = [] then Some EmptyDecode else None))"

fun run_register_pass ::
  "register_map \<Rightarrow> tsock \<Rightarrow> thread_result \<Rightarrow> int \<Rightarrow> int res \<times> tsock \<times> thread_result" where
  "run_register_pass [] sock r tid = (Inr tid, sock, r)"
| "run_register_pass (((slave_id, reg_type, address), _) # items) sock r tid =
     (case TYPE_TO_FC reg_type of
        None \<Rightarrow> (Inl KeyError, sock, r)
      | Some fc \<Rightarrow>
          (let tid = tid mod (MAX_TID + 1) in
           case make_mbap_request tid slave_id fc address 1 of
             Inl e \<Rightarrow> (Inl e, sock, r)
           | Inr request \<Rightarrow>
               (case send_and_receive sock request of
                  (Inl e, sock) \<Rightarrow>
                    if is_Exception e
                    then run_register_pass items sock
                           (add_error ((slave_id, reg_type, address), SocketErr e) r) (tid + 1)
                    else (Inl e, sock, r)
                | (Inr answer, sock) \<Rightarrow>
                    (case judge_answer tid fc answer of
                       Some err \<Rightarrow> run_register_pass items sock
                                     (add_error ((slave_id, reg_type, address), err) r) (tid + 1)
                     | None \<Rightarrow> run_register_pass items sock (add_pass r) (tid + 1)))))"

section \<open>The worker thread\<close>

text \<open>What a worker meets outside its socket: the barrier, the connect and the clock.\<close>

record worker_env =
  barrier_wait :: "exn option"
  connect_outcome :: "exn option"
  connect_clock :: time
  loop_clock :: "time list"

fun worker_passes ::
  "register_map \<Rightarrow> time \<Rightarrow> time list \<Rightarrow> tsock \<Rightarrow> thread_result \<Rightarrow> int
   \<Rightarrow> (unit res \<times> tsock \<times> thread_result) option" where
  "worker_passes m deadline [] sock r tid = None"
| "worker_passes m deadline (now # clock) sock r tid =
     (if now < deadline then
        (case run_register_pass m sock r tid of
           (Inl e, sock, r) \<Rightarrow> Some (Inl e, sock, r)
         | (Inr tid, sock, r) \<Rightarrow>
             worker_passes m deadline clock sock (r\<lparr>iterations := iterations r + 1\<rparr>) tid)
      else Some (Inr (), sock, r))"

text \<open>The \<open>try\<close> block, and the handlers that turn its exception into a result.\<close>

definition worker_body ::
  "int \<Rightarrow> register_map \<Rightarrow> time \<Rightarrow> worker_env \<Rightarrow> tsock \<Rightarrow> thread_result
   \<Rightarrow> (unit res \<times> tsock \<times> thread_result) option" where
  "worker_body thread_no m duration env sock r =
     (case barrier_wait env of
        Some e \<Rightarrow> Some (Inl e, sock, r)
      | None \<Rightarrow>
          (case connect_outcome env of
             Some e \<Rightarrow> Some (Inl e, sock, r)
           | None \<Rightarrow>
               (let r = r\<lparr>connected_at := connect_clock env\<rparr>; tid = thread_no * 1000 in
                if duration > 0 then
                  worker_passes m (connected_at r + duration) (loop_clock env) sock r tid
                else
                  (case run_register_pass m sock r tid of
                     (Inl e, sock, r) \<Rightarrow> Some (Inl e, sock, r)
                   | (Inr tid, sock, r) \<Rightarrow> Some (Inr (), sock, r\<lparr>iterations := 1\<rparr>)))))"

definition worker ::
  "int \<Rightarrow> register_map \<Rightarrow> time \<Rightarrow> worker_env \<Rightarrow> tsock \<Rightarrow> (thread_result res \<times> tsock) option" where
  "worker thread_no m duration env sock =
     (case worker_body thread_no m duration env sock (new_result thread_no) of
        None \<Rightarrow> None
      | Some (Inr _, sock, r) \<Rightarrow> Some (Inr r, sock)
      | Some (Inl e, sock, r) \<Rightarrow>
          if e = BrokenBarrierError then Some (Inr (r\<lparr>exc := Some RuntimeError\<rparr>), sock)
          else if is_Exception e then Some (Inr (r\<lparr>exc := Some e\<rparr>), sock)
          else Some (Inl e, sock))"

text \<open>The verdict of \<open>check_simultaneous_connection\<close>, without its message.\<close>

definition check_simultaneous_connection :: "thread_result list \<Rightarrow> int \<Rightarrow> bool res" where
  "check_simultaneous_connection results num_threads =
     (let connect_times = [connected_at r. r \<leftarrow> results, connected_at r > 0] in
      if int (length connect_times) < num_threads then Inr False
      else if connect_times = [] then Inl ValueError
      else
        (let spread_ms = (fold max connect_times (hd connect_times)
                          - fold min connect_times (hd connect_times)) * 1000
         in if spread_ms > 2000 then Inr False else Inr True))"

section \<open>One-shot queries and the staleness test\<close>

text \<open>A fresh socket: whether \<open>connect\<close> raises, and the socket behind it.\<close>

type_synonym fresh = "exn option \<times> tsock"

datatype qres = QError | QException int | QOk int

definition query_register_once :: "fresh \<Rightarrow> reg_key \<Rightarrow> qres res" where
  "query_register_once fr key =
     (case key of (slave_id, reg_type, address) \<Rightarrow>
      case TYPE_TO_FC reg_type of
        None \<Rightarrow> Inl KeyError
      | Some fc \<Rightarrow>
          rbind (make_mbap_request 1 slave_id fc address 1) (\<lambda>request.
            case (case fr of (Some e, sock) \<Rightarrow> Inl e | (None, sock) \<Rightarrow> fst (send_and_receive sock request)) of
              Inl e \<Rightarrow> if is_Exception e then Inr QError else Inl e
            | Inr (_, _, resp_fc, payload) \<Rightarrow>
                if resp_fc AND 0x80 \<noteq> 0 then
                  Inr (QException (if payload \<noteq> [] then uint (payload ! 0) else -1))
                else
                  (case decode_response fc payload 1 of
                     Inl e \<Rightarrow> Inr QError
                   | Inr decoded \<Rightarrow> if decoded = [] then Inr QError else Inr (QOk (hd decoded)))))"

datatype report = RInfo | RWarn | RPass reg_key | RFail reg_key | RError

text \<open>The device as the staleness test meets it: the timeout in the settings it reads, the
  outcomes of its three settings writes (a status code or an exception), the clock and the
  sockets of the polling loop, and the sockets of the two rounds of checks.\<close>

record stale_env =
  get_timeout :: "int option res"
  post_stale :: "int res"
  post_off :: "int res"
  post_restore :: "int res"
  poll_start :: time
  polls :: "(time \<times> fresh) list"
  stale_socks :: "nat \<Rightarrow> fresh"
  live_socks :: "nat \<Rightarrow> fresh"

definition http_accepted :: "int res \<Rightarrow> unit res" where
  "http_accepted r = rbind r (\<lambda>status_code.
     if status_code \<notin> {200, 204} then Inl RuntimeError else Inr ())"

definition stale_probe :: "reg_key \<Rightarrow> fresh \<Rightarrow> unit \<Rightarrow> (unit, bool res) flow" where
  "stale_probe key fr st =
     (case query_register_once fr key of
        Inl e \<Rightarrow> Stop (Inl e)
      | Inr q \<Rightarrow> if q = QException 0x0B then Stop (Inr True) else Next ())"

text \<open>A round of checks, whose verdict starts from \<open>passed\<close>.\<close>

fun check_round ::
  "(qres \<Rightarrow> bool) \<Rightarrow> (nat \<Rightarrow> fresh) \<Rightarrow> nat \<Rightarrow> register_map \<Rightarrow> bool \<times> report list \<Rightarrow> (bool \<times> report list) res" where
  "check_round want socks i [] acc = Inr acc"
| "check_round want socks i ((key, _) # items) (passed, rep) =
     (case query_register_once (socks i) key of
        Inl e \<Rightarrow> Inl e
      | Inr q \<Rightarrow>
          if want q then check_round want socks (i + 1) items (passed, rep @ [RPass key])
          else check_round want socks (i + 1) items (False, rep @ [RFail key]))"

fun is_QOk :: "qres \<Rightarrow> bool" where
  "is_QOk (QOk _) \<longleftrightarrow> True"
| "is_QOk _ \<longleftrightarrow> False"

text \<open>The body of the \<open>try\<close>: its result and the timeouts it asked the device for.\<close>

definition staleness_checks ::
  "stale_env \<Rightarrow> register_map \<Rightarrow> report list \<Rightarrow> ((bool \<times> report list) res \<times> int list) option" where
  "staleness_checks env candidates rep =
     (case http_accepted (post_stale env) of
        Inl e \<Rightarrow> Some (Inl e, [1])
      | Inr _ \<Rightarrow>
          (let key = fst (hd candidates); rep = rep @ [RInfo] in
           case deadline_loop (\<lambda>_. True) (poll_start env + 8) (stale_probe key) (polls env) () of
             None \<Rightarrow> None
           | Some (Stopped (Inl e), _) \<Rightarrow> Some (Inl e, [1])
           | Some (out, _) \<Rightarrow>
               (let rep = (case out of Expired _ \<Rightarrow> rep @ [RWarn] | _ \<Rightarrow> rep) in
                case check_round (\<lambda>q. q = QException 0x0B) (stale_socks env) 0 candidates (True, rep) of
                  Inl e \<Rightarrow> Some (Inl e, [1])
                | Inr (passed, rep) \<Rightarrow>
                    (case http_accepted (post_off env) of
                       Inl e \<Rightarrow> Some (Inl e, [1, 0])
                     | Inr _ \<Rightarrow>
                         Some (check_round is_QOk (live_socks env) 0 candidates (passed, rep @ [RInfo]), [1, 0])))))"

definition run_staleness_test ::
  "stale_env \<Rightarrow> register_map \<Rightarrow> ((bool \<times> report list) res \<times> int list) option" where
  "run_staleness_test env register_map =
     (if register_map = [] then Some (Inr (False, [RError]), [])
      else
        (case get_timeout env of
           Inl e \<Rightarrow> Some (Inl e, [])
         | Inr t \<Rightarrow>
             (let original_timeout = (case t of None \<Rightarrow> 0 | Some v \<Rightarrow> v);
                  candidates = take 5 register_map
              in case staleness_checks env candidates [RInfo] of
                   None \<Rightarrow> None
                 | Some (r, posts) \<Rightarrow>
                     (let posts = posts @ [original_timeout] in
                      case http_accepted (post_restore env) of
                        Inr _ \<Rightarrow> Some (rbind r (\<lambda>(passed, rep). Inr (passed, rep @ [RInfo])), posts)
                      | Inl e \<Rightarrow>
                          if is_Exception e
                          then Some (rbind r (\<lambda>(passed, rep). Inr (False, rep @ [RError])), posts)
                          else Some (Inl e, posts)))))"

section \<open>Byte sources\<close>

text \<open>What \<open>recv_exactly\<close> relies on: a calm source hands out its byte stream in non-empty
  chunks no longer than asked for, and the empty chunk once the stream is used up.\<close>

locale byte_source =
  fixes recv :: "nat \<Rightarrow> 'w \<Rightarrow> bytes res \<times> 'w" and stream :: "'w \<Rightarrow> bytes" and calm :: "'w \<Rightarrow> bool"
  assumes recv_some: "calm w \<Longrightarrow> stream w \<noteq> [] \<Longrightarrow> 0 < n \<Longrightarrow>
      \<exists>c w'. recv n w = (Inr c, w') \<and> c \<noteq> [] \<and> length c \<le> n \<and> stream w = c @ stream w' \<and> calm w'"
    and recv_eof: "calm w \<Longrightarrow> stream w = [] \<Longrightarrow> \<exists>w'. recv n w = (Inr [], w')"
begin

lemma exactly_enough:
  assumes "calm w" and "n \<le> length buf + length (stream w)" and "length buf \<le> n"
  shows "\<exists>w'. recv_exactly_from recv n buf w = (Inr (buf @ take (n - length buf) (stream w)), w') \<and>
              stream w' = drop (n - length buf) (stream w) \<and> calm w'"
  using assms
proof (induction "n - length buf" arbitrary: buf w rule: less_induct)
  case less
  show ?case
  proof (cases "length buf < n")
    case True
    with less.prems have "stream w \<noteq> []" by auto
    with less.prems True obtain c w1 where c: "recv (n - length buf) w = (Inr c, w1)" "c \<noteq> []"
      "length c \<le> n - length buf" "stream w = c @ stream w1" "calm w1"
      using recv_some [of w "n - length buf"] by auto
    have "n - length (buf @ c) < n - length buf" using c True by (auto intro!: diff_less_mono2)
    moreover have "n \<le> length (buf @ c) + length (stream w1)" "length (buf @ c) \<le> n"
      using less.prems c True by auto
    ultimately obtain w' where
      "recv_exactly_from recv n (buf @ c) w1
         = (Inr ((buf @ c) @ take (n - length (buf @ c)) (stream w1)), w')"
      "stream w' = drop (n - length (buf @ c)) (stream w1)" "calm w'"
      using less.hyps [of "buf @ c" w1] c(5) by blast
    with c True show ?thesis
      by (subst recv_exactly_from.simps) (auto simp: take_append drop_append)
  next
    case False
    with less.prems show ?thesis by (subst recv_exactly_from.simps) auto
  qed
qed

lemma exactly_short:
  assumes "calm w" and "length buf + length (stream w) < n"
  shows "fst (recv_exactly_from recv n buf w) = Inl ConnectionError"
  using assms
proof (induction "n - length buf" arbitrary: buf w rule: less_induct)
  case less
  then have lt: "length buf < n" by simp
  show ?case
  proof (cases "stream w = []")
    case True
    with less.prems lt recv_eof [of w "n - length buf"] show ?thesis
      by (subst recv_exactly_from.simps) auto
  next
    case False
    with less.prems lt obtain c w1 where c: "recv (n - length buf) w = (Inr c, w1)" "c \<noteq> []"
      "length c \<le> n - length buf" "stream w = c @ stream w1" "calm w1"
      using recv_some [of w "n - length buf"] by auto
    have "n - length (buf @ c) < n - length buf" using c lt by (auto intro!: diff_less_mono2)
    with less.hyps [of "buf @ c" w1] less.prems c lt show ?thesis
      by (subst recv_exactly_from.simps) auto
  qed
qed

end

text \<open>A socket's queue is a calm source while it holds data only.\<close>

fun seg :: "rx \<Rightarrow> bytes" where
  "seg (Data d) = d"
| "seg (Fail e) = []"

definition stream :: "rx list \<Rightarrow> bytes" where
  "stream q = concat (map seg q)"

definition calm :: "rx list \<Rightarrow> bool" where
  "calm q \<longleftrightarrow> list_all (\<lambda>r. seg r \<noteq> []) q"

interpretation sock: byte_source sock_recv stream calm
proof
  fix q :: "rx list" and n :: nat
  assume *: "calm q" "stream q \<noteq> []" "0 < n"
  then obtain d r where "q = Data d # r" "d \<noteq> []"
    by (cases q; cases "hd q") (auto simp: calm_def stream_def)
  with * show "\<exists>c w'. sock_recv n q = (Inr c, w') \<and> c \<noteq> [] \<and> length c \<le> n \<and>
      stream q = c @ stream w' \<and> calm w'"
    by (auto simp: calm_def stream_def)
next
  fix q :: "rx list" and n :: nat
  assume "calm q" "stream q = []"
  then have "q = []" by (cases q) (auto simp: calm_def stream_def)
  then show "\<exists>w'. sock_recv n q = (Inr [], w')" by simp
qed

lemma recv_exactly_enough:
  "calm (rxq sock) \<Longrightarrow> n \<le> length (stream (rxq sock)) \<Longrightarrow>
   \<exists>q. recv_exactly sock n = (Inr (take n (stream (rxq sock))), sock\<lparr>rxq := q\<rparr>) \<and>
       stream q = drop n (stream (rxq sock)) \<and> calm q"
  using sock.exactly_enough [of "rxq sock" n "[]"] by (auto simp: recv_exactly_def)

section \<open>Exchanges\<close>

definition be16_bytes :: "int \<Rightarrow> bytes" where
  "be16_bytes v = [word_of_int (v div 256), word_of_int (v mod 256)]"

text \<open>A Modbus TCP frame: transaction id, protocol 0, length, unit id, function code, payload.\<close>

definition mbap_frame :: "int \<Rightarrow> int \<Rightarrow> int \<Rightarrow> bytes \<Rightarrow> bytes" where
  "mbap_frame tid unit_id fc payload =
     be16_bytes tid @ be16_bytes 0 @ be16_bytes (int (length payload) + 2) @
     [word_of_int unit_id, word_of_int fc] @ payload"

definition in_H :: "int \<Rightarrow> bool" where "in_H v \<longleftrightarrow> 0 \<le> v \<and> v \<le> 65535"

lemma make_mbap_request_eq:
  "make_mbap_request tid slave_id fc a n =
     (if in_H tid \<and> is_byte slave_id \<and> is_byte fc \<and> in_H a \<and> in_H n
      then Inr (mbap_frame tid slave_id fc (be16_bytes a @ be16_bytes n)) else Inl StructError)"
  by (simp add: make_mbap_request_def mbap_frame_def be16_bytes_def pack_B_def pack_H_def is_byte_def in_H_def)

lemma unpack_be16_bytes: "in_H v \<Longrightarrow> unpack_H (be16_bytes v ! 0) (be16_bytes v ! Suc 0) = v"
  by (simp add: be16_bytes_def unpack_H_div_mod in_H_def)

lemma mbap_frame_fields:
  assumes "in_H tid" "is_byte unit_id" "is_byte fc" "length payload \<le> 65533"
  shows "unpack_H (mbap_frame tid unit_id fc payload ! 0) (mbap_frame tid unit_id fc payload ! 1) = tid"
    "unpack_H (mbap_frame tid unit_id fc payload ! 4) (mbap_frame tid unit_id fc payload ! 5)
       = int (length payload) + 2"
    "uint (mbap_frame tid unit_id fc payload ! 6) = unit_id"
    "uint (mbap_frame tid unit_id fc payload ! 7) = fc"
  using assms by (simp_all add: mbap_frame_def be16_bytes_def unpack_H_div_mod in_H_def is_byte_def)

lemma exchange_in_sync:
  assumes "in_H tid" "is_byte unit_id" "is_byte fc" "length payload \<le> 65533"
    and "calm (rxq sock)" "tx_oracle sock = []"
    and "stream (rxq sock) = mbap_frame tid unit_id fc payload @ tail"
  shows "\<exists>q. send_and_receive sock req = (Inr (tid, unit_id, fc, payload),
               sock\<lparr>txd := txd sock @ [req], rxq := q\<rparr>) \<and> calm q \<and> stream q = tail"
proof -
  let ?f = "mbap_frame tid unit_id fc payload" and ?s = "sock\<lparr>txd := txd sock @ [req]\<rparr>"
  have len: "length ?f = 8 + length payload" by (simp add: mbap_frame_def be16_bytes_def)
  have payload: "drop 8 ?f = payload" by (simp add: mbap_frame_def be16_bytes_def)
  have nth: "(take 8 ?f) ! i = ?f ! i" if "i < 8" for i using that by simp
  have "take 8 (stream (rxq ?s)) = take 8 ?f" "drop 8 (stream (rxq ?s)) = payload @ tail"
    using assms(7) len payload by simp_all
  moreover have "calm (rxq ?s)" "8 \<le> length (stream (rxq ?s))" using assms len by simp_all
  ultimately obtain q where q: "recv_exactly ?s 8 = (Inr (take 8 ?f), ?s\<lparr>rxq := q\<rparr>)"
    "stream q = payload @ tail" "calm q"
    using recv_exactly_enough [of ?s 8] by auto
  note f = mbap_frame_fields [OF assms(1-4)]
  show ?thesis
  proof (cases "payload = []")
    case True
    then show ?thesis using q assms(6) f
      by (auto simp: send_and_receive_def sock_sendall_def MIN_RESPONSE_SIZE_def Let_def nth)
  next
    case False
    obtain q' where "recv_exactly (?s\<lparr>rxq := q\<rparr>) (length payload) = (Inr payload, ?s\<lparr>rxq := q'\<rparr>)"
      "stream q' = tail" "calm q'"
      using recv_exactly_enough [of "?s\<lparr>rxq := q\<rparr>" "length payload"] q by auto
    then show ?thesis using q assms(6) f False
      by (auto simp: send_and_receive_def sock_sendall_def MIN_RESPONSE_SIZE_def Let_def nth)
  qed
qed

section \<open>Register passes\<close>

text \<open>Map entries a request can be built for, and sockets that raise nothing but ordinary
  exceptions.\<close>

fun good_item :: "reg_key \<times> (int \<times> int) \<Rightarrow> bool" where
  "good_item ((slave_id, reg_type, address), _) \<longleftrightarrow>
     reg_type \<in> {''holding'', ''input'', ''coil'', ''discrete''} \<and> is_byte slave_id \<and> in_H address"

fun tame_rx :: "rx \<Rightarrow> bool" where
  "tame_rx (Data d) \<longleftrightarrow> True"
| "tame_rx (Fail e) \<longleftrightarrow> is_Exception e"

definition tame :: "tsock \<Rightarrow> bool" where
  "tame sock \<longleftrightarrow> list_all tame_rx (rxq sock) \<and> list_all (pred_option is_Exception) (tx_oracle sock)"

lemma type_to_fc_byte:
  "reg_type \<in> {''holding'', ''input'', ''coil'', ''discrete''} \<Longrightarrow>
   \<exists>fc. TYPE_TO_FC reg_type = Some fc \<and> is_byte fc \<and> fc \<in> {1, 2, 3, 4}"
  by (auto simp: TYPE_TO_FC_def is_byte_def)

lemma type_to_fc_known:
  "TYPE_TO_FC reg_type \<noteq> None \<longleftrightarrow> reg_type \<in> {''holding'', ''input'', ''coil'', ''discrete''}"
  by (auto simp: TYPE_TO_FC_def split: if_splits)

lemma sock_recv_tame:
  "sock_recv n q = (r, q') \<Longrightarrow> list_all tame_rx q \<Longrightarrow>
   list_all tame_rx q' \<and> raises_only {e. is_Exception e} r"
  by (induction n q rule: sock_recv.induct) (auto simp: raises_only_def split: if_splits)

lemma recv_exactly_from_tame:
  "recv_exactly_from sock_recv n buf q = (r, q') \<Longrightarrow> list_all tame_rx q \<Longrightarrow>
   list_all tame_rx q' \<and> raises_only {e. is_Exception e} r"
proof (induction "n - length buf" arbitrary: buf q rule: less_induct)
  case less
  show ?case
  proof (cases "length buf < n")
    case True
    obtain x q1 where x: "sock_recv (n - length buf) q = (x, q1)" by fastforce
    note t = sock_recv_tame [OF this less.prems(2)]
    show ?thesis
    proof (cases x)
      case (Inl e)
      with less.prems x t True show ?thesis
        by (subst (asm) recv_exactly_from.simps) (auto simp: raises_only_def)
    next
      case (Inr c)
      show ?thesis
      proof (cases "c = []")
        case True
        with less.prems x t Inr \<open>length buf < n\<close> show ?thesis
          by (subst (asm) recv_exactly_from.simps) (auto simp: raises_only_def)
      next
        case False
        then have "n - length (buf @ c) < n - length buf" using True by (auto intro!: diff_less_mono2)
        moreover have "recv_exactly_from sock_recv n (buf @ c) q1 = (r, q')"
          using less.prems(1) x Inr True False by (subst (asm) recv_exactly_from.simps) auto
        ultimately show ?thesis using less.hyps t by blast
      qed
    qed
  next
    case False
    with less.prems show ?thesis by (subst (asm) recv_exactly_from.simps) auto
  qed
qed

lemma recv_exactly_tame:
  "recv_exactly sock n = (r, sock') \<Longrightarrow> tame sock \<Longrightarrow>
   tame sock' \<and> raises_only {e. is_Exception e} r \<and> txd sock' = txd sock \<and> tx_oracle sock' = tx_oracle sock"
  using recv_exactly_from_tame [of n "[]" "rxq sock"]
  by (auto simp: recv_exactly_def tame_def split: prod.splits)

lemma sock_sendall_tame:
  "sock_sendall sock d = (r, sock') \<Longrightarrow> tame sock \<Longrightarrow> tame sock' \<and> raises_only {e. is_Exception e} r"
  by (auto simp: sock_sendall_def tame_def raises_only_def split: list.splits option.splits)

lemma send_and_receive_tame:
  assumes "send_and_receive sock req = (r, sock')" "tame sock"
  shows "tame sock' \<and> raises_only {e. is_Exception e} r"
proof -
  obtain x1 s1 where 1: "sock_sendall sock req = (x1, s1)" by fastforce
  note t1 = sock_sendall_tame [OF this assms(2)]
  obtain x2 s2 where 2: "recv_exactly s1 MIN_RESPONSE_SIZE = (x2, s2)" by fastforce
  from t1 have t2: "tame s2" "raises_only {e. is_Exception e} x2"
    using recv_exactly_tame [OF 2] by auto
  from t2 have t3: "recv_exactly s2 n = (x3, s3) \<Longrightarrow> tame s3 \<and> raises_only {e. is_Exception e} x3" for n x3 s3
    using recv_exactly_tame [of s2 n x3 s3] by auto
  show ?thesis
    using assms(1) 1 2 t1 t2 t3
    by (auto simp: send_and_receive_def raises_only_def Let_def split: sum.splits prod.splits if_splits)
qed

lemma send_and_receive_txd:
  assumes "send_and_receive sock req = (r, sock')" "tx_oracle sock = []"
  shows "txd sock' = txd sock @ [req] \<and> tx_oracle sock' = []"
proof -
  have r: "recv_exactly s n = (x, s') \<Longrightarrow> txd s' = txd s \<and> tx_oracle s' = tx_oracle s" for s n x s'
    by (auto simp: recv_exactly_def split: prod.splits)
  show ?thesis
    using assms
    by (auto simp: send_and_receive_def sock_sendall_def Let_def dest!: r split: sum.splits prod.splits if_splits)
qed

text \<open>The requests of a pass, one per map entry, with consecutive transaction ids.\<close>

fun pass_requests :: "int \<Rightarrow> register_map \<Rightarrow> bytes list" where
  "pass_requests tid [] = []"
| "pass_requests tid (((slave_id, reg_type, address), _) # m) =
     mbap_frame (tid mod 65536) slave_id (the (TYPE_TO_FC reg_type)) (be16_bytes address @ be16_bytes 1)
     # pass_requests (tid + 1) m"

lemma pass_requests_mod: "tid mod 65536 = tid' mod 65536 \<Longrightarrow> pass_requests tid m = pass_requests tid' m"
proof (induction tid m arbitrary: tid' rule: pass_requests.induct)
  case (2 tid slave_id reg_type address v m)
  then have "(tid + 1) mod 65536 = (tid' + 1) mod 65536" by (metis mod_add_left_eq)
  with 2 show ?case by auto
qed simp

text \<open>One entry of a pass: the request goes out, and the entry is counted once.\<close>

definition counted :: "thread_result \<Rightarrow> int" where
  "counted r = checks_passed r + checks_failed r"

lemma run_register_pass_step:
  assumes "good_item it" "tame sock"
  shows "\<exists>sock' r'. run_register_pass (it # m) sock r tid = run_register_pass m sock' r' (tid mod 65536 + 1) \<and>
     tame sock' \<and> counted r' = counted r + 1 \<and>
     int (length (errors r')) - int (length (errors r)) = checks_failed r' - checks_failed r \<and>
     exc r' = exc r \<and> iterations r' = iterations r \<and> connected_at r' = connected_at r \<and>
     (tx_oracle sock = [] \<longrightarrow> tx_oracle sock' = [] \<and> txd sock' = txd sock @ pass_requests tid [it])"
proof -
  obtain slave_id reg_type address v where it: "it = ((slave_id, reg_type, address), v)"
    by (metis prod.exhaust)
  with assms obtain fc where fc: "TYPE_TO_FC reg_type = Some fc" "is_byte fc"
    using type_to_fc_byte [of reg_type] by auto
  let ?tid = "tid mod 65536"
  let ?req = "mbap_frame ?tid slave_id fc (be16_bytes address @ be16_bytes 1)"
  have "in_H ?tid" using pos_mod_bound [of 65536 tid] unfolding in_H_def by (simp; linarith)
  then have req: "make_mbap_request ?tid slave_id fc address 1 = Inr ?req"
    using assms it fc by (simp add: make_mbap_request_eq) (simp add: in_H_def)
  obtain x s1 where x: "send_and_receive sock ?req = (x, s1)" by fastforce
  have t: "tame s1" "raises_only {e. is_Exception e} x"
    using send_and_receive_tame [OF x assms(2)] by auto
  have o: "tx_oracle sock = [] \<longrightarrow> tx_oracle s1 = [] \<and> txd s1 = txd sock @ pass_requests tid [it]"
    using send_and_receive_txd [OF x] it fc by simp
  show ?thesis
  proof (cases x)
    case (Inl e)
    with t have "is_Exception e" by (simp add: raises_only_def)
    with Inl it fc req x t o show ?thesis
      by (intro exI [of _ s1] exI [of _ "add_error ((slave_id, reg_type, address), SocketErr e) r"])
        (simp add: MAX_TID_def Let_def counted_def add_error_def)
  next
    case (Inr a)
    show ?thesis
    proof (cases "judge_answer ?tid fc a")
      case None
      with Inr it fc req x t o show ?thesis
        by (intro exI [of _ s1] exI [of _ "add_pass r"])
          (simp add: MAX_TID_def Let_def counted_def add_pass_def)
    next
      case (Some err)
      with Inr it fc req x t o show ?thesis
        by (intro exI [of _ s1] exI [of _ "add_error ((slave_id, reg_type, address), err) r"])
          (simp add: MAX_TID_def Let_def counted_def add_error_def)
    qed
  qed
qed

lemma run_register_pass_counts:
  assumes "list_all good_item m" "tame sock"
  shows "\<exists>tid' sock' r'. run_register_pass m sock r tid = (Inr tid', sock', r') \<and>
     tid' mod 65536 = (tid + int (length m)) mod 65536 \<and>
     tame sock' \<and> counted r' = counted r + int (length m) \<and>
     int (length (errors r')) - int (length (errors r)) = checks_failed r' - checks_failed r \<and>
     exc r' = exc r \<and> iterations r' = iterations r \<and> connected_at r' = connected_at r \<and>
     (tx_oracle sock = [] \<longrightarrow> tx_oracle sock' = [] \<and> txd sock' = txd sock @ pass_requests tid m)"
  using assms
proof (induction m arbitrary: sock r tid)
  case (Cons it m)
  obtain s1 r1 where 1: "run_register_pass (it # m) sock r tid = run_register_pass m s1 r1 (tid mod 65536 + 1)"
    "tame s1" "counted r1 = counted r + 1"
    "int (length (errors r1)) - int (length (errors r)) = checks_failed r1 - checks_failed r"
    "exc r1 = exc r" "iterations r1 = iterations r" "connected_at r1 = connected_at r"
    "tx_oracle sock = [] \<longrightarrow> tx_oracle s1 = [] \<and> txd s1 = txd sock @ pass_requests tid [it]"
    using run_register_pass_step [of it sock m r tid] Cons.prems by auto
  obtain tid2 s2 r2 where 2: "run_register_pass m s1 r1 (tid mod 65536 + 1) = (Inr tid2, s2, r2)"
    "tid2 mod 65536 = (tid mod 65536 + 1 + int (length m)) mod 65536"
    "tame s2" "counted r2 = counted r1 + int (length m)"
    "int (length (errors r2)) - int (length (errors r1)) = checks_failed r2 - checks_failed r1"
    "exc r2 = exc r1" "iterations r2 = iterations r1" "connected_at r2 = connected_at r1"
    "tx_oracle s1 = [] \<longrightarrow> tx_oracle s2 = [] \<and> txd s2 = txd s1 @ pass_requests (tid mod 65536 + 1) m"
    using Cons.IH [of s1 r1 "tid mod 65536 + 1"] Cons.prems 1(2) by auto
  have t: "(tid mod 65536 + 1 + int (length m)) mod 65536 = (tid + int (length (it # m))) mod 65536"
    by (simp add: mod_add_left_eq add.assoc)
  have p: "pass_requests (tid mod 65536 + 1) m = pass_requests (tid + 1) m"
    by (rule pass_requests_mod) (simp add: mod_add_left_eq)
  have q: "pass_requests tid [it] @ pass_requests (tid + 1) m = pass_requests tid (it # m)"
    by (cases it; cases "fst it") auto
  show ?case using 1 2 unfolding t p by (auto simp flip: q)
qed simp

text \<open>What an honest server sends back over a pass: one frame per request, with its
  transaction id and function code and a payload of its own.\<close>

fun pass_answers :: "int \<Rightarrow> register_map \<Rightarrow> (int \<times> bytes) list \<Rightarrow> bytes" where
  "pass_answers tid (((_, reg_type, _), _) # m) ((unit_id, payload) # as) =
     mbap_frame (tid mod 65536) unit_id (the (TYPE_TO_FC reg_type)) payload @ pass_answers (tid + 1) m as"
| "pass_answers tid _ _ = []"

fun honest :: "reg_key \<times> (int \<times> int) \<Rightarrow> int \<times> bytes \<Rightarrow> bool" where
  "honest ((_, reg_type, _), _) (unit_id, payload) \<longleftrightarrow>
     is_byte unit_id \<and> length payload \<le> 65533 \<and>
     (case decode_response (the (TYPE_TO_FC reg_type)) payload 1 of Inl _ \<Rightarrow> False | Inr vs \<Rightarrow> vs \<noteq> [])"

lemma pass_answers_mod:
  "tid mod 65536 = tid' mod 65536 \<Longrightarrow> pass_answers tid m as = pass_answers tid' m as"
proof (induction tid m as arbitrary: tid' rule: pass_answers.induct)
  case (1 tid a reg_type b c m unit_id payload as)
  then have "(tid + 1) mod 65536 = (tid' + 1) mod 65536" by (metis mod_add_left_eq)
  with 1 show ?case by auto
qed auto

lemma pass_all_answered_aux:
  assumes "list_all good_item m" "list_all2 honest m as"
    and "calm (rxq sock)" "tx_oracle sock = []" "stream (rxq sock) = pass_answers tid m as @ tail"
  shows "\<exists>tid' sock'. run_register_pass m sock r tid =
           (Inr tid', sock', r\<lparr>checks_passed := checks_passed r + int (length m)\<rparr>) \<and>
           calm (rxq sock') \<and> stream (rxq sock') = tail \<and> txd sock' = txd sock @ pass_requests tid m"
  using assms
proof (induction m arbitrary: sock r tid as)
  case (Cons it m)
  obtain slave_id reg_type address v where it: "it = ((slave_id, reg_type, address), v)"
    by (metis prod.exhaust)
  from Cons.prems(2) obtain unit_id payload as' where as: "as = (unit_id, payload) # as'"
    "honest it (unit_id, payload)" "list_all2 honest m as'"
    by (auto simp: list_all2_Cons1)
  from Cons.prems(1) it obtain fc where fc: "TYPE_TO_FC reg_type = Some fc" "is_byte fc" "fc \<in> {1, 2, 3, 4}"
    using type_to_fc_byte [of reg_type] by auto
  let ?tid = "tid mod 65536"
  let ?req = "mbap_frame ?tid slave_id fc (be16_bytes address @ be16_bytes 1)"
  have tid: "in_H ?tid" using pos_mod_bound [of 65536 tid] unfolding in_H_def by (simp; linarith)
  then have req: "make_mbap_request ?tid slave_id fc address 1 = Inr ?req"
    using Cons.prems(1) it fc by (simp add: make_mbap_request_eq) (simp add: in_H_def)
  have "stream (rxq sock) = mbap_frame ?tid unit_id fc payload @ (pass_answers (tid + 1) m as' @ tail)"
    using Cons.prems(5) it as fc by simp
  moreover have "is_byte unit_id" "length payload \<le> 65533" using as(2) it by auto
  ultimately obtain q where q:
    "send_and_receive sock ?req = (Inr (?tid, unit_id, fc, payload), sock\<lparr>txd := txd sock @ [?req], rxq := q\<rparr>)"
    "calm q" "stream q = pass_answers (tid + 1) m as' @ tail"
    using exchange_in_sync tid fc(2) Cons.prems(3,4) by blast
  have bit7: "fc AND 128 = 0" using fc(3) by auto
  have j: "judge_answer ?tid fc (?tid, unit_id, fc, payload) = None"
    using as(2) it fc(1) bit7 by (auto simp: judge_answer_def split: sum.splits)
  have a: "pass_answers (?tid + 1) m as' = pass_answers (tid + 1) m as'"
    "pass_requests (?tid + 1) m = pass_requests (tid + 1) m"
    by (rule pass_answers_mod, simp add: mod_add_left_eq, rule pass_requests_mod, simp add: mod_add_left_eq)
  have "list_all good_item m" using Cons.prems(1) by simp
  from Cons.IH [OF this as(3), of "sock\<lparr>txd := txd sock @ [?req], rxq := q\<rparr>" "?tid + 1" "add_pass r"]
  show ?case using q Cons.prems(4) it fc(1) req j a
    by (auto simp: MAX_TID_def Let_def add_pass_def algebra_simps)
qed simp

section \<open>Responses under a deadline\<close>

text \<open>Passes that come before the deadline and bring data or nothing.\<close>

fun quiet_pass :: "time \<Rightarrow> time \<times> recv256 \<Rightarrow> bool" where
  "quiet_pass d (now, Chunk c) \<longleftrightarrow> now < d \<and> c \<noteq> []"
| "quiet_pass d (now, SockTimeout) \<longleftrightarrow> now < d"
| "quiet_pass d (now, SockFail e) \<longleftrightarrow> False"

fun arrived :: "(time \<times> recv256) list \<Rightarrow> bytes" where
  "arrived [] = []"
| "arrived ((_, Chunk c) # ps) = c @ arrived ps"
| "arrived (_ # ps) = arrived ps"

lemma loop_collects:
  assumes "list_all (quiet_pass d) ps" and "k \<le> int (length r) + int (length (arrived ps))"
    and "\<And>r. pass SockTimeout r = Next r" and "\<And>c r. c \<noteq> [] \<Longrightarrow> pass (Chunk c) r = Next (r @ c)"
  shows "\<exists>r' rest. deadline_loop (\<lambda>r. int (length r) < k) d pass ps r = Some (Done r', rest) \<and>
     k \<le> int (length r') \<and> r @ arrived ps = r' @ arrived rest \<and> list_all (quiet_pass d) rest"
  using assms(1,2)
proof (induction ps arbitrary: r)
  case Nil
  then show ?case by (simp add: loop_simps)
next
  case (Cons q ps)
  obtain now ev where q: "q = (now, ev)" by (cases q)
  show ?case
  proof (cases "int (length r) < k")
    case False
    then show ?thesis using Cons.prems by (simp add: loop_simps)
  next
    case True
    then show ?thesis
    proof (cases ev)
      case (Chunk c)
      then show ?thesis using True Cons.prems q Cons.IH [of "r @ c"] assms(4)
        by (auto simp: loop_simps)
    next
      case SockTimeout
      then show ?thesis using True Cons.prems q Cons.IH [of r] assms(3)
        by (auto simp: loop_simps)
    qed (use Cons.prems q in auto)
  qed
qed

text \<open>Without an end of file, the body loop stops early only by an exception, and it keeps the
  header it started from.\<close>

interpretation pdu: polling "\<lambda>r. int (length r) < k" pdu_pass "\<lambda>p. p \<noteq> Chunk []"
    "\<lambda>r. 6 \<le> length r \<and> take 6 r = h" "\<lambda>r. \<exists>e. r = Inl e" for k h
proof
  fix s s' p
  assume "6 \<le> length s \<and> take 6 s = h" "pdu_pass p s = Next s'"
  then show "6 \<le> length s' \<and> take 6 s' = h"
    by (cases p) (auto split: if_splits)
next
  fix s r p
  assume "p \<noteq> Chunk []" "pdu_pass p s = Stop r"
  then show "\<exists>e. r = Inl e" by (cases p) (auto split: if_splits)
qed

lemma recv_pdu_complete:
  assumes "recv_pdu d h ps = Some (Inr r, rest)" and "list_all (\<lambda>p. snd p \<noteq> Chunk []) ps" and "6 \<le> length h"
  shows "6 + unpack_H (r ! 4) (r ! 5) \<le> int (length r)"
proof -
  let ?k = "6 + unpack_H (h ! 4) (h ! 5)"
  from assms(1) obtain out where out:
    "deadline_loop (\<lambda>r. int (length r) < ?k) d pdu_pass ps h = Some (out, rest)"
    "out = Done r \<or> out = Stopped (Inr r)"
    by (auto simp: recv_pdu_def Let_def split: option.splits prod.splits outcome.splits)
  have "case out of Done s' \<Rightarrow> (6 \<le> length s' \<and> take 6 s' = take 6 h) \<and> \<not> int (length s') < ?k
     | Stopped r \<Rightarrow> \<exists>e. r = Inl e | Expired s' \<Rightarrow> (6 \<le> length s' \<and> take 6 s' = take 6 h) \<and> int (length s') < ?k"
    using assms(2,3) by (intro pdu.loop_inv [OF _ _ out(1)]) (auto simp: comp_def)
  with out(2) have r: "6 \<le> length r" "take 6 r = take 6 h" "?k \<le> int (length r)" by auto
  have "r ! 4 = h ! 4" "r ! 5 = h ! 5"
    using arg_cong [OF r(2), of "\<lambda>l. l ! 4"] arg_cong [OF r(2), of "\<lambda>l. l ! 5"] by simp_all
  with r(3) show ?thesis by simp
qed

lemma recv_pdu_returns:
  "(t, p) \<in> set ps \<Longrightarrow> d \<le> t \<Longrightarrow> \<exists>r rest. recv_pdu d h ps = Some (r, rest)"
  using deadline_loop_returns [of t p ps d "\<lambda>r. int (length r) < 6 + unpack_H (h ! 4) (h ! 5)" pdu_pass h]
  by (auto simp: recv_pdu_def Let_def split: outcome.splits)

section \<open>Worker threads\<close>

lemma counted_iterations [simp]: "counted (r\<lparr>iterations := i\<rparr>) = counted r"
  by (simp add: counted_def)

lemma worker_passes_counts:
  assumes "list_all good_item m" "tame sock" "list_all (\<lambda>t. t < deadline) pre" "deadline \<le> t"
  shows "\<exists>sock' r'. worker_passes m deadline (pre @ t # clock) sock r tid = Some (Inr (), sock', r') \<and>
     iterations r' = iterations r + int (length pre) \<and>
     counted r' = counted r + int (length pre) * int (length m) \<and>
     exc r' = exc r \<and> connected_at r' = connected_at r"
  using assms
proof (induction pre arbitrary: sock r tid)
  case (Cons u pre)
  obtain tid1 s1 r1 where 1: "run_register_pass m sock r tid = (Inr tid1, s1, r1)" "tame s1"
    "counted r1 = counted r + int (length m)" "exc r1 = exc r" "iterations r1 = iterations r"
    "connected_at r1 = connected_at r"
    using run_register_pass_counts [OF Cons.prems(1,2), of r tid] by auto
  with Cons.IH [of s1 "r1\<lparr>iterations := iterations r1 + 1\<rparr>" tid1] Cons.prems show ?case
    by (auto simp: algebra_simps)
qed simp

section \<open>Staleness test\<close>

definition round_ok :: "(qres \<Rightarrow> bool) \<Rightarrow> (nat \<Rightarrow> fresh) \<Rightarrow> nat \<Rightarrow> register_map \<Rightarrow> bool" where
  "round_ok want socks i items \<longleftrightarrow>
     list_all (\<lambda>(j, it). case query_register_once (socks (i + j)) (fst it) of Inl _ \<Rightarrow> False | Inr q \<Rightarrow> want q)
       (enumerate 0 items)"

lemma round_ok_Cons:
  "round_ok want socks i (it # items) \<longleftrightarrow>
     (case query_register_once (socks i) (fst it) of Inl _ \<Rightarrow> False | Inr q \<Rightarrow> want q) \<and>
     round_ok want socks (Suc i) items"
proof -
  have e: "enumerate (Suc 0) items = map (\<lambda>(j, x). (Suc j, x)) (enumerate 0 items)"
    by (rule nth_equalityI) (auto simp: nth_enumerate_eq)
  show ?thesis by (simp add: round_ok_def e list_all_iff split_beta)
qed

lemma check_round_passed:
  "check_round want socks i items (p, rep) = Inr (True, rep') \<Longrightarrow> p \<and> round_ok want socks i items"
proof (induction want socks i items "(p, rep)" arbitrary: p rep rule: check_round.induct)
  case (1 want socks i)
  then show ?case by (simp add: round_ok_def)
next
  case (2 want socks i key v items p rep)
  then show ?case by (auto simp: round_ok_Cons split: sum.splits if_splits)
qed

lemma staleness_checks_posts:
  "staleness_checks env candidates rep = Some (r, posts) \<Longrightarrow> posts = [1] \<or> posts = [1, 0]"
  by (auto simp: staleness_checks_def Let_def split: sum.splits option.splits outcome.splits prod.splits)

lemma staleness_checks_passed:
  assumes "staleness_checks env candidates rep = Some (Inr (True, rep'), posts)"
  shows "posts = [1, 0] \<and> round_ok (\<lambda>q. q = QException 0x0B) (stale_socks env) 0 candidates \<and>
     round_ok is_QOk (live_socks env) 0 candidates"
  using assms
  by (auto simp: staleness_checks_def Let_def split: sum.splits option.splits outcome.splits prod.splits
      dest!: check_round_passed)

lemma staleness_checks_returns:
  assumes "(t, p) \<in> set (polls env)" "poll_start env + 8 \<le> t"
  shows "\<exists>r posts. staleness_checks env candidates rep = Some (r, posts)"
  using deadline_loop_returns [OF assms, of "\<lambda>_. True" "stale_probe (fst (hd candidates))" "()"]
  by (auto simp: staleness_checks_def Let_def split: sum.splits outcome.splits)

section \<open>Properties\<close>

text \<open>One exchange on a socket, however TCP segments the stream. A request is followed by
  exactly the answer frame that is next in the stream, and the stream is left at the first
  byte after that frame, so the next exchange starts in sync.\<close>

theorem exchange_any_segmentation:
  assumes "in_H tid" and "is_byte unit_id" and "is_byte fc" and "length payload \<le> 65533"
    and "calm (rxq sock)" and "tx_oracle sock = []"
    and "stream (rxq sock) = mbap_frame tid unit_id fc payload @ tail"
  shows "\<exists>q. send_and_receive sock req = (Inr (tid, unit_id, fc, payload),
               sock\<lparr>txd := txd sock @ [req], rxq := q\<rparr>) \<and> calm q \<and> stream q = tail"
  using exchange_in_sync assms by blast

theorem exchange_any_segmentation_witness:
  "\<exists>q. send_and_receive \<lparr>rxq = [Data [0, 7, 0], Data [0, 0, 5, 1, 3, 2, 0x12], Data [0x34, 0, 8]],
          txd = [], tx_oracle = []\<rparr> [1, 2]
        = (Inr (7, 1, 3, [2, 0x12, 0x34]), \<lparr>rxq = q, txd = [[1, 2]], tx_oracle = []\<rparr>) \<and>
       calm q \<and> stream q = [0, 8]"
proof -
  let ?s = "\<lparr>rxq = [Data [0, 7, 0], Data [0, 0, 5, 1, 3, 2, 0x12], Data [0x34, 0, 8]],
          txd = [], tx_oracle = []\<rparr> :: tsock"
  have "in_H 7" "is_byte 1" "is_byte 3" "length [2, 0x12, 0x34 :: byte] \<le> 65533"
    "calm (rxq ?s)" "tx_oracle ?s = []"
    "stream (rxq ?s) = mbap_frame 7 1 3 [2, 0x12, 0x34] @ [0, 8]"
    by (simp_all add: in_H_def is_byte_def calm_def stream_def mbap_frame_def be16_bytes_def)
  from exchange_any_segmentation [OF this, of "[1, 2]"] show ?thesis by simp
qed

text \<open>C19: a register pass over a map of well-formed entries always runs to its end, whatever
  the socket does short of an interrupt: each entry is counted exactly once as passed or
  failed, each failure has its message, and one request per entry goes out, with consecutive
  16-bit transaction ids.\<close>

theorem pass_accounts_for_every_register:
  assumes "list_all good_item m" and "tame sock" and "tx_oracle sock = []"
  shows "\<exists>tid' sock' r'. run_register_pass m sock r tid = (Inr tid', sock', r') \<and>
     tid' mod 65536 = (tid + int (length m)) mod 65536 \<and>
     checks_passed r' + checks_failed r' = checks_passed r + checks_failed r + int (length m) \<and>
     int (length (errors r')) - int (length (errors r)) = checks_failed r' - checks_failed r \<and>
     txd sock' = txd sock @ pass_requests tid m"
  using run_register_pass_counts [OF assms(1,2), of r tid] assms(3) by (auto simp: counted_def)

theorem pass_accounts_for_every_register_witness:
  "\<exists>tid' sock' r'. run_register_pass [((1, ''coil'', 2), 0, 0), ((1, ''input'', 3), 0, 0)]
       \<lparr>rxq = [Fail TimeoutError], txd = [], tx_oracle = []\<rparr> (new_result 0) 65535 = (Inr tid', sock', r') \<and>
     tid' mod 65536 = 1 \<and> checks_passed r' + checks_failed r' = 2 \<and>
     int (length (errors r')) = checks_failed r' \<and>
     txd sock' = [mbap_frame 65535 1 1 [0, 2, 0, 1], mbap_frame 0 1 4 [0, 3, 0, 1]]"
proof -
  have "list_all good_item [((1, ''coil'', 2), 0, 0), ((1, ''input'', 3), 0, 0)]"
    by (simp add: is_byte_def in_H_def)
  moreover have "tame \<lparr>rxq = [Fail TimeoutError], txd = [], tx_oracle = []\<rparr>"
    by (simp add: tame_def)
  ultimately show ?thesis
    using pass_accounts_for_every_register [of "[((1, ''coil'', 2), 0, 0), ((1, ''input'', 3), 0, 0)]"
        "\<lparr>rxq = [Fail TimeoutError], txd = [], tx_oracle = []\<rparr>" "new_result 0" 65535]
    by (simp add: new_result_def be16_bytes_def TYPE_TO_FC_def)
qed

text \<open>C21: against a server that answers each request of the pass with its transaction id, its
  function code and a decodable payload, every register passes, nothing is reported, and the
  stream is left right behind the last answer; the segmentation of the stream does not matter.\<close>

theorem pass_succeeds_against_honest_server:
  assumes "list_all good_item m" and "list_all2 honest m as"
    and "calm (rxq sock)" and "tx_oracle sock = []" and "stream (rxq sock) = pass_answers tid m as @ tail"
  shows "\<exists>tid' sock'. run_register_pass m sock r tid =
           (Inr tid', sock', r\<lparr>checks_passed := checks_passed r + int (length m)\<rparr>) \<and>
           stream (rxq sock') = tail"
  using pass_all_answered_aux [OF assms] by blast

theorem pass_succeeds_against_honest_server_witness:
  "\<exists>tid' sock'. run_register_pass [((1, ''holding'', 2), 0, 0), ((1, ''coil'', 3), 0, 0)]
       \<lparr>rxq = [Data [255, 255, 0, 0, 0, 5, 1, 3, 2, 9], Data [9, 0, 0, 0, 0, 0, 4, 1, 1, 1, 1]], txd = [],
        tx_oracle = []\<rparr> (new_result 0) 65535
     = (Inr tid', sock', (new_result 0)\<lparr>checks_passed := 2\<rparr>) \<and> stream (rxq sock') = []"
proof -
  let ?m = "[((1, ''holding'', 2), 0, 0), ((1, ''coil'', 3), 0, 0)] :: register_map"
  let ?as = "[(1, [2, 9, 9]), (1, [1, 1])] :: (int \<times> bytes) list"
  let ?s = "\<lparr>rxq = [Data [255, 255, 0, 0, 0, 5, 1, 3, 2, 9], Data [9, 0, 0, 0, 0, 0, 4, 1, 1, 1, 1]],
     txd = [], tx_oracle = []\<rparr> :: tsock"
  have "list_all good_item ?m" by (simp add: is_byte_def in_H_def)
  moreover have "list_all2 honest ?m ?as"
    by (simp add: is_byte_def TYPE_TO_FC_def decode_response_def decode_fc03_fc04_def decode_fc01_fc02_def
        py_upto_def upt_rec)
  moreover have "calm (rxq ?s)" "tx_oracle ?s = []" "stream (rxq ?s) = pass_answers 65535 ?m ?as @ []"
    by (simp_all add: calm_def stream_def mbap_frame_def be16_bytes_def TYPE_TO_FC_def)
  ultimately have "\<exists>tid' sock'. run_register_pass ?m ?s (new_result 0) 65535 =
           (Inr tid', sock', (new_result 0)\<lparr>checks_passed := checks_passed (new_result 0) + int (length ?m)\<rparr>) \<and>
           stream (rxq sock') = []"
    by (rule pass_succeeds_against_honest_server)
  then show ?thesis by (simp add: new_result_def)
qed

text \<open>The deadline-bounded receive assembles a response from whatever chunks and receive
  timeouts carry it, provided it arrives before the deadline.\<close>

theorem response_assembled:
  assumes "list_all (quiet_pass d) ps" and "arrived ps = frame"
    and "6 \<le> length frame" and "int (length frame) = 6 + unpack_H (frame ! 4) (frame ! 5)"
  shows "\<exists>rest. recv_modbus_tcp_response d ps = Some (Inr frame, rest) \<and> arrived rest = []"
proof -
  obtain h r1 where 1: "deadline_loop (\<lambda>r. length r < 6) d header_pass ps [] = Some (Done h, r1)"
    "6 \<le> int (length h)" "frame = h @ arrived r1" "list_all (quiet_pass d) r1"
    using loop_collects [of d ps 6 "[]" header_pass] assms(1-3) by auto
  have "6 + unpack_H (h ! 4) (h ! 5) = int (length frame)"
    using 1(2) assms(4) unfolding 1(3) by (simp add: nth_append)
  note k = this
  have le: "int (length frame) \<le> int (length h) + int (length (arrived r1))" by (simp add: 1(3))
  obtain r r2 where 2:
    "deadline_loop (\<lambda>r. int (length r) < int (length frame)) d pdu_pass r1 h = Some (Done r, r2)"
    "int (length frame) \<le> int (length r)" "h @ arrived r1 = r @ arrived r2"
    using loop_collects [OF 1(4) le, of pdu_pass] by fastforce
  have "frame = r @ arrived r2" using 1(3) 2(3) by metis
  then have "arrived r2 = []" "r = frame" using 2(2) by auto
  then show ?thesis using 1(1) 2(1)
    unfolding recv_modbus_tcp_response_def recv_pdu_def Let_def by (simp add: k)
qed

theorem response_assembled_witness:
  "\<exists>rest. recv_modbus_tcp_response 10 [(1, Chunk [0, 1, 0]), (2, SockTimeout), (3, Chunk [0, 0, 3, 1]), (9, Chunk [3, 7])]
     = Some (Inr [0, 1, 0, 0, 0, 3, 1, 3, 7], rest) \<and> arrived rest = []"
  using response_assembled [of 10 "[(1, Chunk [0, 1, 0]), (2, SockTimeout), (3, Chunk [0, 0, 3, 1]), (9, Chunk [3, 7])]"
      "[0, 1, 0, 0, 0, 3, 1, 3, 7]"]
  by (simp add: unpack_H_def)

text \<open>C33: the deadline bounds the receive: once the clock has reached it the call has left,
  and a value it returns without the peer closing is a complete frame.\<close>

theorem response_bounded_and_complete:
  assumes "(t, p) \<in> set ps" and "d \<le> t" and "list_all (\<lambda>p. snd p \<noteq> Chunk []) ps"
  shows "\<exists>res rest. recv_modbus_tcp_response d ps = Some (res, rest) \<and>
     (case res of Inl e \<Rightarrow> True | Inr r \<Rightarrow> 6 + unpack_H (r ! 4) (r ! 5) \<le> int (length r))"
proof -
  let ?loop = "deadline_loop (\<lambda>r. length r < 6) d header_pass ps []"
  obtain out rest where out: "?loop = Some (out, rest)"
    using deadline_loop_returns [OF assms(1,2), of "\<lambda>r. length r < 6" header_pass "[]"] by blast
  show ?thesis
  proof (cases out)
    case (Done h)
    have late: "(t, p) \<in> set rest"
      using deadline_loop_done_rest [OF out [unfolded Done] assms(1,2)] .
    have h: "6 \<le> length h" using deadline_loop_done_guard [OF out [unfolded Done]] by simp
    have "set rest \<subseteq> set ps" using deadline_loop_rest [OF out] by auto
    then have "list_all (\<lambda>p. snd p \<noteq> Chunk []) rest" using assms(3) by (auto simp: list_all_iff)
    moreover obtain r rest' where "recv_pdu d h rest = Some (r, rest')"
      using recv_pdu_returns [OF late assms(2)] by blast
    ultimately show ?thesis using out Done h recv_pdu_complete [of d h rest]
      by (auto simp: recv_modbus_tcp_response_def split: sum.splits)
  qed (use out in \<open>auto simp: recv_modbus_tcp_response_def\<close>)
qed

theorem response_bounded_and_complete_witness:
  "\<exists>res rest. recv_modbus_tcp_response 5 [(1, Chunk [0, 1]), (7, SockTimeout)] = Some (res, rest) \<and>
     (case res of Inl e \<Rightarrow> True | Inr r \<Rightarrow> 6 + unpack_H (r ! 4) (r ! 5) \<le> int (length r))"
  using response_bounded_and_complete [of 7 SockTimeout "[(1, Chunk [0, 1]), (7, SockTimeout)]" 5] by simp

text \<open>A peer that closes inside the PDU makes the receive return the truncated frame; only a
  close inside the 6-byte header raises \<open>ConnectionError\<close>.\<close>

theorem response_truncated_on_close:
  assumes "now < d" and "now' < d" and "h \<noteq> []"
  shows "recv_modbus_tcp_response d [(now, Chunk h), (now', Chunk [])] =
     (if length h < 6 then Some (Inl ConnectionError, [])
      else if int (length h) < 6 + unpack_H (h ! 4) (h ! 5) then Some (Inr h, [])
      else Some (Inr h, [(now', Chunk [])]))"
  using assms by (simp add: recv_modbus_tcp_response_def recv_pdu_def Let_def loop_simps)

theorem response_truncated_on_close_witness:
  "recv_modbus_tcp_response 9 [(1, Chunk [0, 1, 0, 0, 0, 5, 1]), (2, Chunk [])] = Some (Inr [0, 1, 0, 0, 0, 5, 1], [])"
  using response_truncated_on_close [of 1 9 2 "[0, 1, 0, 0, 0, 5, 1]"] by (simp add: unpack_H_def)

text \<open>A worker that gets past the barrier and connects runs one full pass per clock reading
  before its deadline and stops at the first later one; it counts every register of every pass
  and records no exception.\<close>

theorem worker_runs_until_deadline:
  assumes "list_all good_item m" and "tame sock" and "0 < duration"
    and "barrier_wait env = None" and "connect_outcome env = None"
    and "loop_clock env = pre @ t # clock" and "list_all (\<lambda>t. t < connect_clock env + duration) pre"
    and "connect_clock env + duration \<le> t"
  shows "\<exists>r sock'. worker n m duration env sock = Some (Inr r, sock') \<and>
     connected_at r = connect_clock env \<and> iterations r = int (length pre) \<and>
     checks_passed r + checks_failed r = int (length pre) * int (length m) \<and> exc r = None"
  using worker_passes_counts [OF assms(1,2,7,8), of clock "(new_result n)\<lparr>connected_at := connect_clock env\<rparr>" "n * 1000"]
    assms(3-6)
  by (auto simp: worker_def worker_body_def Let_def counted_def new_result_def)

theorem worker_runs_until_deadline_witness:
  "\<exists>r sock'. worker 3 [((1, ''coil'', 2), 0, 0)] 2
       \<lparr>barrier_wait = None, connect_outcome = None, connect_clock = 5, loop_clock = [5, 6, 8]\<rparr>
       \<lparr>rxq = [Fail TimeoutError], txd = [], tx_oracle = []\<rparr> = Some (Inr r, sock') \<and>
     connected_at r = 5 \<and> iterations r = 2 \<and> checks_passed r + checks_failed r = 2 \<and> exc r = None"
  using worker_runs_until_deadline [of "[((1, ''coil'', 2), 0, 0)]" "\<lparr>rxq = [Fail TimeoutError], txd = [], tx_oracle = []\<rparr>"
      2 "\<lparr>barrier_wait = None, connect_outcome = None, connect_clock = 5, loop_clock = [5, 6, 8]\<rparr>" "[5, 6]" 8 "[]" 3]
  by (simp add: tame_def is_byte_def in_H_def)

text \<open>The staleness test returns once its clock passes the polling deadline; its last
  settings write, on every path through the checks, restores the timeout it read at the start;
  and it passes only if every candidate was stale in the first round and readable in the second
  and the restore was accepted.\<close>

theorem staleness_restores_timeout:
  assumes "m \<noteq> []" and "get_timeout env = Inr (Some v)"
    and "(t, p) \<in> set (polls env)" and "poll_start env + 8 \<le> t"
  shows "\<exists>res posts. run_staleness_test env m = Some (res, posts) \<and> posts \<in> {[1, v], [1, 0, v]} \<and>
     (case res of Inr (True, rep) \<Rightarrow> round_ok (\<lambda>q. q = QException 0x0B) (stale_socks env) 0 (take 5 m) \<and>
        round_ok is_QOk (live_socks env) 0 (take 5 m) \<and> http_accepted (post_restore env) = Inr () | _ \<Rightarrow> True)"
proof -
  obtain r posts where r: "staleness_checks env (take 5 m) [RInfo] = Some (r, posts)"
    using staleness_checks_returns [OF assms(3,4)] by blast
  then have "posts = [1] \<or> posts = [1, 0]" by (rule staleness_checks_posts)
  then show ?thesis
    using r assms(1,2) staleness_checks_passed [of env "take 5 m" "[RInfo]"]
    by (auto simp: run_staleness_test_def Let_def rbind_def split: sum.splits bool.splits prod.splits)
qed

definition stale_demo :: stale_env where
  "stale_demo = \<lparr>get_timeout = Inr (Some 60), post_stale = Inr 200, post_off = Inr 204, post_restore = Inr 200,
     poll_start = 1, polls = [(2, (Some OSError, \<lparr>rxq = [], txd = [], tx_oracle = []\<rparr>)),
                              (10, (Some OSError, \<lparr>rxq = [], txd = [], tx_oracle = []\<rparr>))],
     stale_socks = (\<lambda>_. (Some OSError, \<lparr>rxq = [], txd = [], tx_oracle = []\<rparr>)),
     live_socks = (\<lambda>_. (Some OSError, \<lparr>rxq = [], txd = [], tx_oracle = []\<rparr>))\<rparr>"

theorem staleness_restores_timeout_witness:
  "\<exists>res posts. run_staleness_test stale_demo [((1, ''coil'', 2), 0, 0)] = Some (res, posts) \<and>
     posts \<in> {[1, 60], [1, 0, 60]}"
  using staleness_restores_timeout [of "[((1, ''coil'', 2), 0, 0)]" stale_demo 60 10
      "(Some OSError, \<lparr>rxq = [], txd = [], tx_oracle = []\<rparr>)"]
  by (auto simp: stale_demo_def)

end
