(* ===== verification/Register_Csv.thy ===== *)
theory Register_Csv
  imports Py_Text Modbus_Tcp
begin

text \<open>
  The CSV register map of \<open>modbus_helpers.parse_csv\<close>: the line-by-line automaton of
  \<open>csv.reader\<close> for the default (excel) dialect, \<open>csv.DictReader\<close>'s rows, and the
  loop that turns rows into the register map. A dictionary keeps the position of a key's
  first insertion, so the map is an association list updated in place.
\<close>

section \<open>The reader's automaton\<close>

datatype csv_st = StartRecord | StartField | InField | InQuoted | QuoteInQuoted | EatCrnl

record csv =
  st :: csv_st
  fld :: string
  flds :: "string list"

definition csv_new :: csv where
  "csv_new = \<lparr>st = StartRecord, fld = [], flds = []\<rparr>"

definition save_field :: "csv_st \<Rightarrow> csv \<Rightarrow> csv" where
  "save_field s c = c\<lparr>flds := flds c @ [fld c], fld := [], st := s\<rparr>"

definition add_char :: "csv_st \<Rightarrow> char \<Rightarrow> csv \<Rightarrow> csv" where
  "add_char s ch c = c\<lparr>fld := fld c @ [ch], st := s\<rparr>"

definition is_nl :: "char \<Rightarrow> bool" where
  "is_nl ch \<longleftrightarrow> ch = CHR 0x0A \<or> ch = CHR 0x0D"

text \<open>One character, or the end of a line (\<open>None\<close>).\<close>

definition csv_start_field :: "csv \<Rightarrow> char option \<Rightarrow> csv res" where
  "csv_start_field c x =
     (case x of
        None \<Rightarrow> Inr (save_field StartRecord c)
      | Some ch \<Rightarrow>
          if is_nl ch then Inr (save_field EatCrnl c)
          else if ch = CHR 0x22 then Inr (c\<lparr>st := InQuoted\<rparr>)
          else if ch = CHR '','' then Inr (save_field StartField c)
          else Inr (add_char InField ch c))"

definition csv_step :: "csv \<Rightarrow> char option \<Rightarrow> csv res" where
  "csv_step c x =
     (case st c of
        StartRecord \<Rightarrow>
          (case x of
             None \<Rightarrow> Inr c
           | Some ch \<Rightarrow> if is_nl ch then Inr (c\<lparr>st := EatCrnl\<rparr>) else csv_start_field c x)
      | StartField \<Rightarrow> csv_start_field c x
      | InField \<Rightarrow>
          (case x of
             None \<Rightarrow> Inr (save_field StartRecord c)
           | Some ch \<Rightarrow>
               if is_nl ch then Inr (save_field EatCrnl c)
               else if ch = CHR '','' then Inr (save_field StartField c)
               else Inr (add_char InField ch c))
      | InQuoted \<Rightarrow>
          (case x of
             None \<Rightarrow> Inr c
           | Some ch \<Rightarrow> if ch = CHR 0x22 then Inr (c\<lparr>st := QuoteInQuoted\<rparr>) else Inr (add_char InQuoted ch c))
      | QuoteInQuoted \<Rightarrow>
          (case x of
             None \<Rightarrow> Inr (save_field StartRecord c)
           | Some ch \<Rightarrow>
               if ch = CHR 0x22 then Inr (add_char InQuoted ch c)
               else if ch = CHR '','' then Inr (save_field StartField c)
               else if is_nl ch then Inr (save_field EatCrnl c)
               else Inr (add_char InField ch c))
      | EatCrnl \<Rightarrow>
          (case x of
             None \<Rightarrow> Inr (c\<lparr>st := StartRecord\<rparr>)
           | Some ch \<Rightarrow> if is_nl ch then Inr c else Inl CsvError))"

fun csv_chars :: "csv \<Rightarrow> string \<Rightarrow> csv res" where
  "csv_chars c [] = csv_step c None"
| "csv_chars c (ch # s) = rbind (csv_step c (Some ch)) (\<lambda>c. csv_chars c s)"

text \<open>The lines of a \<open>StringIO\<close>, each with its line feed.\<close>

fun py_lines :: "string \<Rightarrow> string list" where
  "py_lines [] = []"
| "py_lines (ch # s) =
     (if ch = CHR 0x0A then [ch] # py_lines s
      else (case py_lines s of [] \<Rightarrow> [[ch]] | l # ls \<Rightarrow> (ch # l) # ls))"

text \<open>The rows in the order the reader yields them, and the error that ends the iteration, if
  any.\<close>

fun csv_rows :: "csv \<Rightarrow> string list \<Rightarrow> string list list \<times> exn option" where
  "csv_rows c [] = (if st c = StartRecord then ([], None) else ([flds c @ [fld c]], None))"
| "csv_rows c (l # ls) =
     (case csv_chars c l of
        Inl e \<Rightarrow> ([], Some e)
      | Inr c \<Rightarrow>
          if st c = StartRecord then (case csv_rows csv_new ls of (rows, e) \<Rightarrow> (flds c # rows, e))
          else csv_rows c ls)"

section \<open>Dictionary rows\<close>

type_synonym dict_row = "string \<rightharpoonup> string option"

text \<open>A row shorter than the header leaves the missing columns \<open>None\<close>; the last of two
  columns with one name wins; blank rows are skipped.\<close>

definition dict_row :: "string list \<Rightarrow> string list \<Rightarrow> dict_row" where
  "dict_row fieldnames row =
     map_of (rev (zip fieldnames (map Some row @ replicate (length fieldnames - length row) None)))"

definition dict_reader :: "string list list \<Rightarrow> dict_row list" where
  "dict_reader rows =
     (case rows of [] \<Rightarrow> [] | header # body \<Rightarrow> map (dict_row header) (filter (\<lambda>r. r \<noteq> []) body))"

definition row_text :: "dict_row \<Rightarrow> string \<Rightarrow> exn \<Rightarrow> string res" where
  "row_text row k missing =
     (case row k of None \<Rightarrow> Inl KeyError | Some None \<Rightarrow> Inl missing | Some (Some v) \<Rightarrow> Inr v)"

definition row_int :: "dict_row \<Rightarrow> string \<Rightarrow> int res" where
  "row_int row k = rbind (row_text row k TypeError) py_int_res"

definition row_entry :: "dict_row \<Rightarrow> (reg_key \<times> (int \<times> int)) res" where
  "row_entry row =
     rbind (row_int row ''slave_id'') (\<lambda>slave_id.
     rbind (rbind (row_text row ''type'' AttributeError) (\<lambda>v. Inr (py_strip v))) (\<lambda>reg_type.
     rbind (row_int row ''address'') (\<lambda>address.
     rbind (row_int row ''value'') (\<lambda>value.
     rbind (row_int row ''age_s'') (\<lambda>age_s.
     Inr ((slave_id, reg_type, address), (value, age_s)))))))"

fun dict_set :: "'k \<Rightarrow> 'v \<Rightarrow> ('k \<times> 'v) list \<Rightarrow> ('k \<times> 'v) list" where
  "dict_set k v [] = [(k, v)]"
| "dict_set k v ((k', v') # m) = (if k' = k then (k, v) # m else (k', v') # dict_set k v m)"

fun parse_rows :: "register_map \<Rightarrow> dict_row list \<Rightarrow> register_map res" where
  "parse_rows m [] = Inr m"
| "parse_rows m (row # rows) =
     (case row_entry row of
        Inl e \<Rightarrow> if e = KeyError \<or> e = ValueError then parse_rows m rows else Inl e
      | Inr ((slave_id, reg_type, address), v) \<Rightarrow>
          if TYPE_TO_FC reg_type = None then parse_rows m rows
          else parse_rows (dict_set (slave_id, reg_type, address) v m) rows)"

definition parse_csv :: "string \<Rightarrow> register_map res" where
  "parse_csv raw_csv =
     (case csv_rows csv_new (py_lines raw_csv) of
        (rows, err) \<Rightarrow> rbind (parse_rows [] (dict_reader rows)) (\<lambda>m.
          case err of None \<Rightarrow> Inr m | Some e \<Rightarrow> Inl e))"

section \<open>Dictionaries\<close>

lemma map_of_dict_set [simp]: "map_of (dict_set k v m) = (map_of m)(k \<mapsto> v)"
  by (induction m) auto

lemma distinct_dict_set: "distinct (map fst m) \<Longrightarrow> distinct (map fst (dict_set k v m))"
proof -
  have "fst ` set (dict_set k v m) = insert k (fst ` set m)" for m :: "('a \<times> 'b) list"
    by (simp flip: dom_map_of_conv_image_fst)
  then show "distinct (map fst m) \<Longrightarrow> distinct (map fst (dict_set k v m))"
    by (induction m) auto
qed

lemma dict_set_new: "k \<notin> fst ` set m \<Longrightarrow> dict_set k v m = m @ [(k, v)]"
  by (induction m) auto

section \<open>Reading plain lines\<close>

text \<open>Field text without separators, quotes or line ends is read back as it is.\<close>

definition plain :: "string \<Rightarrow> bool" where
  "plain s \<longleftrightarrow> list_all (\<lambda>ch. ch \<noteq> CHR '','' \<and> ch \<noteq> CHR 0x22 \<and> \<not> is_nl ch) s"

lemma plain_simps [simp]:
  "plain [] \<longleftrightarrow> True"
  "plain (ch # s) \<longleftrightarrow> ch \<noteq> CHR '','' \<and> ch \<noteq> CHR 0x22 \<and> \<not> is_nl ch \<and> plain s"
  "plain (s @ t) \<longleftrightarrow> plain s \<and> plain t"
  by (auto simp: plain_def)

lemma csv_in_field:
  "plain s \<Longrightarrow> st c = InField \<Longrightarrow> csv_chars c (s @ r) = csv_chars (c\<lparr>fld := fld c @ s\<rparr>) r"
proof (induction s arbitrary: c)
  case (Cons ch s)
  then have "csv_step c (Some ch) = Inr (add_char InField ch c)" by (simp add: csv_step_def)
  with Cons show ?case by (cases c) (simp add: add_char_def)
qed simp

lemma csv_field:
  assumes "plain s" "s \<noteq> []" "st c = StartField \<or> st c = StartRecord" "fld c = []"
  shows "csv_chars c (s @ r) = csv_chars (c\<lparr>fld := s, st := InField\<rparr>) r"
proof -
  obtain ch t where s: "s = ch # t" using assms(2) by (cases s) auto
  with assms have "csv_step c (Some ch) = Inr (add_char InField ch c)"
    by (auto simp: csv_step_def csv_start_field_def)
  with s assms csv_in_field [of t "add_char InField ch c" r] show ?thesis
    by (cases c) (simp add: add_char_def)
qed

definition crlf :: string where "crlf = [CHR 0x0D, CHR 0x0A]"

lemma csv_fields_line:
  assumes "list_all (\<lambda>f. plain f \<and> f \<noteq> []) fs" "fs \<noteq> []"
    and "st c = StartField \<or> st c = StartRecord" "fld c = []"
  shows "csv_chars c (py_join '','' fs @ crlf) = Inr \<lparr>st = StartRecord, fld = [], flds = flds c @ fs\<rparr>"
  using assms
proof (induction "'',''" fs arbitrary: c rule: py_join.induct)
  case (2 w)
  then show ?case
    by (simp add: csv_field) (simp add: crlf_def csv_step_def is_nl_def save_field_def)
next
  case (3 w v ws)
  let ?c = "c\<lparr>fld := w, st := InField\<rparr>"
  have "csv_chars c (py_join '','' (w # v # ws) @ crlf) = csv_chars ?c ('','' @ py_join '','' (v # ws) @ crlf)"
    using 3(2-) by (simp add: csv_field)
  also have "\<dots> = csv_chars (save_field StartField ?c) (py_join '','' (v # ws) @ crlf)"
    by (simp add: csv_step_def is_nl_def)
  also have "\<dots> = Inr \<lparr>st = StartRecord, fld = [], flds = flds (save_field StartField ?c) @ v # ws\<rparr>"
    using 3(2-) by (intro 3(1)) (auto simp: save_field_def)
  finally show ?case by (simp add: save_field_def)
qed simp

lemma py_lines_line:
  "CHR 0x0A \<notin> set s \<Longrightarrow> py_lines (s @ crlf @ r) = (s @ crlf) # py_lines r"
proof (induction s)
  case Nil
  show ?case by (cases "py_lines r") (auto simp: crlf_def)
next
  case (Cons ch s)
  then show ?case by auto
qed

lemma set_py_join: "set (py_join sep fs) \<subseteq> set sep \<union> \<Union> (set ` set fs)"
  by (induction sep fs rule: py_join.induct) auto

lemma plain_join_line: "list_all plain fs \<Longrightarrow> CHR 0x0A \<notin> set (py_join '','' fs)"
proof
  assume p: "list_all plain fs" and "CHR 0x0A \<in> set (py_join '','' fs)"
  then obtain f where "f \<in> set fs" "CHR 0x0A \<in> set f" using set_py_join [of "'',''" fs] by auto
  with p show False by (auto simp: plain_def list_all_iff is_nl_def)
qed

lemma plain_py_str: "plain (py_str v)" "py_str v \<noteq> []"
proof -
  have "is_digit ch \<Longrightarrow> ch \<noteq> CHR '','' \<and> ch \<noteq> CHR 0x22 \<and> \<not> is_nl ch" for ch
    by (auto simp: is_digit_def is_nl_def)
  then have "plain (str_nat n)" for n
    using str_nat_digits [of n] by (auto simp: plain_def list_all_iff)
  then show "plain (py_str v)" "py_str v \<noteq> []"
    using str_nat_digits by (auto simp: py_str_def is_nl_def)
qed

text \<open>The table a register map prints as.\<close>

definition csv_header :: "string list" where
  "csv_header = [''slave_id'', ''type'', ''address'', ''value'', ''age_s'']"

fun entry_fields :: "reg_key \<times> (int \<times> int) \<Rightarrow> string list" where
  "entry_fields ((slave_id, reg_type, address), (value, age_s)) =
     [py_str slave_id, reg_type, py_str address, py_str value, py_str age_s]"

definition csv_lines :: "string list list \<Rightarrow> string" where
  "csv_lines rows = concat (map (\<lambda>fs. py_join '','' fs @ crlf) rows)"

definition csv_text :: "register_map \<Rightarrow> string" where
  "csv_text m = csv_lines (csv_header # map entry_fields m)"

fun known_type :: "reg_key \<times> (int \<times> int) \<Rightarrow> bool" where
  "known_type ((_, reg_type, _), _) \<longleftrightarrow> reg_type \<in> {''holding'', ''input'', ''coil'', ''discrete''}"

definition plain_row :: "string list \<Rightarrow> bool" where
  "plain_row fs \<longleftrightarrow> fs \<noteq> [] \<and> list_all (\<lambda>f. plain f \<and> f \<noteq> []) fs"

lemma csv_rows_lines:
  "list_all plain_row rows \<Longrightarrow> csv_rows csv_new (py_lines (csv_lines rows @ r)) =
     (case csv_rows csv_new (py_lines r) of (more_rows, e) \<Rightarrow> (rows @ more_rows, e))"
proof (induction rows)
  case Nil
  then show ?case by (simp add: csv_lines_def split: prod.split)
next
  case (Cons fs rows)
  have fs: "fs \<noteq> []" "list_all (\<lambda>f. plain f \<and> f \<noteq> []) fs" "list_all plain fs"
    using Cons.prems by (auto simp: plain_row_def list_all_iff)
  have "csv_lines (fs # rows) @ r = py_join '','' fs @ crlf @ (csv_lines rows @ r)"
    by (simp add: csv_lines_def)
  then have "py_lines (csv_lines (fs # rows) @ r) = (py_join '','' fs @ crlf) # py_lines (csv_lines rows @ r)"
    using py_lines_line [OF plain_join_line [OF fs(3)]] by metis
  with csv_fields_line [OF fs(2,1), of csv_new] Cons show ?case
    by (simp add: csv_new_def split: prod.splits)
qed

lemma known_type_plain:
  assumes "known_type ((s, t, a), v)"
  shows "plain t \<and> t \<noteq> [] \<and> py_strip t = t \<and> TYPE_TO_FC t \<noteq> None"
proof -
  have "plain x \<and> py_strip x = x" if "x \<in> {''holding'', ''input'', ''coil'', ''discrete''}" for x
  proof -
    have "list_all (\<lambda>x. plain x \<and> py_strip x = x) [''holding'', ''input'', ''coil'', ''discrete'']"
      by code_simp
    with that show ?thesis by auto
  qed
  with assms show ?thesis using type_to_fc_known [of t] by auto
qed

lemma plain_header: "plain_row csv_header"
  by (simp add: plain_row_def csv_header_def is_nl_def)

lemma plain_entry: "known_type e \<Longrightarrow> plain_row (entry_fields e)"
proof -
  assume k: "known_type e"
  obtain s t a v g where e: "e = ((s, t, a), (v, g))" by (metis prod.exhaust)
  show ?thesis using known_type_plain [OF k [unfolded e]] plain_py_str by (simp add: e plain_row_def)
qed

lemma dict_row_header:
  "length fs = 5 \<Longrightarrow> dict_row csv_header fs ''slave_id'' = Some (Some (fs ! 0))"
  "length fs = 5 \<Longrightarrow> dict_row csv_header fs ''type'' = Some (Some (fs ! 1))"
  "length fs = 5 \<Longrightarrow> dict_row csv_header fs ''address'' = Some (Some (fs ! 2))"
  "length fs = 5 \<Longrightarrow> dict_row csv_header fs ''value'' = Some (Some (fs ! 3))"
  "length fs = 5 \<Longrightarrow> dict_row csv_header fs ''age_s'' = Some (Some (fs ! 4))"
  by (auto simp: dict_row_def csv_header_def length_Suc_conv numeral_eq_Suc)

lemma row_entry_header:
  "known_type e \<Longrightarrow> row_entry (dict_row csv_header (entry_fields e)) = Inr e"
proof -
  assume k: "known_type e"
  obtain s t a v g where e: "e = ((s, t, a), (v, g))" by (metis prod.exhaust)
  show ?thesis using known_type_plain [OF k [unfolded e]]
    by (simp add: e row_entry_def row_int_def row_text_def dict_row_header py_int_res_def)
qed

lemma parse_rows_entries:
  assumes "list_all known_type es" "distinct (map fst (m @ es))"
  shows "parse_rows m (map (dict_row csv_header) (map entry_fields es) @ rows) = parse_rows (m @ es) rows"
  using assms
proof (induction es arbitrary: m)
  case (Cons e es)
  obtain s t a v where e: "e = ((s, t, a), v)" by (metis prod.exhaust)
  have "dict_set (s, t, a) v m = m @ [e]"
    using Cons.prems(2) e by (intro trans [OF dict_set_new]) auto
  moreover have "known_type ((s, t, a), v)" using Cons.prems(1) e by simp
  ultimately show ?case using Cons.IH [of "m @ [e]"] Cons.prems e row_entry_header [of e]
      known_type_plain [of s t a v]
    by (auto simp del: known_type.simps)
qed simp

lemma entries_nonempty: "filter (\<lambda>r. r \<noteq> []) (map entry_fields es) = map entry_fields es"
  by (rule filter_True) (auto elim: entry_fields.elims)

section \<open>Properties\<close>

text \<open>C38: a register table printed as CSV with the device's header and line ends is read back as
  the same map, entry by entry and in order.\<close>

theorem csv_roundtrip:
  assumes "list_all known_type m" and "distinct (map fst m)"
  shows "parse_csv (csv_text m) = Inr m"
proof -
  have "list_all plain_row (csv_header # map entry_fields m)"
    using assms(1) plain_header plain_entry by (auto simp: list_all_iff)
  then have "csv_rows csv_new (py_lines (csv_text m)) = (csv_header # map entry_fields m, None)"
    using csv_rows_lines [of "csv_header # map entry_fields m" "[]"]
    by (simp add: csv_text_def csv_new_def)
  then show ?thesis
    using parse_rows_entries [of m "[]" "[]"] assms
    by (simp add: parse_csv_def dict_reader_def entries_nonempty del: map_map)
qed

theorem csv_roundtrip_witness:
  "parse_csv (csv_text [((1, ''holding'', 40), (1234, 7)), ((247, ''coil'', 0), (1, 65535))])
     = Inr [((1, ''holding'', 40), (1234, 7)), ((247, ''coil'', 0), (1, 65535))]"
  by (rule csv_roundtrip) simp_all

lemma parse_rows_wf:
  "parse_rows m rows = Inr m' \<Longrightarrow> distinct (map fst m) \<Longrightarrow> list_all known_type m \<Longrightarrow>
   distinct (map fst m') \<and> list_all known_type m'"
proof (induction rows arbitrary: m)
  case (Cons row rows)
  have k: "list_all known_type (dict_set k v m)" if "list_all known_type m" "known_type (k, v)" for k v
    using that by (induction m) (auto simp del: known_type.simps split: if_splits)
  show ?case
  proof (cases "row_entry row")
    case (Inl e)
    then have "parse_rows m rows = Inr m'" using Cons.prems(1) by (auto split: if_splits)
    then show ?thesis using Cons.IH Cons.prems(2,3) by blast
  next
    case (Inr x)
    obtain s t a v where x: "x = ((s, t, a), v)" by (metis prod.exhaust)
    show ?thesis
    proof (cases "TYPE_TO_FC t = None")
      case True
      then have "parse_rows m rows = Inr m'" using Cons.prems(1) Inr x by simp
      then show ?thesis using Cons.IH Cons.prems(2,3) by blast
    next
      case False
      then have "known_type ((s, t, a), v)" using type_to_fc_known [of t] by simp
      then have "distinct (map fst (dict_set (s, t, a) v m))" "list_all known_type (dict_set (s, t, a) v m)"
        using k [OF Cons.prems(3)] distinct_dict_set [OF Cons.prems(2)] by auto
      with Cons.IH [of "dict_set (s, t, a) v m"] Cons.prems(1) Inr x False show ?thesis by simp
    qed
  qed
qed simp

text \<open>Whatever text is read, a map it yields has distinct keys and only the four known
  register types, so every key has a function code.\<close>

theorem csv_map_well_formed:
  assumes "parse_csv raw_csv = Inr m"
  shows "distinct (map fst m) \<and> list_all known_type m"
proof -
  obtain rows err where "csv_rows csv_new (py_lines raw_csv) = (rows, err)" by fastforce
  with assms have "parse_rows [] (dict_reader rows) = Inr m"
    by (auto simp: parse_csv_def rbind_eq_Inr split: option.splits)
  then show ?thesis by (rule parse_rows_wf) simp_all
qed

theorem csv_map_well_formed_witness:
  "parse_csv (''slave_id,type,address,value,age_s\<newline>1,coil,2,3,4\<newline>1,foo,2,3,4\<newline>1,coil,2,5,6'')
     = Inr [((1, ''coil'', 2), (5, 6))] \<and>
   distinct (map fst ([((1, ''coil'', 2), (5, 6))] :: register_map)) \<and> list_all known_type [((1, ''coil'', 2), (5, 6))]"
proof -
  have "parse_csv (''slave_id,type,address,value,age_s\<newline>1,coil,2,3,4\<newline>1,foo,2,3,4\<newline>1,coil,2,5,6'')
     = Inr [((1, ''coil'', 2), (5, 6))]" by code_simp
  from this csv_map_well_formed [OF this] show ?thesis by blast
qed

text \<open>A row that ends before the address column, behind any good rows, makes the whole parse
  raise \<open>TypeError\<close>: the handler that skips malformed rows catches only \<open>KeyError\<close> and
  \<open>ValueError\<close>, and \<open>int(None)\<close> raises neither.\<close>

theorem csv_short_row_raises:
  assumes "list_all known_type m" and "distinct (map fst m)" and "known_type ((slave_id, reg_type, a), v)"
  shows "parse_csv (csv_text m @ csv_lines [[py_str slave_id, reg_type]] @ tail) = Inl TypeError"
proof -
  let ?rows = "csv_header # map entry_fields m @ [[py_str slave_id, reg_type]]"
  obtain more_rows err where r: "csv_rows csv_new (py_lines tail) = (more_rows, err)" by fastforce
  note k = known_type_plain [OF assms(3)]
  have "plain_row [py_str slave_id, reg_type]" using k plain_py_str by (simp add: plain_row_def)
  then have "list_all plain_row ?rows" using assms(1) plain_header plain_entry by (auto simp: list_all_iff)
  then have read: "csv_rows csv_new (py_lines (csv_lines ?rows @ tail)) = (?rows @ more_rows, err)"
    using csv_rows_lines [of ?rows tail] r by simp
  have unfolded: "csv_text m @ csv_lines [[py_str slave_id, reg_type]] @ tail = csv_lines ?rows @ tail"
    by (simp add: csv_text_def csv_lines_def)
  have "row_entry (dict_row csv_header [py_str slave_id, reg_type]) = Inl TypeError"
    using k by (simp add: row_entry_def row_int_def row_text_def dict_row_def csv_header_def py_int_res_def
        numeral_eq_Suc)
  then show ?thesis
    using parse_rows_entries [of m "[]"] assms(1,2) unfolding parse_csv_def unfolded read
    by (simp add: dict_reader_def entries_nonempty del: map_map)
qed

theorem csv_short_row_raises_witness:
  "parse_csv (csv_text [((1, ''coil'', 2), (5, 6))] @ csv_lines [[''9'', ''input'']] @ ''1,coil,3,0,0'') = Inl TypeError"
proof -
  have "py_str 9 = ''9''" by code_simp
  then show ?thesis
    using csv_short_row_raises [of "[((1, ''coil'', 2), (5, 6))]" 9 "''input''" 0 "(0, 0)" "''1,coil,3,0,0''"] by simp
qed

end
