(* ===== verification/Qemu_Ports.thy ===== *)
theory Qemu_Ports
  imports Py_Text
begin

text \<open>
  The port blocks of \<open>api_tests/qemu_ports.py\<close>: how a run derives its slot ceiling from
  the kernel's ephemeral port range, how it resolves its slot from the environment, the host
  ports of a slot and the QEMU arguments built from them.
  The module-level constants that Python computes at import time are functions of the slot
  and of the ephemeral floor here.
\<close>

definition BLOCK_BASE :: int where "BLOCK_BASE = 21000"
definition BLOCK_SIZE :: int where "BLOCK_SIZE = 16"
definition DEFAULT_EPHEMERAL_FLOOR :: int where "DEFAULT_EPHEMERAL_FLOOR = 32768"

section \<open>The slot ceiling\<close>

text \<open>The argument is what reading \<open>ip_local_port_range\<close> gives: its text or the exception
  of \<open>open\<close> or \<open>read\<close>.\<close>

definition read_low :: "string res \<Rightarrow> int res" where
  "read_low contents = rbind contents (\<lambda>txt.
     case py_words txt of [] \<Rightarrow> Inl IndexError | w # _ \<Rightarrow> py_int_res w)"

definition ephemeral_floor :: "string res \<Rightarrow> (int \<times> int option) res" where
  "ephemeral_floor contents =
     (case read_low contents of
        Inl e \<Rightarrow> if is_OSError e \<or> e = ValueError \<or> e = IndexError
                  then Inr (DEFAULT_EPHEMERAL_FLOOR, None) else Inl e
      | Inr low \<Rightarrow>
          if low > BLOCK_BASE + BLOCK_SIZE then Inr (low, Some low)
          else Inr (DEFAULT_EPHEMERAL_FLOOR, Some low))"

definition MAX_SLOT :: "int \<Rightarrow> int" where
  "MAX_SLOT flr = (flr - BLOCK_BASE) div BLOCK_SIZE - 1"

text \<open>Which of the three wordings \<open>_ceiling_reason\<close> picks.\<close>

datatype ceiling_reason = AssumedFloor | ObservedFloor | OnlyConvention

definition ceiling_reason_of :: "int \<Rightarrow> int option \<Rightarrow> ceiling_reason" where
  "ceiling_reason_of flr observed =
     (case observed of
        None \<Rightarrow> AssumedFloor
      | Some low \<Rightarrow> if low = flr then ObservedFloor else OnlyConvention)"

section \<open>The slot\<close>

definition parse_slot :: "int \<Rightarrow> string \<Rightarrow> int res" where
  "parse_slot max_slot raw = rbind (py_int_res raw) (\<lambda>slot.
     if slot < 0 \<or> slot > max_slot then Inl ValueError else Inr slot)"

datatype slot_source = WB_MGE_PORT_SLOT | EXECUTOR_NUMBER | PYTEST_XDIST_WORKER | Default_slot

definition env_get :: "(string \<rightharpoonup> string) \<Rightarrow> string \<Rightarrow> string" where
  "env_get environ k = (case environ k of None \<Rightarrow> '''' | Some v \<Rightarrow> v)"

definition slot_from_worker :: "int \<Rightarrow> (string \<rightharpoonup> string) \<Rightarrow> int \<times> slot_source" where
  "slot_from_worker max_slot environ =
     (let worker = env_get environ ''PYTEST_XDIST_WORKER'' in
      if py_startswith worker ''gw'' \<and> py_isdigit (drop 2 worker) then
        (case parse_slot max_slot (drop 2 worker) of
           Inr slot \<Rightarrow> (slot, PYTEST_XDIST_WORKER)
         | Inl _ \<Rightarrow> (0, Default_slot))
      else (0, Default_slot))"

definition slot_from_env :: "int \<Rightarrow> (string \<rightharpoonup> string) \<Rightarrow> (int \<times> slot_source) res" where
  "slot_from_env max_slot environ =
     (let raw = py_strip (env_get environ ''WB_MGE_PORT_SLOT'') in
      if raw \<noteq> [] then rbind (parse_slot max_slot raw) (\<lambda>slot. Inr (slot, WB_MGE_PORT_SLOT))
      else
        (let raw = py_strip (env_get environ ''EXECUTOR_NUMBER'') in
         if raw \<noteq> [] then
           (case parse_slot max_slot raw of
              Inr slot \<Rightarrow> Inr (slot, EXECUTOR_NUMBER)
            | Inl _ \<Rightarrow> Inr (slot_from_worker max_slot environ))
         else Inr (slot_from_worker max_slot environ)))"

section \<open>The ports of a slot\<close>

definition BLOCK_START :: "int \<Rightarrow> int" where "BLOCK_START slot = BLOCK_BASE + slot * BLOCK_SIZE"

definition HTTP_HOST_PORT :: "int \<Rightarrow> int" where "HTTP_HOST_PORT slot = BLOCK_START slot + 0"
definition ALT_WEB_HOST_PORT :: "int \<Rightarrow> int" where "ALT_WEB_HOST_PORT slot = BLOCK_START slot + 1"
definition GATEWAY_HOST_PORT :: "int \<Rightarrow> int" where "GATEWAY_HOST_PORT slot = BLOCK_START slot + 2"
definition TRANSPARENT_PORT2_HOST_PORT :: "int \<Rightarrow> int" where
  "TRANSPARENT_PORT2_HOST_PORT slot = BLOCK_START slot + 3"
definition CACHE_MODBUS_HOST_PORT :: "int \<Rightarrow> int" where
  "CACHE_MODBUS_HOST_PORT slot = BLOCK_START slot + 4"
definition IO_BUS_UDP_PORT :: "int \<Rightarrow> int" where "IO_BUS_UDP_PORT slot = BLOCK_START slot + 5"
definition UART1_TCP_PORT :: "int \<Rightarrow> int" where "UART1_TCP_PORT slot = BLOCK_START slot + 6"
definition UART2_TCP_PORT :: "int \<Rightarrow> int" where "UART2_TCP_PORT slot = BLOCK_START slot + 7"

definition GUEST_HTTP :: int where "GUEST_HTTP = 80"
definition GUEST_ALT_WEB :: int where "GUEST_ALT_WEB = 8081"
definition GUEST_GATEWAY :: int where "GUEST_GATEWAY = 502"
definition GUEST_TRANSPARENT_P2 :: int where "GUEST_TRANSPARENT_P2 = 503"
definition GUEST_CACHE_MODBUS :: int where "GUEST_CACHE_MODBUS = 50504"
definition GUEST_IO_BUS :: int where "GUEST_IO_BUS = 5570"

definition MY_TCP_HOST_PORTS :: "int \<Rightarrow> int list" where
  "MY_TCP_HOST_PORTS slot =
     [HTTP_HOST_PORT slot, ALT_WEB_HOST_PORT slot, GATEWAY_HOST_PORT slot,
      TRANSPARENT_PORT2_HOST_PORT slot, CACHE_MODBUS_HOST_PORT slot, UART1_TCP_PORT slot,
      UART2_TCP_PORT slot]"

definition MY_UDP_HOST_PORTS :: "int \<Rightarrow> int list" where
  "MY_UDP_HOST_PORTS slot = [IO_BUS_UDP_PORT slot]"

section \<open>QEMU arguments\<close>

definition HOST :: string where "HOST = ''127.0.0.1''"

definition hostfwd :: "string \<Rightarrow> int \<Rightarrow> int \<Rightarrow> string" where
  "hostfwd proto host_port guest_port =
     ''hostfwd='' @ proto @ '':'' @ HOST @ '':'' @ py_str host_port @ ''-:'' @ py_str guest_port"

definition qemu_nic_arg :: "int \<Rightarrow> string" where
  "qemu_nic_arg slot =
     ''user,model=open_eth,'' @
     hostfwd ''tcp'' (HTTP_HOST_PORT slot) GUEST_HTTP @ '','' @
     hostfwd ''tcp'' (ALT_WEB_HOST_PORT slot) GUEST_ALT_WEB @ '','' @
     hostfwd ''tcp'' (GATEWAY_HOST_PORT slot) GUEST_GATEWAY @ '','' @
     hostfwd ''tcp'' (TRANSPARENT_PORT2_HOST_PORT slot) GUEST_TRANSPARENT_P2 @ '','' @
     hostfwd ''tcp'' (CACHE_MODBUS_HOST_PORT slot) GUEST_CACHE_MODBUS @ '','' @
     hostfwd ''udp'' (IO_BUS_UDP_PORT slot) GUEST_IO_BUS"

definition qemu_serial_args :: "int \<Rightarrow> string list" where
  "qemu_serial_args slot =
     [''-serial'', ''tcp::'' @ py_str (UART1_TCP_PORT slot) @ '',server,nowait'',
      ''-serial'', ''tcp::'' @ py_str (UART2_TCP_PORT slot) @ '',server,nowait'']"

definition qemu_serial_args_str :: "int \<Rightarrow> string" where
  "qemu_serial_args_str slot = py_join '' '' (qemu_serial_args slot)"

fun source_name :: "slot_source \<Rightarrow> string" where
  "source_name WB_MGE_PORT_SLOT = ''WB_MGE_PORT_SLOT''"
| "source_name EXECUTOR_NUMBER = ''EXECUTOR_NUMBER''"
| "source_name PYTEST_XDIST_WORKER = ''PYTEST_XDIST_WORKER''"
| "source_name Default_slot = ''default''"

definition port_summary :: "int \<Rightarrow> slot_source \<Rightarrow> string" where
  "port_summary slot src =
     ''slot '' @ py_str slot @ '' (from '' @ source_name src @ ''): '' @
     ''web='' @ py_str (HTTP_HOST_PORT slot) @ ''->80 altweb='' @ py_str (ALT_WEB_HOST_PORT slot) @ ''->'' @
     py_str GUEST_ALT_WEB @ '' '' @
     ''gateway='' @ py_str (GATEWAY_HOST_PORT slot) @ ''->'' @ py_str GUEST_GATEWAY @ '' '' @
     ''bridge2='' @ py_str (TRANSPARENT_PORT2_HOST_PORT slot) @ ''->'' @ py_str GUEST_TRANSPARENT_P2 @ '' '' @
     ''cache/bridge1='' @ py_str (CACHE_MODBUS_HOST_PORT slot) @ ''->'' @ py_str GUEST_CACHE_MODBUS @ '' '' @
     ''io-bus/udp='' @ py_str (IO_BUS_UDP_PORT slot) @ ''->'' @ py_str GUEST_IO_BUS @ '' '' @
     ''uart1='' @ py_str (UART1_TCP_PORT slot) @ '' uart2='' @ py_str (UART2_TCP_PORT slot)"

section \<open>Lemmas\<close>

lemmas port_defs = HTTP_HOST_PORT_def ALT_WEB_HOST_PORT_def GATEWAY_HOST_PORT_def
  TRANSPARENT_PORT2_HOST_PORT_def CACHE_MODBUS_HOST_PORT_def IO_BUS_UDP_PORT_def
  UART1_TCP_PORT_def UART2_TCP_PORT_def MY_TCP_HOST_PORTS_def MY_UDP_HOST_PORTS_def

lemma ephemeral_floor_high: "ephemeral_floor contents = Inr (flr, obs) \<Longrightarrow> 21016 < flr"
  by (auto simp: ephemeral_floor_def BLOCK_BASE_def BLOCK_SIZE_def DEFAULT_EPHEMERAL_FLOOR_def
      split: sum.splits if_splits)

lemma max_slot_nonneg: "21016 \<le> flr \<Longrightarrow> 0 \<le> MAX_SLOT flr"
  by (simp add: MAX_SLOT_def BLOCK_BASE_def BLOCK_SIZE_def)

lemma block_below_floor: "slot \<le> MAX_SLOT flr \<Longrightarrow> BLOCK_START slot + 15 < flr"
  by (simp add: MAX_SLOT_def BLOCK_START_def BLOCK_BASE_def BLOCK_SIZE_def)

lemma parse_slot_Inr: "parse_slot mx raw = Inr slot \<longleftrightarrow> py_int raw = Some slot \<and> 0 \<le> slot \<and> slot \<le> mx"
  by (auto simp: parse_slot_def py_int_res_def split: option.splits)

lemma parse_slot_raises: "raises_only {ValueError} (parse_slot mx raw)"
  by (auto simp: raises_only_def parse_slot_def py_int_res_def split: option.splits if_splits)

lemma slot_from_worker_bounds:
  "0 \<le> mx \<Longrightarrow> 0 \<le> fst (slot_from_worker mx environ) \<and> fst (slot_from_worker mx environ) \<le> mx"
  by (auto simp: slot_from_worker_def Let_def parse_slot_Inr split: sum.splits)

section \<open>Properties\<close>

text \<open>C27: port isolation. On every host, the ports of an admitted slot are pairwise distinct, lie
  in the slot's own 16-port block from 21000 up and stay below the ephemeral floor the ceiling
  was derived from; and the blocks of two different slots share no port.\<close>

theorem slots_share_no_port:
  assumes "ephemeral_floor contents = Inr (flr, obs)"
    and "0 \<le> slot" and "slot \<le> MAX_SLOT flr"
  shows "distinct (MY_TCP_HOST_PORTS slot @ MY_UDP_HOST_PORTS slot) \<and>
     set (MY_TCP_HOST_PORTS slot @ MY_UDP_HOST_PORTS slot) \<subseteq> {21000..<flr} \<and>
     (slot' \<noteq> slot \<longrightarrow>
       set (MY_TCP_HOST_PORTS slot @ MY_UDP_HOST_PORTS slot) \<inter>
       set (MY_TCP_HOST_PORTS slot' @ MY_UDP_HOST_PORTS slot') = {})"
proof (intro conjI impI)
  have in_block: "set (MY_TCP_HOST_PORTS s @ MY_UDP_HOST_PORTS s) \<subseteq> {BLOCK_START s..BLOCK_START s + 15}" for s
    by (simp add: port_defs)
  show "distinct (MY_TCP_HOST_PORTS slot @ MY_UDP_HOST_PORTS slot)" by (simp add: port_defs)
  have "21000 \<le> BLOCK_START slot" using assms(2) by (simp add: BLOCK_START_def BLOCK_BASE_def BLOCK_SIZE_def)
  with in_block [of slot] block_below_floor [OF assms(3)]
  show "set (MY_TCP_HOST_PORTS slot @ MY_UDP_HOST_PORTS slot) \<subseteq> {21000..<flr}" by fastforce
  assume "slot' \<noteq> slot"
  then have "{BLOCK_START slot..BLOCK_START slot + 15} \<inter> {BLOCK_START slot'..BLOCK_START slot' + 15} = {}"
    by (auto simp: BLOCK_START_def BLOCK_BASE_def BLOCK_SIZE_def)
  with in_block [of slot] in_block [of slot']
  show "set (MY_TCP_HOST_PORTS slot @ MY_UDP_HOST_PORTS slot) \<inter>
     set (MY_TCP_HOST_PORTS slot' @ MY_UDP_HOST_PORTS slot') = {}" by blast
qed

theorem slots_share_no_port_witness:
  "distinct (MY_TCP_HOST_PORTS 734 @ MY_UDP_HOST_PORTS 734) \<and>
   set (MY_TCP_HOST_PORTS 734 @ MY_UDP_HOST_PORTS 734) \<subseteq> {21000..<32768} \<and>
   set (MY_TCP_HOST_PORTS 734 @ MY_UDP_HOST_PORTS 734) \<inter> set (MY_TCP_HOST_PORTS 3 @ MY_UDP_HOST_PORTS 3) = {}"
proof -
  have "ephemeral_floor (Inr ''1024 65535'') = Inr (32768, Some 1024)" by code_simp
  moreover have "(734 :: int) \<le> MAX_SLOT 32768" by code_simp
  ultimately show ?thesis
    using slots_share_no_port [of "Inr ''1024 65535''" 32768 "Some 1024" 734 3] by simp
qed

text \<open>Slot resolution. With the ceiling of any host, the run ends up with a slot the host
  admits, unless \<open>WB_MGE_PORT_SLOT\<close> itself is set to something unusable, which is the one way
  resolution can fail; a usable \<open>WB_MGE_PORT_SLOT\<close> wins over the other variables.\<close>

theorem slot_resolution:
  assumes "ephemeral_floor contents = Inr (flr, obs)"
    and "raw = py_strip (env_get environ ''WB_MGE_PORT_SLOT'')"
  shows "case slot_from_env (MAX_SLOT flr) environ of
       Inr (slot, src) \<Rightarrow> 0 \<le> slot \<and> slot \<le> MAX_SLOT flr \<and>
         (if raw = [] then src \<noteq> WB_MGE_PORT_SLOT else src = WB_MGE_PORT_SLOT \<and> py_int raw = Some slot)
     | Inl e \<Rightarrow> e = ValueError \<and> raw \<noteq> [] \<and>
         (case py_int raw of None \<Rightarrow> True | Some v \<Rightarrow> v < 0 \<or> MAX_SLOT flr < v)"
proof -
  have mx: "0 \<le> MAX_SLOT flr"
    using ephemeral_floor_high [OF assms(1)] by (intro max_slot_nonneg) simp
  have w: "0 \<le> fst (slot_from_worker (MAX_SLOT flr) environ)"
    "fst (slot_from_worker (MAX_SLOT flr) environ) \<le> MAX_SLOT flr"
    "snd (slot_from_worker (MAX_SLOT flr) environ) \<noteq> WB_MGE_PORT_SLOT"
    using slot_from_worker_bounds [OF mx] by (auto simp: slot_from_worker_def Let_def split: sum.splits)
  show ?thesis
  proof (cases "raw = []")
    case True
    with assms(2) w show ?thesis
      by (auto simp: slot_from_env_def Let_def parse_slot_Inr split: sum.splits prod.splits)
  next
    case False
    show ?thesis
    proof (cases "parse_slot (MAX_SLOT flr) raw")
      case (Inl e)
      with False assms(2) show ?thesis
        by (auto simp: slot_from_env_def Let_def parse_slot_def py_int_res_def split: option.splits if_splits)
    next
      case (Inr slot)
      with False assms(2) show ?thesis
        by (simp add: slot_from_env_def Let_def) (simp add: parse_slot_Inr)
    qed
  qed
qed

theorem slot_resolution_witness:
  "slot_from_env 734 [''WB_MGE_PORT_SLOT'' \<mapsto> '' 12 '', ''EXECUTOR_NUMBER'' \<mapsto> ''3''] = Inr (12, WB_MGE_PORT_SLOT) \<and>
   (case slot_from_env (MAX_SLOT 32768) [''WB_MGE_PORT_SLOT'' \<mapsto> '' 12 '', ''EXECUTOR_NUMBER'' \<mapsto> ''3''] of
       Inr (slot, src) \<Rightarrow> 0 \<le> slot \<and> slot \<le> MAX_SLOT 32768 | Inl e \<Rightarrow> False)"
proof -
  have f: "ephemeral_floor (Inl OSError) = Inr (32768, None)"
    by (simp add: ephemeral_floor_def read_low_def is_OSError_def DEFAULT_EPHEMERAL_FLOOR_def)
  have e: "slot_from_env 734 [''WB_MGE_PORT_SLOT'' \<mapsto> '' 12 '', ''EXECUTOR_NUMBER'' \<mapsto> ''3''] = Inr (12, WB_MGE_PORT_SLOT)"
    by code_simp
  have m: "MAX_SLOT 32768 = 734" by code_simp
  show ?thesis
    using slot_resolution [OF f refl, of "[''WB_MGE_PORT_SLOT'' \<mapsto> '' 12 '', ''EXECUTOR_NUMBER'' \<mapsto> ''3'']"]
    by (simp add: m e)
qed

end
