(* ===== verification/Io_Bus.thy ===== *)
theory Io_Bus
  imports Deadline_Loop Py_Text
begin

text \<open>
  The client of the virtual IO bus, \<open>api_tests/io_bus_helpers.py\<close>: the record parser, the
  pump that absorbs datagrams, and the calls built on it.
  A datagram is a list of characters, one per byte. A call of \<open>pump\<close> takes the clock reading
  it starts from and its passes; the other calls take the clock readings of their own loops
  and, for each pump they make, that pump's input. \<open>None\<close> is a call that has not returned.
\<close>

section \<open>Records\<close>

definition RECORD_LEN :: nat where "RECORD_LEN = 5"
definition SEP_INDEX :: nat where "SEP_INDEX = 3"
definition LEVEL_INDEX :: nat where "LEVEL_INDEX = 4"

definition io_parse :: "string \<Rightarrow> (string \<times> int) option" where
  "io_parse data0 =
     (let data = (if length data0 = RECORD_LEN + 1 \<and> py_slice RECORD_LEN (RECORD_LEN + 1) data0 = [CHR 0x0A]
                  then take RECORD_LEN data0 else data0) in
      if length data \<noteq> RECORD_LEN then None
      else if py_slice SEP_INDEX (SEP_INDEX + 1) data \<noteq> ''/'' then None
      else
        (let type_char = data ! 0 in
         if type_char \<notin> {CHR ''E'', CHR ''G'', CHR ''D'', CHR ''V''} then None
         else if \<not> py_isdigit (py_slice 1 3 data) then None
         else
           (let value_byte = py_slice LEVEL_INDEX (LEVEL_INDEX + 1) data in
            if (if type_char = CHR ''V'' then \<not> py_isdigit value_byte
                else value_byte \<notin> {''0'', ''1''}) then None
            else Some (type_char # py_slice 1 3 data, digit_value (data ! LEVEL_INDEX)))))"

section \<open>The bus client\<close>

record io_bus =
  pin_state :: "string \<rightharpoonup> int"
  events :: "(string \<times> int) list"
  violations :: "(int \<times> int) list"
  last_subscribe :: time
  datagrams :: "string list"

definition SUBSCRIBE_INTERVAL_S :: time where "SUBSCRIBE_INTERVAL_S = 1"

definition io_sendto :: "string \<Rightarrow> io_bus \<Rightarrow> io_bus" where
  "io_sendto payload bus = bus\<lparr>datagrams := datagrams bus @ [payload]\<rparr>"

definition subscribe :: "time \<Rightarrow> io_bus \<Rightarrow> io_bus" where
  "subscribe now bus = (io_sendto ''G34/1'' bus)\<lparr>last_subscribe := now\<rparr>"

text \<open>\<open>int(pin[1:])\<close>; a parsed pin ends in two digits, so the conversion cannot fail.\<close>

definition int_text :: "string \<Rightarrow> int" where
  "int_text s = (case py_int s of None \<Rightarrow> 0 | Some v \<Rightarrow> v)"

definition absorb :: "string \<times> int \<Rightarrow> io_bus \<Rightarrow> io_bus" where
  "absorb r bus =
     (case r of (pin, value) \<Rightarrow>
        (let bus = bus\<lparr>pin_state := (pin_state bus)(pin \<mapsto> value), events := events bus @ [r]\<rparr> in
         if pin ! 0 = CHR ''V'' then bus\<lparr>violations := violations bus @ [(int_text (drop 1 pin), value)]\<rparr>
         else bus))"

text \<open>One pass of the pump: the clock reading of the interval check, the reading \<open>_subscribe\<close>
  stores, and the outcome of \<open>recvfrom\<close>.\<close>

datatype recvfrom = Dgram string | DgramTimeout | DgramError exn

record pump_in =
  check_at :: time
  sub_at :: time
  rcv :: recvfrom

definition pump_pass :: "pump_in \<Rightarrow> io_bus \<Rightarrow> (io_bus, exn \<times> io_bus) flow" where
  "pump_pass p bus =
     (let bus = (if check_at p - last_subscribe bus > SUBSCRIBE_INTERVAL_S then subscribe (sub_at p) bus else bus)
      in case rcv p of
           DgramTimeout \<Rightarrow> Next bus
         | DgramError e \<Rightarrow> Stop (e, bus)
         | Dgram data \<Rightarrow>
             (case io_parse data of None \<Rightarrow> Next bus | Some r \<Rightarrow> Next (absorb r bus)))"

type_synonym pump_run = "time \<times> (time \<times> pump_in) list"

definition pump :: "time \<Rightarrow> pump_run \<Rightarrow> io_bus \<Rightarrow> (unit res \<times> io_bus) option" where
  "pump duration run bus =
     (case deadline_loop (\<lambda>_. True) (fst run + duration) pump_pass (snd run) bus of
        None \<Rightarrow> None
      | Some (Done bus, _) \<Rightarrow> Some (Inr (), bus)
      | Some (Expired bus, _) \<Rightarrow> Some (Inr (), bus)
      | Some (Stopped (e, bus), _) \<Rightarrow> Some (Inl e, bus))"

text \<open>Construction: subscribe and absorb the initial dump.\<close>

definition io_open :: "time \<Rightarrow> pump_run \<Rightarrow> (unit res \<times> io_bus) option" where
  "io_open now run =
     pump 1 run (subscribe now \<lparr>pin_state = Map.empty, events = [], violations = [], last_subscribe = 0,
                                datagrams = []\<rparr>)"

definition io_get :: "io_bus \<Rightarrow> string \<Rightarrow> int option" where
  "io_get bus pin = pin_state bus pin"

definition had_violation :: "io_bus \<Rightarrow> bool" where
  "had_violation bus \<longleftrightarrow> length (violations bus) > 0"

text \<open>A polling pass that pumps: the loop leaves with \<open>None\<close> inside a pump that has not
  returned and with the exception of one that raised.\<close>

definition wait_pass ::
  "string \<Rightarrow> int \<Rightarrow> pump_run \<Rightarrow> io_bus \<Rightarrow> (io_bus, (bool res \<times> io_bus) option) flow" where
  "wait_pass pin level run bus =
     (if pin_state bus pin = Some level then Stop (Some (Inr True, bus))
      else
        (case pump (3/10) run bus of
           None \<Rightarrow> Stop None
         | Some (Inl e, bus) \<Rightarrow> Stop (Some (Inl e, bus))
         | Some (Inr _, bus) \<Rightarrow> Next bus))"

definition wait_for ::
  "string \<Rightarrow> int \<Rightarrow> time \<Rightarrow> time \<Rightarrow> pump_run \<Rightarrow> (time \<times> pump_run) list \<Rightarrow> io_bus \<Rightarrow> (bool res \<times> io_bus) option" where
  "wait_for pin level timeout now first passes bus =
     (case pump (1/10) first bus of
        None \<Rightarrow> None
      | Some (Inl e, bus) \<Rightarrow> Some (Inl e, bus)
      | Some (Inr _, bus) \<Rightarrow>
          (case deadline_loop (\<lambda>_. True) (now + timeout) (wait_pass pin level) passes bus of
             None \<Rightarrow> None
           | Some (Stopped r, _) \<Rightarrow> r
           | Some (Done bus, _) \<Rightarrow> Some (Inr (pin_state bus pin = Some level), bus)
           | Some (Expired bus, _) \<Rightarrow> Some (Inr (pin_state bus pin = Some level), bus)))"

definition count_edges :: "string \<Rightarrow> time \<Rightarrow> pump_run \<Rightarrow> io_bus \<Rightarrow> (nat res \<times> io_bus) option" where
  "count_edges pin duration run bus =
     (let start = length (events bus) in
      case pump duration run bus of
        None \<Rightarrow> None
      | Some (Inl e, bus) \<Rightarrow> Some (Inl e, bus)
      | Some (Inr _, bus) \<Rightarrow>
          Some (Inr (length (filter (\<lambda>(recorded_pin, _). recorded_pin = pin) (drop start (events bus)))), bus))"

section \<open>Pressing the button\<close>

definition hold_pass :: "unit \<Rightarrow> io_bus \<Rightarrow> (io_bus, unit) flow" where
  "hold_pass u bus = Next (io_sendto ''G34/0'' bus)"

definition confirm_pass :: "pump_run \<Rightarrow> io_bus \<Rightarrow> (io_bus, (unit res \<times> io_bus) option) flow" where
  "confirm_pass run bus =
     (case pump (1/10) run bus of
        None \<Rightarrow> Stop None
      | Some (Inl e, bus) \<Rightarrow> Stop (Some (Inl e, bus))
      | Some (Inr _, bus) \<Rightarrow>
          if pin_state bus ''G34'' = Some 1 then Stop (Some (Inr (), bus))
          else Next (io_sendto ''G34/1'' bus))"

text \<open>The readings of a press: the start of the hold, one per pass of the hold loop, the release
  stamp, the start of the confirmation and one per confirmation pass with its pump.\<close>

record press_env =
  hold_from :: time
  hold_clock :: "(time \<times> unit) list"
  release_clock :: time
  confirm_from :: time
  confirm_passes :: "(time \<times> pump_run) list"

definition press_hold :: "time \<Rightarrow> press_env \<Rightarrow> io_bus \<Rightarrow> io_bus option" where
  "press_hold hold_s env bus =
     (let bus = (io_sendto ''G34/0'' ^^ 3) bus in
      case deadline_loop (\<lambda>_. True) (hold_from env + hold_s) hold_pass (hold_clock env) bus of
        None \<Rightarrow> None
      | Some (Stopped _, _) \<Rightarrow> None
      | Some (Done bus, _) \<Rightarrow> Some bus
      | Some (Expired bus, _) \<Rightarrow> Some bus)"

definition press_release :: "press_env \<Rightarrow> io_bus \<Rightarrow> (unit res \<times> io_bus) option" where
  "press_release env bus =
     (let bus = (io_sendto ''G34/1'' ^^ 3) bus in
      case deadline_loop (\<lambda>_. True) (confirm_from env + 2) confirm_pass (confirm_passes env) bus of
        None \<Rightarrow> None
      | Some (Stopped r, _) \<Rightarrow> r
      | Some (Done bus, _) \<Rightarrow> Some (Inr (), bus)
      | Some (Expired bus, _) \<Rightarrow> Some (Inr (), bus))"

definition press_button :: "time \<Rightarrow> press_env \<Rightarrow> io_bus \<Rightarrow> (time res \<times> io_bus) option" where
  "press_button hold_s env bus =
     (case press_hold hold_s env bus of
        None \<Rightarrow> None
      | Some bus \<Rightarrow>
          (case press_release env bus of
             None \<Rightarrow> None
           | Some (Inl e, bus) \<Rightarrow> Some (Inl e, bus)
           | Some (Inr _, bus) \<Rightarrow> Some (Inr (release_clock env), bus)))"

definition send_raw :: "string \<Rightarrow> io_bus \<Rightarrow> io_bus" where
  "send_raw payload bus = io_sendto payload bus"

section \<open>Lemmas on records\<close>

lemma slice_one: "i < length xs \<Longrightarrow> py_slice i (Suc i) xs = [xs ! i]"
  by (simp add: py_slice_def take_Suc_conv_app_nth)

lemma five: "length d = 5 \<longleftrightarrow> (\<exists>a b c e f. d = [a, b, c, e, f])"
  by (auto simp: length_Suc_conv numeral_eq_Suc)

text \<open>The records of the bus: a type, a two-digit number, a slash and a value digit.\<close>

definition valid_record :: "char \<Rightarrow> char \<Rightarrow> char \<Rightarrow> char \<Rightarrow> bool" where
  "valid_record t a b v \<longleftrightarrow> t \<in> {CHR ''E'', CHR ''G'', CHR ''D'', CHR ''V''} \<and> is_digit a \<and> is_digit b \<and>
     (if t = CHR ''V'' then is_digit v else v \<in> {CHR ''0'', CHR ''1''})"

lemma io_parse_five:
  "io_parse [t, a, b, s, v] =
     (if s = CHR ''/'' \<and> valid_record t a b v then Some ([t, a, b], digit_value v) else None)"
  by (simp add: io_parse_def RECORD_LEN_def SEP_INDEX_def LEVEL_INDEX_def py_slice_def valid_record_def
      py_isdigit_def Let_def)

lemma io_parse_newline: "length d = 5 \<Longrightarrow> io_parse (d @ [CHR 0x0A]) = io_parse d"
  unfolding five by (auto simp: io_parse_five) (auto simp: io_parse_def RECORD_LEN_def SEP_INDEX_def
      LEVEL_INDEX_def py_slice_def valid_record_def py_isdigit_def Let_def)

section \<open>What a pump hears and sends\<close>

definition bus_ok :: "io_bus \<Rightarrow> bool" where
  "bus_ok bus \<longleftrightarrow> pin_state bus = map_of (rev (events bus)) \<and>
     violations bus = map (\<lambda>(pin, v). (int_text (drop 1 pin), v)) (filter (\<lambda>(pin, v). pin ! 0 = CHR ''V'') (events bus))"

lemma io_sendto_fields [simp]:
  "pin_state (io_sendto m bus) = pin_state bus" "events (io_sendto m bus) = events bus"
  "violations (io_sendto m bus) = violations bus" "datagrams (io_sendto m bus) = datagrams bus @ [m]"
  by (simp_all add: io_sendto_def)

lemma subscribe_fields [simp]:
  "pin_state (subscribe t bus) = pin_state bus" "events (subscribe t bus) = events bus"
  "violations (subscribe t bus) = violations bus" "datagrams (subscribe t bus) = datagrams bus @ [''G34/1'']"
  by (simp_all add: subscribe_def)

lemma absorb_fields [simp]:
  "events (absorb r bus) = events bus @ [r]" "datagrams (absorb r bus) = datagrams bus"
  by (cases r; simp add: absorb_def Let_def)+

lemma bus_ok_absorb: "bus_ok bus \<Longrightarrow> bus_ok (absorb r bus)"
  by (cases r) (auto simp: absorb_def Let_def bus_ok_def)

lemma bus_ok_sendto: "bus_ok bus \<Longrightarrow> bus_ok (io_sendto m bus)"
  by (simp add: bus_ok_def)

lemma bus_ok_subscribe: "bus_ok bus \<Longrightarrow> bus_ok (subscribe t bus)"
  by (simp add: bus_ok_def)

lemma pump_pass_ok: "bus_ok bus \<Longrightarrow> case pump_pass p bus of Next b \<Rightarrow> bus_ok b | Stop (e, b) \<Rightarrow> bus_ok b"
  by (auto simp: pump_pass_def Let_def bus_ok_absorb bus_ok_subscribe split: recvfrom.splits option.splits)

interpretation pumping: polling "\<lambda>_. True" pump_pass "\<lambda>_. True" bus_ok "\<lambda>(e, bus). bus_ok bus"
proof
  fix s p s'
  assume "bus_ok s" "pump_pass p s = Next s'"
  then show "bus_ok s'" using pump_pass_ok [of s p] by simp
next
  fix s p r
  assume "bus_ok s" "pump_pass p s = Stop r"
  then show "case r of (e, bus) \<Rightarrow> bus_ok bus" using pump_pass_ok [of s p] by simp
qed

lemma pump_loop:
  assumes "pump d run bus = Some (r, bus')"
  obtains out rest where
    "deadline_loop (\<lambda>_. True) (fst run + d) pump_pass (snd run) bus = Some (out, rest)"
    "case out of Stopped (e, b) \<Rightarrow> r = Inl e \<and> b = bus' | Done b \<Rightarrow> r = Inr () \<and> b = bus'
       | Expired b \<Rightarrow> r = Inr () \<and> b = bus'"
  using assms unfolding pump_def by (auto split: option.splits outcome.splits prod.splits)

lemma all_true: "list_all ((\<lambda>_. True) \<circ> f) xs"
  by (simp add: list_all_iff)

lemma pump_ok:
  assumes "pump d run bus = Some (r, bus')" "bus_ok bus"
  shows "bus_ok bus'"
proof -
  obtain out rest where *: "deadline_loop (\<lambda>_. True) (fst run + d) pump_pass (snd run) bus = Some (out, rest)"
    "case out of Stopped (e, b) \<Rightarrow> r = Inl e \<and> b = bus' | Done b \<Rightarrow> r = Inr () \<and> b = bus'
       | Expired b \<Rightarrow> r = Inr () \<and> b = bus'"
    by (rule pump_loop [OF assms(1)]) (erule (1) that)
  from pumping.loop_inv [OF assms(2) all_true this(1)] this(2) show ?thesis
    by (auto split: outcome.splits)
qed

text \<open>The records of the passes that start before the deadline.\<close>

fun heard_in :: "pump_in \<Rightarrow> (string \<times> int) list" where
  "heard_in p = (case rcv p of Dgram data \<Rightarrow> (case io_parse data of None \<Rightarrow> [] | Some r \<Rightarrow> [r]) | _ \<Rightarrow> [])"

definition heard :: "time \<Rightarrow> pump_run \<Rightarrow> (string \<times> int) list" where
  "heard duration run = concat (map (heard_in \<circ> snd) (takeWhile (\<lambda>p. fst p < fst run + duration) (snd run)))"

lemma pump_pass_Next:
  "pump_pass p bus = Next b \<Longrightarrow> events b = events bus @ heard_in p"
  by (auto simp: pump_pass_def Let_def split: recvfrom.splits option.splits if_splits)

lemma pump_loop_heard:
  "deadline_loop (\<lambda>_. True) d pump_pass ps bus = Some (out, rest) \<Longrightarrow>
   out = Expired b \<or> out = Done b \<Longrightarrow>
   events b = events bus @ concat (map (heard_in \<circ> snd) (takeWhile (\<lambda>p. fst p < d) ps))"
proof (induction ps arbitrary: bus)
  case (Cons q ps)
  obtain now p where q: "q = (now, p)" by (cases q)
  show ?case
  proof (cases "now < d")
    case True
    with Cons.prems q obtain b1 where b1: "pump_pass p bus = Next b1"
      by (cases "pump_pass p bus") (auto simp: loop_simps)
    with True Cons.prems q have "deadline_loop (\<lambda>_. True) d pump_pass ps b1 = Some (out, rest)"
      by (simp add: loop_simps)
    from Cons.IH [OF this Cons.prems(2)] show ?thesis using True q pump_pass_Next [OF b1] by simp
  next
    case False
    with Cons.prems q show ?thesis by (auto simp: loop_simps)
  qed
qed (auto simp: loop_simps)

lemma pump_heard:
  assumes "pump d run bus = Some (r, bus')" "r = Inr ()"
  shows "events bus' = events bus @ heard d run"
proof -
  obtain out rest where *: "deadline_loop (\<lambda>_. True) (fst run + d) pump_pass (snd run) bus = Some (out, rest)"
    "case out of Stopped (e, b) \<Rightarrow> r = Inl e \<and> b = bus' | Done b \<Rightarrow> r = Inr () \<and> b = bus'
       | Expired b \<Rightarrow> r = Inr () \<and> b = bus'"
    by (rule pump_loop [OF assms(1)]) (erule (1) that)
  then have "out = Expired bus' \<or> out = Done bus'" using assms(2) by (auto split: outcome.splits)
  from pump_loop_heard [OF *(1) this] show ?thesis by (simp add: heard_def)
qed

text \<open>A pump sends nothing but releases.\<close>

definition releases :: "io_bus \<Rightarrow> io_bus \<Rightarrow> bool" where
  "releases bus bus' \<longleftrightarrow> (\<exists>k. datagrams bus' = datagrams bus @ replicate k ''G34/1'')"

lemma releases_refl: "releases bus bus"
  unfolding releases_def by (rule exI [of _ 0]) simp

lemma releases_trans: "releases a b \<Longrightarrow> releases b c \<Longrightarrow> releases a c"
  unfolding releases_def by (metis append.assoc replicate_add)

lemma releases_one: "datagrams b = datagrams a @ [''G34/1''] \<Longrightarrow> releases a b"
  unfolding releases_def by (rule exI [of _ 1]) simp

lemma releases_same: "releases a b \<Longrightarrow> datagrams c = datagrams b \<Longrightarrow> releases a c"
  by (simp add: releases_def)

lemma pump_pass_releases:
  "case pump_pass p bus of Next b \<Rightarrow> releases bus b | Stop (e, b) \<Rightarrow> releases bus b"
  by (auto simp: pump_pass_def Let_def releases_refl releases_one split: recvfrom.splits option.splits
      intro: releases_same [OF releases_refl] releases_same [OF releases_one])

interpretation pump_tx: polling "\<lambda>_. True" pump_pass "\<lambda>_. True" "releases bus0" "\<lambda>(e, bus). releases bus0 bus" for bus0
proof
  fix s p s'
  assume "releases bus0 s" "pump_pass p s = Next s'"
  then show "releases bus0 s'" using pump_pass_releases [where p = p and bus = s] by (auto intro: releases_trans)
next
  fix s p r
  assume "releases bus0 s" "pump_pass p s = Stop r"
  then show "case r of (e, bus) \<Rightarrow> releases bus0 bus"
    using pump_pass_releases [where p = p and bus = s] by (auto intro: releases_trans)
qed

lemma pump_releases:
  assumes "pump d run bus = Some (r, bus')"
  shows "releases bus bus'"
proof -
  obtain out rest where *: "deadline_loop (\<lambda>_. True) (fst run + d) pump_pass (snd run) bus = Some (out, rest)"
    "case out of Stopped (e, b) \<Rightarrow> r = Inl e \<and> b = bus' | Done b \<Rightarrow> r = Inr () \<and> b = bus'
       | Expired b \<Rightarrow> r = Inr () \<and> b = bus'"
    by (rule pump_loop [OF assms(1)]) (erule (1) that)
  from pump_tx.loop_inv [OF releases_refl all_true this(1)] this(2) show ?thesis
    by (auto split: outcome.splits)
qed

interpretation confirm_tx: polling "\<lambda>_. True" confirm_pass "\<lambda>_. True" "releases bus0"
    "\<lambda>r. case r of None \<Rightarrow> True | Some (_, bus) \<Rightarrow> releases bus0 bus" for bus0
proof
  fix s p s'
  assume "releases bus0 s" "confirm_pass p s = Next s'"
  then show "releases bus0 s'"
    by (auto simp: confirm_pass_def split: option.splits sum.splits if_splits
        dest!: pump_releases)
      (rule releases_trans [OF releases_trans releases_one], auto)
next
  fix s p r
  assume "releases bus0 s" "confirm_pass p s = Stop r"
  then show "case r of None \<Rightarrow> True | Some (_, bus) \<Rightarrow> releases bus0 bus"
    by (auto simp: confirm_pass_def split: option.splits sum.splits if_splits
        dest!: pump_releases elim: releases_trans)
qed

lemma sendto_pow: "datagrams ((io_sendto m ^^ n) bus) = datagrams bus @ replicate n m"
  by (induction n) (simp_all flip: replicate_append_same)

lemma press_release_releases:
  "press_release env bus = Some (r, bus') \<Longrightarrow>
   \<exists>k. datagrams bus' = datagrams bus @ replicate (3 + k) ''G34/1''"
proof -
  let ?b = "(io_sendto ''G34/1'' ^^ 3) bus"
  assume "press_release env bus = Some (r, bus')"
  then obtain out rest where
    *: "deadline_loop (\<lambda>_. True) (confirm_from env + 2) confirm_pass (confirm_passes env) ?b = Some (out, rest)"
    "case out of Stopped x \<Rightarrow> x = Some (r, bus') | Done b \<Rightarrow> b = bus' | Expired b \<Rightarrow> b = bus'"
    unfolding press_release_def Let_def by (auto split: option.splits outcome.splits prod.splits)
  from confirm_tx.loop_inv [OF releases_refl all_true this(1)] this(2) have "releases ?b bus'"
    by (auto split: outcome.splits)
  then show ?thesis by (auto simp: releases_def sendto_pow replicate_add)
qed

lemma hold_loop:
  "deadline_loop (\<lambda>_. True) d hold_pass ps bus = Some (out, rest) \<Longrightarrow>
   \<exists>b t u. out = Expired b \<and> (t, u) \<in> set ps \<and> d \<le> t \<and>
     datagrams b = datagrams bus @ replicate (length (takeWhile (\<lambda>p. fst p < d) ps)) ''G34/0''"
proof (induction ps arbitrary: bus)
  case (Cons q ps)
  obtain now p where q: "q = (now, p)" by (cases q)
  show ?case
  proof (cases "now < d")
    case True
    with Cons.prems q have "deadline_loop (\<lambda>_. True) d hold_pass ps (io_sendto ''G34/0'' bus) = Some (out, rest)"
      using hold_pass_def [of p bus] by (simp add: loop_simps)
    from Cons.IH [OF this] True q show ?thesis by fastforce
  next
    case False
    with Cons.prems q show ?thesis by (auto simp: loop_simps intro!: exI [of _ now])
  qed
qed (simp add: loop_simps)

lemma press_hold_holds:
  "press_hold h env bus = Some b \<Longrightarrow>
   (\<exists>t u. (t, u) \<in> set (hold_clock env) \<and> hold_from env + h \<le> t) \<and>
   datagrams b = datagrams bus @
     replicate (3 + length (takeWhile (\<lambda>p. fst p < hold_from env + h) (hold_clock env))) ''G34/0''"
  by (auto simp: press_hold_def Let_def sendto_pow replicate_add split: option.splits outcome.splits prod.splits
      dest!: hold_loop)

section \<open>Properties\<close>

text \<open>The record parser accepts exactly the five-byte records of the bus, with at most one
  trailing newline: type \<open>E\<close>, \<open>G\<close>, \<open>D\<close> or \<open>V\<close>, two digits, a slash, and a value
  that is 0 or 1, or any digit for a violation.\<close>

theorem io_parse_exact:
  "io_parse data = Some (pin, value) \<longleftrightarrow>
     (\<exists>t a b v. (data = [t, a, b, CHR ''/'', v] \<or> data = [t, a, b, CHR ''/'', v, CHR 0x0A]) \<and>
        valid_record t a b v \<and> pin = [t, a, b] \<and> value = digit_value v)"
proof -
  have six: "data = take 5 data @ [CHR 0x0A]" if "length data = 6" "py_slice 5 6 data = [CHR 0x0A]"
    using that by (simp add: py_slice_def) (metis append_take_drop_id)
  show ?thesis
  proof (cases "length data = 6 \<and> py_slice 5 6 data = [CHR 0x0A]")
    case True
    then obtain t a b s v where d: "take 5 data = [t, a, b, s, v]" using five [of "take 5 data"] by auto
    with True six have data: "data = [t, a, b, s, v] @ [CHR 0x0A]" by auto
    have "io_parse data = io_parse [t, a, b, s, v]" unfolding data by (rule io_parse_newline) simp
    then show ?thesis unfolding data by (auto simp: io_parse_five split: if_splits)
  next
    case False
    show ?thesis
    proof (cases "length data = 5")
      case True
      then show ?thesis unfolding five by (auto simp: io_parse_five split: if_splits)
    next
      case len: False
      with False have "io_parse data = None" by (auto simp: io_parse_def RECORD_LEN_def Let_def)
      moreover have "\<not> (\<exists>t a b v. data = [t, a, b, CHR ''/'', v] \<or> data = [t, a, b, CHR ''/'', v, CHR 0x0A])"
        using False len by (auto simp: py_slice_def)
      ultimately show ?thesis by auto
    qed
  qed
qed

text \<open>What a pump leaves behind. It appends exactly the records that parse, in the order they
  arrived before its deadline; the state of a pin stays the value of its last record, and the
  violation list stays the list of the \<open>V\<close> records seen.\<close>

theorem pump_absorbs_in_order:
  assumes "bus_ok bus" and "pump duration run bus = Some (Inr u, bus')"
  shows "events bus' = events bus @ heard duration run \<and> bus_ok bus'"
  using pump_heard [OF assms(2)] pump_ok [OF assms(2,1)] by simp

definition demo_bus :: io_bus where
  "demo_bus = \<lparr>pin_state = Map.empty, events = [], violations = [], last_subscribe = 0, datagrams = []\<rparr>"

theorem pump_absorbs_in_order_witness:
  "\<exists>bus'. pump 1 (0, [(0, \<lparr>check_at = 0, sub_at = 0, rcv = Dgram ''E07/1''\<rparr>),
                   (1/2, \<lparr>check_at = 1/2, sub_at = 1/2, rcv = Dgram ''V04/2''\<rparr>),
                   (2, \<lparr>check_at = 2, sub_at = 2, rcv = DgramTimeout\<rparr>)]) demo_bus = Some (Inr (), bus') \<and>
     events bus' = [(''E07'', 1), (''V04'', 2)] \<and> violations bus' = [(4, 2)]"
proof -
  let ?run = "(0, [(0, \<lparr>check_at = 0, sub_at = 0, rcv = Dgram ''E07/1''\<rparr>),
                   (1/2, \<lparr>check_at = 1/2, sub_at = 1/2, rcv = Dgram ''V04/2''\<rparr>),
                   (2, \<lparr>check_at = 2, sub_at = 2, rcv = DgramTimeout\<rparr>)]) :: pump_run"
  have "bus_ok demo_bus" by (simp add: bus_ok_def demo_bus_def)
  moreover have parse: "io_parse ''E07/1'' = Some (''E07'', 1)" "io_parse ''V04/2'' = Some (''V04'', 2)"
    by code_simp+
  obtain bus' where b: "pump 1 ?run demo_bus = Some (Inr (), bus')"
    by (simp add: pump_def loop_simps pump_pass_def Let_def parse)
  ultimately have "events bus' = events demo_bus @ heard 1 ?run \<and> bus_ok bus'"
    using pump_absorbs_in_order by blast
  moreover have "int_text ''04'' = 4" by code_simp
  ultimately show ?thesis using b by (simp add: heard_def parse demo_bus_def bus_ok_def)
qed

text \<open>C34: a button press that returns has asserted the button without interruption: the datagrams
  it sent are a run of presses, three and one more per pass of the hold, followed by a run of
  releases, so no release (and no re-subscription, which is one) falls into the hold and the last
  word is a release; and the release stamp lies at least the hold time after the hold began.\<close>

theorem press_never_releases_while_holding:
  assumes "press_button hold_s env bus = Some (res, bus')"
    and "list_all (\<lambda>(t, u). t \<le> release_clock env) (hold_clock env)"
  shows "(\<exists>k. datagrams bus' = datagrams bus @
       replicate (3 + length (takeWhile (\<lambda>p. fst p < hold_from env + hold_s) (hold_clock env))) ''G34/0'' @
       replicate (3 + k) ''G34/1'') \<and>
     hold_from env + hold_s \<le> release_clock env \<and>
     (case res of Inr stamp \<Rightarrow> stamp = release_clock env | Inl e \<Rightarrow> True)"
proof -
  obtain b where b: "press_hold hold_s env bus = Some b" "\<exists>r. press_release env b = Some (r, bus')"
    using assms(1) by (auto simp: press_button_def split: option.splits sum.splits prod.splits)
  note h = press_hold_holds [OF b(1)]
  obtain t u where "(t, u) \<in> set (hold_clock env)" "hold_from env + hold_s \<le> t" using h by blast
  then have "hold_from env + hold_s \<le> release_clock env" using assms(2) by (auto simp: list_all_iff)
  moreover obtain k where "datagrams bus' = datagrams b @ replicate (3 + k) ''G34/1''"
    using b(2) press_release_releases by blast
  moreover have "case res of Inr stamp \<Rightarrow> stamp = release_clock env | Inl e \<Rightarrow> True"
    using assms(1) by (auto simp: press_button_def split: option.splits sum.splits prod.splits)
  ultimately show ?thesis using h by (metis append.assoc)
qed

theorem press_never_releases_while_holding_witness:
  "\<exists>bus' k. press_button (2/5) \<lparr>hold_from = 1, hold_clock = [(1, ()), (6/5, ()), (3/2, ())], release_clock = 3/2,
       confirm_from = 2, confirm_passes = [(5, (0, []))]\<rparr> demo_bus = Some (Inr (3/2), bus') \<and>
     datagrams bus' = replicate 5 ''G34/0'' @ replicate (3 + k) ''G34/1''"
proof -
  let ?e = "\<lparr>hold_from = 1, hold_clock = [(1, ()), (6/5, ()), (3/2, ())], release_clock = 3/2,
       confirm_from = 2, confirm_passes = [(5, (0, []))]\<rparr> :: press_env"
  obtain bus' where b: "press_button (2/5) ?e demo_bus = Some (Inr (3/2), bus')"
    by (simp add: press_button_def press_hold_def press_release_def Let_def loop_simps hold_pass_def)
  from press_never_releases_while_holding [OF this] obtain k where
    "datagrams bus' = replicate 5 ''G34/0'' @ replicate (3 + k) ''G34/1''"
    by (auto simp: demo_bus_def)
  with b show ?thesis by blast
qed

end
