(* ===== verification/Tree_Lock.thy ===== *)
theory Tree_Lock
  imports Py_Text
begin

text \<open>
  The one-run-per-tree lock of \<open>api_tests/tree_lock.py\<close> over a small model of the kernel:
  inodes with their contents, the inode the lock path names, open file descriptions, and the
  exclusive flock of an inode, which belongs to a description and goes with its last close.
  The Python calls are sequences of kernel operations. A step relation interleaves the same
  operations of any number of processes with kills and with an environment that deletes or
  replaces the lock file; the exclusion properties hold for all its runs.
\<close>

section \<open>Kernel\<close>

record os =
  at_path :: "nat option"
  content :: "nat \<Rightarrow> string"
  fresh_ino :: nat
  fresh_fd :: nat
  ofd :: "nat \<rightharpoonup> nat"
  flock :: "nat \<rightharpoonup> nat"

definition k_open_r :: "os \<Rightarrow> (nat \<times> os) option" where
  "k_open_r k =
     (case at_path k of
        None \<Rightarrow> None
      | Some i \<Rightarrow> Some (fresh_fd k, k\<lparr>ofd := (ofd k)(fresh_fd k \<mapsto> i), fresh_fd := fresh_fd k + 1\<rparr>))"

text \<open>\<open>open(path, "a+")\<close> creates a missing file and never truncates.\<close>

definition k_create :: "os \<Rightarrow> os" where
  "k_create k = k\<lparr>at_path := Some (fresh_ino k), content := (content k)(fresh_ino k := ''''),
                 fresh_ino := fresh_ino k + 1\<rparr>"

definition k_open_a :: "os \<Rightarrow> nat \<times> os" where
  "k_open_a k =
     (let k = (if at_path k = None then k_create k else k)
      in (fresh_fd k, k\<lparr>ofd := (ofd k)(fresh_fd k \<mapsto> the (at_path k)), fresh_fd := fresh_fd k + 1\<rparr>))"

definition ino :: "os \<Rightarrow> nat \<Rightarrow> nat" where
  "ino k fd = the (ofd k fd)"

definition k_flock :: "nat \<Rightarrow> os \<Rightarrow> bool \<times> os" where
  "k_flock fd k =
     (case flock k (ino k fd) of
        None \<Rightarrow> (True, k\<lparr>flock := (flock k)(ino k fd \<mapsto> fd)\<rparr>)
      | Some fd' \<Rightarrow> (fd' = fd, k))"

definition k_unlock :: "nat \<Rightarrow> os \<Rightarrow> os" where
  "k_unlock fd k =
     (if flock k (ino k fd) = Some fd then k\<lparr>flock := (flock k)(ino k fd := None)\<rparr> else k)"

definition k_close :: "nat \<Rightarrow> os \<Rightarrow> os" where
  "k_close fd k = (k_unlock fd k)\<lparr>ofd := (ofd k)(fd := None)\<rparr>"

definition k_rewrite :: "nat \<Rightarrow> string \<Rightarrow> os \<Rightarrow> os" where
  "k_rewrite fd line k = k\<lparr>content := (content k)(ino k fd := line)\<rparr>"

definition k_unlink :: "os \<Rightarrow> os" where
  "k_unlink k = k\<lparr>at_path := None\<rparr>"

section \<open>The module\<close>

text \<open>\<open>LOCK_PATH\<close> is a parameter, as are the identity details a holder writes.\<close>

definition newline :: string where "newline = [CHR 0x0A]"

definition id_line :: "(int \<Rightarrow> string) \<Rightarrow> int \<Rightarrow> string" where
  "id_line info pid = ''pid='' @ py_str pid @ '' '' @ info pid @ newline"

definition released_line :: "(int \<Rightarrow> string) \<Rightarrow> int \<Rightarrow> string" where
  "released_line info pid = ''(nobody holds this lock; last holder pid='' @ py_str pid @ '' '' @ info pid @ '')'' @ newline"

definition first_line :: "string \<Rightarrow> string" where
  "first_line s = takeWhile (\<lambda>c. c \<noteq> CHR 0x0A) s"

definition read_holder :: "os \<Rightarrow> string" where
  "read_holder k =
     (case at_path k of
        None \<Rightarrow> ''(could not read the lock file)''
      | Some i \<Rightarrow>
          (let line = py_strip (first_line (content k i))
           in if line \<noteq> [] then line else ''(holder has not written its identity yet)''))"

definition lock_is_held_by_someone :: "bool \<Rightarrow> os \<Rightarrow> bool \<times> os" where
  "lock_is_held_by_someone fcntl k =
     (if \<not> fcntl then (True, k)
      else
        (case k_open_r k of
           None \<Rightarrow> (False, k)
         | Some (probe, k) \<Rightarrow>
             (case k_flock probe k of
                (False, k) \<Rightarrow> (True, k_close probe k)
              | (True, k) \<Rightarrow> (False, k_close probe (k_unlock probe k)))))"

text \<open>What \<open>os.kill(pid, 0)\<close> reports.\<close>

datatype kill_result = Alive | NoSuchProcess | NotPermitted | OtherOSError

definition INHERIT_ENV :: string where "INHERIT_ENV = ''WB_MGE_E2E_TREE_LOCK''"

fun py_partition :: "char \<Rightarrow> string \<Rightarrow> string \<times> string" where
  "py_partition sep [] = ([], [])"
| "py_partition sep (c # s) =
     (if c = sep then ([], s) else (case py_partition sep s of (a, b) \<Rightarrow> (c # a, b)))"

definition in_pid_t :: "int \<Rightarrow> bool" where
  "in_pid_t pid \<longleftrightarrow> - (2 ^ 31) \<le> pid \<and> pid < 2 ^ 31"

definition inherited_lock_holder ::
  "bool \<Rightarrow> string \<Rightarrow> (int \<Rightarrow> kill_result) \<Rightarrow> string \<Rightarrow> os \<Rightarrow> string option res \<times> os" where
  "inherited_lock_holder fcntl lock_path kill env_value k =
     (let raw = py_strip env_value in
      if raw = [] then (Inr None, k)
      else
        (case py_partition CHR '' '' raw of (pid_str, path_str) \<Rightarrow>
          if py_strip path_str \<noteq> lock_path then (Inr None, k)
          else
            (case py_int pid_str of
               None \<Rightarrow> (Inr None, k)
             | Some pid \<Rightarrow>
                 if \<not> in_pid_t pid then (Inl OverflowError, k)
                 else if kill pid \<in> {NoSuchProcess, OtherOSError} then (Inr None, k)
                 else
                   (let holder = read_holder k in
                    if \<not> py_startswith holder (''pid='' @ py_str pid @ '' '') then (Inr None, k)
                    else
                      (case lock_is_held_by_someone fcntl k of
                         (False, k) \<Rightarrow> (Inr None, k)
                       | (True, k) \<Rightarrow> (Inr (Some holder), k))))))"

record tree_lock =
  fh :: "nat option"
  enforced :: bool
  inherited_holder :: "string option"

text \<open>The call fails with \<open>TreeLockBusy holder\<close> or with an exception of its marker check.\<close>

datatype lock_error = TreeLockBusy string | LockExn exn

definition take_lock :: "(int \<Rightarrow> string) \<Rightarrow> int \<Rightarrow> os \<Rightarrow> (lock_error + tree_lock) \<times> os" where
  "take_lock info pid k =
     (case k_open_a k of (fd, k) \<Rightarrow>
      case k_flock fd k of
        (False, k) \<Rightarrow> (let holder = read_holder k in (Inl (TreeLockBusy holder), k_close fd k))
      | (True, k) \<Rightarrow>
          (Inr \<lparr>fh = Some fd, enforced = True, inherited_holder = None\<rparr>, k_rewrite fd (id_line info pid) k))"

definition acquire ::
  "bool \<Rightarrow> bool \<Rightarrow> string \<Rightarrow> (int \<Rightarrow> kill_result) \<Rightarrow> string \<Rightarrow> (int \<Rightarrow> string) \<Rightarrow> int \<Rightarrow> os
   \<Rightarrow> (lock_error + tree_lock) \<times> os" where
  "acquire fcntl allow_inherited lock_path kill env_value info pid k =
     (case (if allow_inherited then inherited_lock_holder fcntl lock_path kill env_value k else (Inr None, k)) of
        (Inl e, k) \<Rightarrow> (Inl (LockExn e), k)
      | (Inr (Some holder), k) \<Rightarrow> (Inr \<lparr>fh = None, enforced = True, inherited_holder = Some holder\<rparr>, k)
      | (Inr None, k) \<Rightarrow>
          if \<not> fcntl then (Inr \<lparr>fh = None, enforced = False, inherited_holder = None\<rparr>, k)
          else take_lock info pid k)"

datatype problem = AncestorGone | FileDisappeared | FileReplaced

text \<open>\<open>verify_intact\<close> of a lock this process took, and of any lock.\<close>

definition verify_own :: "nat \<Rightarrow> os \<Rightarrow> problem option" where
  "verify_own fd k =
     (case at_path k of
        None \<Rightarrow> Some FileDisappeared
      | Some on_disk \<Rightarrow> if on_disk \<noteq> ino k fd then Some FileReplaced else None)"

definition verify_intact ::
  "bool \<Rightarrow> string \<Rightarrow> (int \<Rightarrow> kill_result) \<Rightarrow> string \<Rightarrow> tree_lock \<Rightarrow> os \<Rightarrow> problem option res \<times> os" where
  "verify_intact fcntl lock_path kill env_value lock k =
     (case inherited_holder lock of
        Some _ \<Rightarrow>
          (case inherited_lock_holder fcntl lock_path kill env_value k of
             (Inl e, k) \<Rightarrow> (Inl e, k)
           | (Inr None, k) \<Rightarrow> (Inr (Some AncestorGone), k)
           | (Inr (Some _), k) \<Rightarrow> (Inr None, k))
      | None \<Rightarrow>
          (case fh lock of
             None \<Rightarrow> (Inr None, k)
           | Some fd \<Rightarrow> (Inr (verify_own fd k), k)))"

definition release :: "(int \<Rightarrow> string) \<Rightarrow> int \<Rightarrow> tree_lock \<Rightarrow> os \<Rightarrow> tree_lock \<times> os" where
  "release info pid lock k =
     (case fh lock of
        None \<Rightarrow> (lock, k)
      | Some fd \<Rightarrow> (lock\<lparr>fh := None\<rparr>, k_close fd (k_rewrite fd (released_line info pid) k)))"

definition child_env :: "string \<Rightarrow> int \<Rightarrow> tree_lock \<Rightarrow> (string \<rightharpoonup> string) \<Rightarrow> (string \<rightharpoonup> string)" where
  "child_env lock_path pid lock base =
     (if fh lock \<noteq> None then base(INHERIT_ENV \<mapsto> py_str pid @ '' '' @ lock_path) else base)"

section \<open>The wrapper\<close>

definition INTERRUPTS_BEFORE_GIVING_UP :: nat where "INTERRUPTS_BEFORE_GIVING_UP = 3"

text \<open>\<open>jobserver_fds\<close>: what \<open>os.fstat\<close> raises for a descriptor is a parameter.\<close>

definition spec_fds :: "(int \<Rightarrow> exn option) \<Rightarrow> string \<Rightarrow> int list res" where
  "spec_fds fstat spec =
     foldl (\<lambda>r part. rbind r (\<lambda>fds.
        case py_int part of
          None \<Rightarrow> Inr fds
        | Some fd \<Rightarrow>
            (case fstat fd of
               None \<Rightarrow> Inr (fds @ [fd])
             | Some e \<Rightarrow> if is_OSError e \<or> e = ValueError then Inr fds else Inl e)))
       (Inr []) (py_split CHR '','' spec)"

definition word_fds :: "(int \<Rightarrow> exn option) \<Rightarrow> string \<Rightarrow> string \<Rightarrow> int list res" where
  "word_fds fstat prefix word =
     (if \<not> py_startswith word prefix then Inr []
      else
        (let spec = drop (length prefix) word in
         if py_startswith spec ''fifo:'' then Inr [] else spec_fds fstat spec))"

fun jobserver_words :: "(int \<Rightarrow> exn option) \<Rightarrow> string list \<Rightarrow> int list res" where
  "jobserver_words fstat [] = Inr []"
| "jobserver_words fstat (w # ws) =
     rbind (word_fds fstat ''--jobserver-fds='' w) (\<lambda>a.
     rbind (word_fds fstat ''--jobserver-auth='' w) (\<lambda>b.
     rbind (jobserver_words fstat ws) (\<lambda>c. Inr (a @ b @ c))))"

definition jobserver_fds :: "(int \<Rightarrow> exn option) \<Rightarrow> string \<Rightarrow> int list res" where
  "jobserver_fds fstat makeflags = jobserver_words fstat (py_words makeflags)"

text \<open>What the wrapper sees while it waits: Ctrl-C, or the child's return code.\<close>

datatype child_event = CtrlC | Exited int

fun wait_child :: "nat \<Rightarrow> child_event list \<Rightarrow> int option option" where
  "wait_child interrupts [] = None"
| "wait_child interrupts (Exited returncode # evs) = Some (Some returncode)"
| "wait_child interrupts (CtrlC # evs) =
     (if interrupts + 1 \<ge> INTERRUPTS_BEFORE_GIVING_UP then Some None
      else wait_child (interrupts + 1) evs)"

definition exit_status :: "int \<Rightarrow> int" where
  "exit_status returncode = (if returncode < 0 then 128 - returncode else returncode)"

text \<open>The interrupts before the child exists, the outcome of \<open>Popen\<close> with its arguments, and the
  events of the wait.\<close>

record child =
  early_interrupts :: nat
  popen :: "exn option"
  child_events :: "child_event list"

definition run_child_holding_lock :: "int list res \<Rightarrow> child \<Rightarrow> int res option" where
  "run_child_holding_lock fds ch =
     (if early_interrupts ch \<ge> INTERRUPTS_BEFORE_GIVING_UP then Some (Inl KeyboardInterrupt)
      else
        (case fds of
           Inl e \<Rightarrow> Some (Inl e)
         | Inr _ \<Rightarrow>
             (case popen ch of
                Some e \<Rightarrow> Some (Inl e)
              | None \<Rightarrow>
                  (case wait_child (early_interrupts ch) (child_events ch) of
                     None \<Rightarrow> None
                   | Some (Some returncode) \<Rightarrow> Some (Inr (exit_status returncode))
                   | Some None \<Rightarrow> Some (Inr 130)))))"

text \<open>\<open>main\<close>: its exit code or exception and the kernel it leaves. The world changes under the
  command, which \<open>meanwhile\<close> stands for.\<close>

record main_env =
  has_fcntl :: bool
  lock_file :: string
  kill_probe :: "int \<Rightarrow> kill_result"
  marker :: string
  own_info :: "int \<Rightarrow> string"
  own_pid :: int
  job_fds :: "int list res"
  command :: child
  meanwhile :: "os \<Rightarrow> os"

definition strip_dashes :: "string list \<Rightarrow> string list" where
  "strip_dashes args = (case args of [] \<Rightarrow> [] | a # rest \<Rightarrow> if a = ''--'' then rest else args)"

definition main_locked :: "main_env \<Rightarrow> tree_lock \<Rightarrow> os \<Rightarrow> (int res \<times> os) option" where
  "main_locked env lock k =
     (case run_child_holding_lock (job_fds env) (command env) of
        None \<Rightarrow> None
      | Some (Inl e) \<Rightarrow> Some (Inl e, k)
      | Some (Inr returncode) \<Rightarrow>
          (case verify_intact (has_fcntl env) (lock_file env) (kill_probe env) (marker env) lock k of
             (Inl e, k) \<Rightarrow> Some (Inl e, k)
           | (Inr None, k) \<Rightarrow> Some (Inr returncode, k)
           | (Inr (Some problem), k) \<Rightarrow> Some (Inr (if returncode = 0 then 1 else returncode), k)))"

definition lock_main :: "main_env \<Rightarrow> string list \<Rightarrow> os \<Rightarrow> (int res \<times> os) option" where
  "lock_main env argv k =
     (if strip_dashes argv = [] then Some (Inr 2, k)
      else
        (case acquire (has_fcntl env) True (lock_file env) (kill_probe env) (marker env) (own_info env)
                (own_pid env) k of
           (Inl (TreeLockBusy holder), k) \<Rightarrow> Some (Inr 1, k)
         | (Inl (LockExn e), k) \<Rightarrow> Some (Inl e, k)
         | (Inr lock, k) \<Rightarrow>
             (case main_locked env lock (meanwhile env k) of
                None \<Rightarrow> None
              | Some (r, k) \<Rightarrow> Some (r, snd (release (own_info env) (own_pid env) lock k)))))"

section \<open>Interleaved runs\<close>

text \<open>Where a process is in its use of the lock, with its description.\<close>

datatype proc = Idle | Opened nat | Locked nat | Own nat | Releasing nat

fun fd_of :: "proc \<Rightarrow> nat option" where
  "fd_of Idle = None"
| "fd_of (Opened fd) = Some fd"
| "fd_of (Locked fd) = Some fd"
| "fd_of (Own fd) = Some fd"
| "fd_of (Releasing fd) = Some fd"

fun holding :: "proc \<Rightarrow> bool" where
  "holding (Locked fd) \<longleftrightarrow> True"
| "holding (Own fd) \<longleftrightarrow> True"
| "holding (Releasing fd) \<longleftrightarrow> True"
| "holding _ \<longleftrightarrow> False"

record system =
  kernel :: os
  procs :: "int \<Rightarrow> proc"
  meddled :: bool

definition set_proc :: "int \<Rightarrow> proc \<Rightarrow> os \<Rightarrow> system \<Rightarrow> system" where
  "set_proc p st k s = s\<lparr>kernel := k, procs := (procs s)(p := st)\<rparr>"

text \<open>The operations of \<open>acquire\<close> and \<open>release\<close> one at a time, the probe, a killed process
  (the kernel closes its description), and an environment that removes the lock file or puts
  another one in its place.\<close>

inductive step :: "(int \<Rightarrow> string) \<Rightarrow> system \<Rightarrow> system \<Rightarrow> bool" for info where
  s_open: "procs s p = Idle \<Longrightarrow> k_open_a (kernel s) = (fd, k) \<Longrightarrow> step info s (set_proc p (Opened fd) k s)"
| s_lock: "procs s p = Opened fd \<Longrightarrow> k_flock fd (kernel s) = (True, k) \<Longrightarrow> step info s (set_proc p (Locked fd) k s)"
| s_busy: "procs s p = Opened fd \<Longrightarrow> k_flock fd (kernel s) = (False, k) \<Longrightarrow>
     step info s (set_proc p Idle (k_close fd k) s)"
| s_write: "procs s p = Locked fd \<Longrightarrow>
     step info s (set_proc p (Own fd) (k_rewrite fd (id_line info p) (kernel s)) s)"
| s_blank: "procs s p = Own fd \<Longrightarrow>
     step info s (set_proc p (Releasing fd) (k_rewrite fd (released_line info p) (kernel s)) s)"
| s_close: "procs s p = Releasing fd \<Longrightarrow> step info s (set_proc p Idle (k_close fd (kernel s)) s)"
| s_kill: "fd_of (procs s p) = Some fd \<Longrightarrow> step info s (set_proc p Idle (k_close fd (kernel s)) s)"
| s_probe: "lock_is_held_by_someone True (kernel s) = (b, k) \<Longrightarrow> step info s (s\<lparr>kernel := k\<rparr>)"
| s_unlink: "step info s (s\<lparr>kernel := k_unlink (kernel s), meddled := True\<rparr>)"
| s_replace: "step info s (s\<lparr>kernel := k_create (kernel s), meddled := True\<rparr>)"

inductive_cases stepE: "step info s s'"

definition boot :: system where
  "boot = \<lparr>kernel = \<lparr>at_path = None, content = (\<lambda>_. ''''), fresh_ino = 0, fresh_fd = 0, ofd = Map.empty,
                     flock = Map.empty\<rparr>, procs = (\<lambda>_. Idle), meddled = False\<rparr>"

inductive reachable :: "(int \<Rightarrow> string) \<Rightarrow> system \<Rightarrow> bool" for info where
  reach_boot: "reachable info boot"
| reach_step: "reachable info s \<Longrightarrow> step info s s' \<Longrightarrow> reachable info s'"

text \<open>The invariant: descriptions and inodes in use were handed out; an flock belongs to an open
  description of that inode; processes own distinct open descriptions; a process past its
  \<open>flock\<close> call holds the flock; an owner's identity is in its file; and while nobody has
  meddled with the file, every open description is on the inode at the lock path.\<close>

definition kernel_ok :: "os \<Rightarrow> bool" where
  "kernel_ok k \<longleftrightarrow>
     (\<forall>fd i. ofd k fd = Some i \<longrightarrow> fd < fresh_fd k \<and> i < fresh_ino k) \<and>
     (\<forall>i fd. flock k i = Some fd \<longrightarrow> ofd k fd = Some i) \<and>
     (\<forall>i. at_path k = Some i \<longrightarrow> i < fresh_ino k)"

definition own_distinct :: "(int \<Rightarrow> proc) \<Rightarrow> bool" where
  "own_distinct ps \<longleftrightarrow> (\<forall>p q fd. fd_of (ps p) = Some fd \<longrightarrow> fd_of (ps q) = Some fd \<longrightarrow> p = q)"

definition procs_ok :: "os \<Rightarrow> (int \<Rightarrow> proc) \<Rightarrow> bool" where
  "procs_ok k ps \<longleftrightarrow>
     (\<forall>p fd. fd_of (ps p) = Some fd \<longrightarrow> ofd k fd \<noteq> None) \<and>
     (\<forall>p fd. fd_of (ps p) = Some fd \<longrightarrow> holding (ps p) \<longrightarrow> flock k (ino k fd) = Some fd)"

definition names_ok :: "(int \<Rightarrow> string) \<Rightarrow> os \<Rightarrow> (int \<Rightarrow> proc) \<Rightarrow> bool" where
  "names_ok info k ps \<longleftrightarrow> (\<forall>p fd. ps p = Own fd \<longrightarrow> content k (ino k fd) = id_line info p)"

definition path_ok :: "os \<Rightarrow> bool" where
  "path_ok k \<longleftrightarrow> (\<forall>fd i. ofd k fd = Some i \<longrightarrow> at_path k = Some i)"

definition lock_inv :: "(int \<Rightarrow> string) \<Rightarrow> system \<Rightarrow> bool" where
  "lock_inv info s \<longleftrightarrow> kernel_ok (kernel s) \<and> own_distinct (procs s) \<and> procs_ok (kernel s) (procs s) \<and>
     names_ok info (kernel s) (procs s) \<and> (\<not> meddled s \<longrightarrow> path_ok (kernel s))"

lemmas inv_defs = kernel_ok_def procs_ok_def names_ok_def path_ok_def ino_def

lemma kernel_ok_fresh: "kernel_ok k \<Longrightarrow> ofd k (fresh_fd k) = None"
  unfolding kernel_ok_def by (metis less_irrefl not_None_eq)

lemma probe_kernel:
  assumes "kernel_ok k" "lock_is_held_by_someone True k = (b, k')"
  shows "k' = k \<or> k' = k\<lparr>fresh_fd := fresh_fd k + 1\<rparr>"
proof (cases "at_path k")
  case None
  then show ?thesis using assms(2) by (simp add: lock_is_held_by_someone_def k_open_r_def)
next
  case (Some i)
  have f: "ofd k (fresh_fd k) = None" using assms(1) by (rule kernel_ok_fresh)
  then have o: "(ofd k)(fresh_fd k := None) = ofd k" by auto
  have n: "flock k i \<noteq> Some (fresh_fd k)" using assms(1) f unfolding kernel_ok_def by fastforce
  show ?thesis
  proof (cases "flock k i")
    case None
    then have "(flock k)(i := None) = flock k" by auto
    with None Some assms(2) o show ?thesis
      by (auto simp: lock_is_held_by_someone_def k_open_r_def k_flock_def k_close_def k_unlock_def ino_def)
  next
    case (Some fd)
    with \<open>at_path k = Some i\<close> assms(2) o n show ?thesis
      by (auto simp: lock_is_held_by_someone_def k_open_r_def k_flock_def k_close_def k_unlock_def ino_def)
  qed
qed

lemma probe_answer:
  assumes "kernel_ok k" "lock_is_held_by_someone True k = (b, k')"
  shows "b \<longleftrightarrow> (\<exists>i. at_path k = Some i \<and> flock k i \<noteq> None)"
proof (cases "at_path k")
  case None
  then show ?thesis using assms(2) by (simp add: lock_is_held_by_someone_def k_open_r_def)
next
  case (Some i)
  have f: "ofd k (fresh_fd k) = None" using assms(1) by (rule kernel_ok_fresh)
  have n: "flock k i \<noteq> Some (fresh_fd k)" using assms(1) f unfolding kernel_ok_def by fastforce
  then show ?thesis using Some assms(2)
    by (cases "flock k i") (auto simp: lock_is_held_by_someone_def k_open_r_def k_flock_def ino_def)
qed

lemma procs_okD:
  "procs_ok k ps \<Longrightarrow> fd_of (ps p) = Some fd \<Longrightarrow> \<exists>i. ofd k fd = Some i"
  "procs_ok k ps \<Longrightarrow> fd_of (ps p) = Some fd \<Longrightarrow> holding (ps p) \<Longrightarrow> flock k (ino k fd) = Some fd"
  unfolding procs_ok_def by blast+

lemma own_distinctD:
  "own_distinct ps \<Longrightarrow> fd_of (ps p) = Some fd \<Longrightarrow> q \<noteq> p \<Longrightarrow> fd_of (ps q) \<noteq> Some fd"
  unfolding own_distinct_def by metis

lemma own_distinct_upd:
  assumes "own_distinct ps" "fd_of st = None \<or> fd_of st = fd_of (ps p) \<or> (\<forall>q. fd_of (ps q) \<noteq> fd_of st)"
  shows "own_distinct (ps(p := st))"
  unfolding own_distinct_def
proof (intro allI impI)
  fix q r fd
  assume "fd_of ((ps(p := st)) q) = Some fd" "fd_of ((ps(p := st)) r) = Some fd"
  then show "q = r"
    using assms unfolding own_distinct_def by (cases "q = p"; cases "r = p") (simp; metis)+
qed

lemma close_inv:
  assumes "kernel_ok k" "own_distinct ps" "procs_ok k ps" "names_ok info k ps" "fd_of (ps p) = Some fd"
  shows "kernel_ok (k_close fd k) \<and> procs_ok (k_close fd k) (ps(p := Idle)) \<and>
     names_ok info (k_close fd k) (ps(p := Idle)) \<and> (path_ok k \<longrightarrow> path_ok (k_close fd k))"
proof -
  note other = own_distinctD [OF assms(2,5)]
  have o: "ofd (k_close fd k) = (ofd k)(fd := None)" by (simp add: k_close_def)
  have i: "fd' \<noteq> fd \<Longrightarrow> ino (k_close fd k) fd' = ino k fd'" for fd' by (simp add: ino_def o)
  have l: "flock (k_close fd k) j = (if flock k j = Some fd \<and> j = ino k fd then None else flock k j)" for j
    by (simp add: k_close_def k_unlock_def)
  have c: "content (k_close fd k) = content k" "fresh_fd (k_close fd k) = fresh_fd k"
    "fresh_ino (k_close fd k) = fresh_ino k" "at_path (k_close fd k) = at_path k"
    by (simp_all add: k_close_def k_unlock_def)
  have "ofd (k_close fd k) fd' = Some j" if "flock (k_close fd k) j = Some fd'" for j fd'
  proof -
    have f: "flock k j = Some fd'" using that l [of j] by (auto split: if_splits)
    then have oj: "ofd k fd' = Some j" using assms(1) by (simp add: kernel_ok_def)
    have "fd' \<noteq> fd"
    proof
      assume "fd' = fd"
      then have "j = ino k fd" using oj by (simp add: ino_def)
      then show False using that f l [of j] \<open>fd' = fd\<close> by simp
    qed
    then show ?thesis using oj by (simp add: o)
  qed
  then have "kernel_ok (k_close fd k)" using assms(1) unfolding kernel_ok_def o c by auto
  moreover have "procs_ok (k_close fd k) (ps(p := Idle))"
    unfolding procs_ok_def
  proof (intro conjI allI impI)
    fix q fd'
    assume q: "fd_of ((ps(p := Idle)) q) = Some fd'"
    then have qp: "q \<noteq> p" "fd_of (ps q) = Some fd'" by (auto split: if_splits)
    then have "fd' \<noteq> fd" using other by auto
    then show "ofd (k_close fd k) fd' \<noteq> None" using assms(3) qp by (simp add: procs_ok_def o)
    assume "holding ((ps(p := Idle)) q)"
    then have "flock k (ino k fd') = Some fd'" using assms(3) qp by (simp add: procs_ok_def)
    then show "flock (k_close fd k) (ino (k_close fd k) fd') = Some fd'" using \<open>fd' \<noteq> fd\<close> by (simp add: i l)
  qed
  moreover have "names_ok info (k_close fd k) (ps(p := Idle))"
    unfolding names_ok_def
  proof (intro allI impI)
    fix q fd'
    assume "(ps(p := Idle)) q = Own fd'"
    then have q: "q \<noteq> p" "ps q = Own fd'" by (auto split: if_splits)
    then have "fd' \<noteq> fd" using other [of q] by auto
    then show "content (k_close fd k) (ino (k_close fd k) fd') = id_line info q"
      using assms(4) q by (simp add: names_ok_def i c)
  qed
  moreover have "path_ok k \<longrightarrow> path_ok (k_close fd k)"
    by (auto simp: path_ok_def k_close_def k_unlock_def)
  ultimately show ?thesis by blast
qed

lemma create_inv:
  assumes "kernel_ok k" "procs_ok k ps" "names_ok info k ps"
  shows "kernel_ok (k_create k) \<and> procs_ok (k_create k) ps \<and> names_ok info (k_create k) ps"
proof -
  have "content (k_create k) (ino k fd) = content k (ino k fd)" if "ps p = Own fd" for p fd
  proof -
    have "\<exists>i. ofd k fd = Some i" using procs_okD(1) [OF assms(2), of p fd] that by simp
    then have "ino k fd < fresh_ino k" using assms(1) unfolding kernel_ok_def ino_def by auto
    then show ?thesis by (simp add: k_create_def)
  qed
  moreover have "ino (k_create k) = ino k" by (auto simp: ino_def k_create_def)
  ultimately have "names_ok info (k_create k) ps" using assms(3) by (simp add: names_ok_def)
  moreover have "kernel_ok (k_create k)" using assms(1) by (auto simp: kernel_ok_def k_create_def less_Suc_eq)
  moreover have "procs_ok (k_create k) ps" using assms(2) by (auto simp: procs_ok_def k_create_def ino_def)
  ultimately show ?thesis by blast
qed

lemma open_inv:
  assumes "kernel_ok k" "procs_ok k ps" "names_ok info k ps" "ps p = Idle" "at_path k = Some i"
    and "k' = k\<lparr>ofd := (ofd k)(fresh_fd k \<mapsto> i), fresh_fd := fresh_fd k + 1\<rparr>"
  shows "kernel_ok k' \<and> procs_ok k' (ps(p := Opened (fresh_fd k))) \<and>
     names_ok info k' (ps(p := Opened (fresh_fd k))) \<and> (path_ok k \<longrightarrow> path_ok k') \<and>
     (\<forall>q. fd_of (ps q) \<noteq> Some (fresh_fd k))"
proof -
  have old: "fd_of (ps q) \<noteq> Some (fresh_fd k)" for q
    using procs_okD(1) [OF assms(2), of q "fresh_fd k"] kernel_ok_fresh [OF assms(1)] by auto
  have lk: "flock k j \<noteq> Some (fresh_fd k)" for j
    using assms(1) kernel_ok_fresh [OF assms(1)] unfolding kernel_ok_def by fastforce
  have "kernel_ok k'" using assms(1,5) lk unfolding assms(6) by (auto simp: kernel_ok_def less_Suc_eq)
  moreover have "procs_ok k' (ps(p := Opened (fresh_fd k)))"
    using assms(2) old unfolding assms(6) by (auto simp: procs_ok_def ino_def)
  moreover have "names_ok info k' (ps(p := Opened (fresh_fd k)))"
    unfolding names_ok_def
  proof (intro allI impI)
    fix q fd
    assume "(ps(p := Opened (fresh_fd k))) q = Own fd"
    then have q: "ps q = Own fd" by (auto split: if_splits)
    then have "fd \<noteq> fresh_fd k" using old [of q] by auto
    then show "content k' (ino k' fd) = id_line info q"
      using assms(3) q by (simp add: names_ok_def ino_def assms(6))
  qed
  moreover have "path_ok k \<longrightarrow> path_ok k'" using assms(5) unfolding assms(6) by (auto simp: path_ok_def)
  ultimately show ?thesis using old by blast
qed

lemma rewrite_inv:
  assumes "kernel_ok k" "own_distinct ps" "procs_ok k ps" "names_ok info k ps" "fd_of (ps p) = Some fd"
    and "holding (ps p)" "st = Own fd \<and> line = id_line info p \<or> st = Releasing fd"
  shows "kernel_ok (k_rewrite fd line k) \<and> procs_ok (k_rewrite fd line k) (ps(p := st)) \<and>
     names_ok info (k_rewrite fd line k) (ps(p := st)) \<and> (path_ok k \<longrightarrow> path_ok (k_rewrite fd line k))"
proof -
  have ne: "ino k fd' \<noteq> ino k fd" if "ps q = Own fd'" "q \<noteq> p" for q fd'
  proof
    assume same: "ino k fd' = ino k fd"
    have "flock k (ino k fd') = Some fd'" using procs_okD(2) [OF assms(3), of q fd'] that(1) by simp
    then have "fd' = fd" using procs_okD(2) [OF assms(3,5,6)] unfolding same by simp
    then show False using own_distinctD [OF assms(2,5) that(2)] that(1) by simp
  qed
  have "names_ok info (k_rewrite fd line k) (ps(p := st))"
    unfolding names_ok_def
  proof (intro allI impI)
    fix q fd'
    assume q: "(ps(p := st)) q = Own fd'"
    show "content (k_rewrite fd line k) (ino (k_rewrite fd line k) fd') = id_line info q"
    proof (cases "q = p")
      case True
      then have "fd' = fd" "line = id_line info p" using q assms(7) by auto
      then show ?thesis using True by (simp add: k_rewrite_def ino_def)
    next
      case False
      then have qo: "ps q = Own fd'" using q by simp
      have "content k (ino k fd') = id_line info q" using assms(4) qo unfolding names_ok_def by blast
      then show ?thesis using ne [OF qo False] by (simp add: k_rewrite_def ino_def)
    qed
  qed
  moreover have "kernel_ok (k_rewrite fd line k) = kernel_ok k" by (simp add: kernel_ok_def k_rewrite_def)
  moreover have "procs_ok (k_rewrite fd line k) (ps(p := st))"
    unfolding procs_ok_def
  proof (intro conjI allI impI)
    fix q fd'
    assume "fd_of ((ps(p := st)) q) = Some fd'"
    then have q: "fd_of (ps q) = Some fd'" using assms(5,7) by (auto split: if_splits)
    then show "ofd (k_rewrite fd line k) fd' \<noteq> None"
      using procs_okD(1) [OF assms(3) q] by (auto simp: k_rewrite_def)
    assume "holding ((ps(p := st)) q)"
    then have "holding (ps q)" using assms(6) by (auto split: if_splits)
    from procs_okD(2) [OF assms(3) q this]
    show "flock (k_rewrite fd line k) (ino (k_rewrite fd line k) fd') = Some fd'"
      by (simp add: k_rewrite_def ino_def)
  qed
  moreover have "path_ok (k_rewrite fd line k) = path_ok k" by (simp add: path_ok_def k_rewrite_def)
  ultimately show ?thesis using assms(1) by simp
qed

lemma step_flock_inv:
  assumes "kernel_ok k" "own_distinct ps" "procs_ok k ps" "names_ok info k ps" "ps p = Opened fd"
    and "k_flock fd k = (True, k')"
  shows "kernel_ok k' \<and> procs_ok k' (ps(p := Locked fd)) \<and> names_ok info k' (ps(p := Locked fd)) \<and>
     (path_ok k \<longrightarrow> path_ok k')"
proof -
  obtain i where i: "ofd k fd = Some i" using procs_okD(1) [OF assms(3), of p fd] assms(5) by auto
  have k': "k' = k \<and> flock k i = Some fd \<or> k' = k\<lparr>flock := (flock k)(i \<mapsto> fd)\<rparr> \<and> flock k i = None"
    using assms(6) i by (auto simp: k_flock_def ino_def split: option.splits)
  have "kernel_ok k'" using assms(1) k' i by (auto simp: kernel_ok_def split: if_splits)
  moreover have "procs_ok k' (ps(p := Locked fd))"
    unfolding procs_ok_def
  proof (intro conjI allI impI)
    fix q fd'
    assume q: "fd_of ((ps(p := Locked fd)) q) = Some fd'"
    then have q': "fd_of (ps q) = Some fd'" using assms(5) by (auto split: if_splits)
    then show "ofd k' fd' \<noteq> None" using procs_okD(1) [OF assms(3) q'] k' by auto
    assume h: "holding ((ps(p := Locked fd)) q)"
    show "flock k' (ino k' fd') = Some fd'"
    proof (cases "q = p")
      case True
      then show ?thesis using q k' i by (auto simp: ino_def)
    next
      case False
      then have "flock k (ino k fd') = Some fd'" using procs_okD(2) [OF assms(3) q'] h by simp
      then show ?thesis using k' by (auto simp: ino_def)
    qed
  qed
  moreover have "names_ok info k' (ps(p := Locked fd))"
    using assms(4) k' by (auto simp: names_ok_def ino_def)
  moreover have "path_ok k \<longrightarrow> path_ok k'" using k' by (auto simp: path_ok_def)
  ultimately show ?thesis by blast
qed

lemma flock_busy: "k_flock fd k = (False, k') \<Longrightarrow> k' = k"
  by (auto simp: k_flock_def split: option.splits)

lemma lock_inv_boot: "lock_inv info boot"
  by (simp add: lock_inv_def boot_def inv_defs own_distinct_def)

lemma lock_inv_parts:
  "lock_inv info s \<Longrightarrow> kernel_ok (kernel s)" "lock_inv info s \<Longrightarrow> own_distinct (procs s)"
  "lock_inv info s \<Longrightarrow> procs_ok (kernel s) (procs s)" "lock_inv info s \<Longrightarrow> names_ok info (kernel s) (procs s)"
  "lock_inv info s \<Longrightarrow> \<not> meddled s \<Longrightarrow> path_ok (kernel s)"
  by (simp_all add: lock_inv_def)

lemma set_proc_inv:
  assumes "kernel_ok k" "own_distinct ((procs s)(p := st))" "procs_ok k ((procs s)(p := st))"
    and "names_ok info k ((procs s)(p := st))" "\<not> meddled s \<Longrightarrow> path_ok k"
  shows "lock_inv info (set_proc p st k s)"
  using assms by (simp add: lock_inv_def set_proc_def)

lemma open_a_kernel:
  assumes "k_open_a k = (fd, k')"
  obtains k1 i where "k1 = (if at_path k = None then k_create k else k)" "at_path k1 = Some i"
    "fd = fresh_fd k1" "k' = k1\<lparr>ofd := (ofd k1)(fresh_fd k1 \<mapsto> i), fresh_fd := fresh_fd k1 + 1\<rparr>"
  using assms by (cases "at_path k") (auto simp: k_open_a_def Let_def k_create_def)

lemma create_path_ok: "path_ok k \<Longrightarrow> at_path k = None \<Longrightarrow> path_ok (k_create k)"
  by (simp add: path_ok_def k_create_def)

lemma step_open_inv:
  assumes "lock_inv info s" "procs s p = Idle" "k_open_a (kernel s) = (fd, k)"
  shows "lock_inv info (set_proc p (Opened fd) k s)"
proof -
  note I = lock_inv_parts [OF assms(1)]
  from open_a_kernel [OF assms(3)] obtain k1 i where
    k1: "k1 = (if at_path (kernel s) = None then k_create (kernel s) else kernel s)" "at_path k1 = Some i"
      "fd = fresh_fd k1" "k = k1\<lparr>ofd := (ofd k1)(fresh_fd k1 \<mapsto> i), fresh_fd := fresh_fd k1 + 1\<rparr>" .
  have c: "kernel_ok k1" "procs_ok k1 (procs s)" "names_ok info k1 (procs s)"
    using create_inv [OF I(1,3,4)] I(1,3,4) k1(1) by auto
  have path: "path_ok k1" if "\<not> meddled s" using I(5) [OF that] create_path_ok k1(1) by auto
  note o = open_inv [OF c assms(2) k1(2,4)]
  have "own_distinct ((procs s)(p := Opened fd))"
    using o k1(3) by (intro own_distinct_upd [OF I(2)]) simp
  then show ?thesis using o path k1(3) by (intro set_proc_inv) auto
qed

lemma step_close_inv:
  assumes "lock_inv info s" "fd_of (procs s p) = Some fd"
  shows "lock_inv info (set_proc p Idle (k_close fd (kernel s)) s)"
proof -
  note I = lock_inv_parts [OF assms(1)]
  note c = close_inv [OF I(1-4) assms(2)]
  have "own_distinct ((procs s)(p := Idle))" by (intro own_distinct_upd [OF I(2)]) simp
  then show ?thesis using c I(5) by (intro set_proc_inv) auto
qed

lemma step_rewrite_inv:
  assumes "lock_inv info s" "fd_of (procs s p) = Some fd" "holding (procs s p)"
    and "st = Own fd \<and> line = id_line info p \<or> st = Releasing fd"
  shows "lock_inv info (set_proc p st (k_rewrite fd line (kernel s)) s)"
proof -
  note I = lock_inv_parts [OF assms(1)]
  note c = rewrite_inv [OF I(1-4) assms(2-4)]
  have "own_distinct ((procs s)(p := st))" using assms(2,4) by (intro own_distinct_upd [OF I(2)]) auto
  then show ?thesis using c I(5) by (intro set_proc_inv) auto
qed

lemma step_lock_inv:
  assumes "lock_inv info s" "procs s p = Opened fd" "k_flock fd (kernel s) = (True, k)"
  shows "lock_inv info (set_proc p (Locked fd) k s)"
proof -
  note I = lock_inv_parts [OF assms(1)]
  note c = step_flock_inv [OF I(1-4) assms(2,3)]
  have "own_distinct ((procs s)(p := Locked fd))" using assms(2) by (intro own_distinct_upd [OF I(2)]) auto
  then show ?thesis using c I(5) by (intro set_proc_inv) auto
qed

lemma kernel_fresh_fd:
  "kernel_ok k \<Longrightarrow> kernel_ok (k\<lparr>fresh_fd := Suc (fresh_fd k)\<rparr>)"
  "procs_ok (k\<lparr>fresh_fd := n\<rparr>) ps = procs_ok k ps" "names_ok info (k\<lparr>fresh_fd := n\<rparr>) ps = names_ok info k ps"
  "path_ok (k\<lparr>fresh_fd := n\<rparr>) = path_ok k"
  by (auto simp: inv_defs less_Suc_eq)

lemma step_inv: "step info s s' \<Longrightarrow> lock_inv info s \<Longrightarrow> lock_inv info s'"
proof (induction rule: step.induct)
  case (s_probe s b k)
  from probe_kernel [OF lock_inv_parts(1) [OF s_probe(2)] s_probe(1)] s_probe(2)
  show ?case by (auto simp: lock_inv_def kernel_fresh_fd)
next
  case (s_unlink s)
  then show ?case by (auto simp: lock_inv_def inv_defs k_unlink_def)
next
  case (s_replace s)
  then show ?case using create_inv [of "kernel s" "procs s" info] by (simp add: lock_inv_def)
next
  case (s_busy s p fd k)
  then show ?case using step_close_inv [of info s p fd] flock_busy [of fd "kernel s" k] by simp
qed (auto intro: step_open_inv step_lock_inv step_close_inv step_rewrite_inv)

lemma reachable_inv: "reachable info s \<Longrightarrow> lock_inv info s"
  by (induction rule: reachable.induct) (auto intro: lock_inv_boot step_inv)

section \<open>The calls as steps\<close>

lemma first_line_id: "CHR 0x0A \<notin> set (info p) \<Longrightarrow>
  first_line (id_line info p) = ''pid='' @ py_str p @ '' '' @ info p"
proof -
  assume i: "CHR 0x0A \<notin> set (info p)"
  have "CHR 0x0A \<notin> set (py_str p)" using py_str_no_space [of p] by (auto simp: list_all_iff is_space_def)
  with i have h: "c \<in> set (''pid='' @ py_str p @ '' '' @ info p) \<Longrightarrow> c \<noteq> CHR 0x0A" for c by auto
  have "id_line info p = (''pid='' @ py_str p @ '' '' @ info p) @ [CHR 0x0A]"
    by (simp add: id_line_def newline_def)
  moreover have "takeWhile (\<lambda>c. c \<noteq> CHR 0x0A) ((''pid='' @ py_str p @ '' '' @ info p) @ [CHR 0x0A])
      = (''pid='' @ py_str p @ '' '' @ info p) @ takeWhile (\<lambda>c. c \<noteq> CHR 0x0A) [CHR 0x0A]"
    by (rule takeWhile_append2) (rule h)
  ultimately show ?thesis unfolding first_line_def by simp
qed

lemma own_holds:
  assumes "reachable info s" "fd_of (procs s p) = Some fd" "holding (procs s p)"
  shows "flock (kernel s) (ino (kernel s) fd) = Some fd"
  using procs_okD(2) [OF lock_inv_parts(3) [OF reachable_inv [OF assms(1)]] assms(2,3)] .

lemma unmeddled_intact:
  assumes "reachable info s" "fd_of (procs s p) = Some fd" "\<not> meddled s"
  shows "verify_own fd (kernel s) = None"
proof -
  note I = lock_inv_parts [OF reachable_inv [OF assms(1)]]
  from procs_okD(1) [OF I(3) assms(2)] obtain i where "ofd (kernel s) fd = Some i" ..
  moreover from this I(5) [OF assms(3)] have "at_path (kernel s) = Some i" by (simp add: path_ok_def)
  ultimately show ?thesis by (simp add: verify_own_def ino_def)
qed

lemma intact_at_path: "verify_own fd k = None \<longleftrightarrow> at_path k = Some (ino k fd)"
  by (auto simp: verify_own_def split: option.splits)

lemma close_drops:
  assumes "\<And>i. flock k i = Some fd \<Longrightarrow> ofd k fd = Some i"
  shows "ofd (k_close fd (k_rewrite fd line k)) fd = None \<and> flock (k_close fd (k_rewrite fd line k)) i \<noteq> Some fd"
  using assms [of i] by (auto simp: k_close_def k_unlock_def k_rewrite_def ino_def)

lemma wait_child_interrupts:
  "e < 3 \<Longrightarrow> wait_child e (replicate n CtrlC @ Exited c # evs) = Some (if e + n < 3 then Some c else None)"
proof (induction n arbitrary: e)
  case (Suc n)
  show ?case
  proof (cases "e + 1 < 3")
    case True
    with Suc.IH [of "e + 1"] show ?thesis by (simp add: INTERRUPTS_BEFORE_GIVING_UP_def)
  next
    case False
    with Suc.prems show ?thesis by (simp add: INTERRUPTS_BEFORE_GIVING_UP_def)
  qed
qed simp

section \<open>Properties\<close>

text \<open>C1: mutual exclusion, for every interleaving of any number of runs with kills, probes and
  deletions or replacements of the lock file. Two processes that are past their \<open>flock\<close> and
  have not closed yet, and whose locks both pass \<open>verify_intact\<close>, are one process; without
  meddling every such lock passes.\<close>

theorem tree_lock_exclusive:
  assumes "reachable info s"
    and "fd_of (procs s p) = Some fd" and "holding (procs s p)"
    and "fd_of (procs s q) = Some fd'" and "holding (procs s q)"
    and "meddled s \<Longrightarrow> verify_own fd (kernel s) = None \<and> verify_own fd' (kernel s) = None"
  shows "p = q"
proof -
  have v: "at_path (kernel s) = Some (ino (kernel s) fd)" "at_path (kernel s) = Some (ino (kernel s) fd')"
    using assms(6) unmeddled_intact [OF assms(1,2)] unmeddled_intact [OF assms(1,4)]
    by (cases "meddled s"; simp add: intact_at_path)+
  then have same: "ino (kernel s) fd = ino (kernel s) fd'" by simp
  have "fd = fd'" using own_holds [OF assms(1-3)] own_holds [OF assms(1,4,5)] unfolding same by simp
  with own_distinctD [OF lock_inv_parts(2) [OF reachable_inv [OF assms(1)]] assms(2), of q] assms(4)
  show ?thesis by auto
qed

definition demo_run :: system where
  "demo_run = set_proc 7 (Own 0) (k_rewrite 0 (id_line (\<lambda>_. ''x'') 7) (snd (k_flock 0 (snd (k_open_a (kernel boot)))))) boot"

lemma demo_reachable: "reachable (\<lambda>_. ''x'') demo_run"
proof -
  let ?i = "\<lambda>_ :: int. ''x''"
  let ?k1 = "snd (k_open_a (kernel boot))" and ?s1 = "set_proc 7 (Opened 0) (snd (k_open_a (kernel boot))) boot"
  let ?s2 = "set_proc 7 (Locked 0) (snd (k_flock 0 ?k1)) ?s1"
  have "step ?i boot ?s1" by (rule s_open) (simp_all add: boot_def k_open_a_def k_create_def)
  then have r1: "reachable ?i ?s1" using reach_boot reach_step by metis
  have "step ?i ?s1 ?s2"
    by (rule s_lock) (simp_all add: set_proc_def boot_def k_open_a_def k_create_def k_flock_def ino_def)
  then have r2: "reachable ?i ?s2" using r1 reach_step by metis
  have "step ?i ?s2 (set_proc 7 (Own 0) (k_rewrite 0 (id_line ?i 7) (kernel ?s2)) ?s2)"
    by (rule s_write) (simp add: set_proc_def)
  moreover have "set_proc 7 (Own 0) (k_rewrite 0 (id_line ?i 7) (kernel ?s2)) ?s2 = demo_run"
    by (simp add: demo_run_def set_proc_def)
  ultimately show ?thesis using r2 reach_step by metis
qed

theorem tree_lock_exclusive_witness: "holding (procs demo_run 7) \<and> (7 :: int) = 7"
proof -
  have h: "fd_of (procs demo_run 7) = Some 0" "holding (procs demo_run 7)" "\<not> meddled demo_run"
    by (simp_all add: demo_run_def set_proc_def boot_def)
  have "(7 :: int) = 7" using h(3) by (intro tree_lock_exclusive [OF demo_reachable h(1,2) h(1,2)]) simp
  with h show ?thesis by simp
qed

text \<open>A refused run. While a process owns an unmeddled lock, any attempt to take it raises
  \<open>TreeLockBusy\<close> with the owner's identity line, and leaves the file contents, the flocks and
  the lock path as they were.\<close>

theorem refusal_names_the_owner:
  assumes "reachable info s" and "procs s p = Own fd" and "\<not> meddled s" and "CHR 0x0A \<notin> set (info p)"
  shows "\<exists>k'. take_lock info q (kernel s) =
       (Inl (TreeLockBusy (py_strip (''pid='' @ py_str p @ '' '' @ info p))), k') \<and>
     content k' = content (kernel s) \<and> flock k' = flock (kernel s) \<and> at_path k' = at_path (kernel s) \<and>
     ofd k' = ofd (kernel s)"
proof -
  let ?k = "kernel s" and ?n = "fresh_fd (kernel s)"
  note I = lock_inv_parts [OF reachable_inv [OF assms(1)]]
  have o: "fd_of (procs s p) = Some fd" "holding (procs s p)" using assms(2) by simp_all
  have path: "at_path ?k = Some (ino ?k fd)"
    using unmeddled_intact [OF assms(1) o(1) assms(3)] by (simp add: intact_at_path)
  have fl: "flock ?k (ino ?k fd) = Some fd" by (rule own_holds [OF assms(1) o])
  have f: "ofd ?k ?n = None" by (rule kernel_ok_fresh [OF I(1)])
  have ne: "fd \<noteq> ?n" using f procs_okD(1) [OF I(3) o(1)] by auto
  have c: "content ?k (ino ?k fd) = id_line info p" using I(4) assms(2) by (simp add: names_ok_def)
  have ofd: "(ofd ?k)(?n := None) = ofd ?k" using f by auto
  let ?h = "''pid='' @ py_str p @ '' '' @ info p"
  have strip: "py_strip ?h \<noteq> []"
  proof -
    have "\<not> is_space (hd ?h)" by (simp add: is_space_def)
    then show ?thesis by (auto simp: py_strip_def py_lstrip_def py_rstrip_def is_space_def)
  qed
  show ?thesis
    using path fl ne c ofd strip first_line_id [of info p] assms(4)
    by (simp add: take_lock_def k_open_a_def k_flock_def k_close_def k_unlock_def ino_def read_holder_def Let_def)
qed

theorem refusal_names_the_owner_witness:
  "\<exists>k'. take_lock (\<lambda>_. ''x'') 9 (kernel demo_run) = (Inl (TreeLockBusy ''pid=7 x''), k')"
proof -
  have "procs demo_run 7 = Own 0" "\<not> meddled demo_run" by (simp_all add: demo_run_def set_proc_def boot_def)
  moreover have "py_strip (''pid='' @ py_str 7 @ '' '' @ ''x'') = ''pid=7 x''" by code_simp
  ultimately show ?thesis
    using refusal_names_the_owner [OF demo_reachable, of 7 0 9] by auto
qed

text \<open>C2: the call that takes the lock is a run of the step relation: from a state where the process
  is idle, its outcome and the kernel it leaves are those of the steps open, flock and write, or
  open and a refused flock. Everything proved of all interleavings thus holds of the calls.\<close>

theorem take_lock_is_a_run:
  assumes "procs s p = Idle" and "take_lock info p (kernel s) = (r, k')"
  shows "\<exists>s'. (step info)\<^sup>*\<^sup>* s s' \<and> kernel s' = k' \<and> meddled s' = meddled s \<and>
     (case r of Inr lock \<Rightarrow> (\<exists>fd. fh lock = Some fd \<and> procs s' = (procs s)(p := Own fd))
        | Inl e \<Rightarrow> procs s' = procs s)"
proof -
  obtain fd k1 where o: "k_open_a (kernel s) = (fd, k1)" by fastforce
  let ?s1 = "set_proc p (Opened fd) k1 s"
  have s1: "step info s ?s1" using assms(1) o by (rule s_open)
  have p1: "procs ?s1 p = Opened fd" "kernel ?s1 = k1" by (simp_all add: set_proc_def)
  obtain b k2 where f: "k_flock fd k1 = (b, k2)" by fastforce
  show ?thesis
  proof (cases b)
    case True
    let ?s2 = "set_proc p (Locked fd) k2 ?s1"
    have s2: "step info ?s1 ?s2" using p1 f True by (intro s_lock) auto
    let ?s3 = "set_proc p (Own fd) (k_rewrite fd (id_line info p) (kernel ?s2)) ?s2"
    have s3: "step info ?s2 ?s3" by (rule s_write) (simp add: set_proc_def)
    have "(step info)\<^sup>*\<^sup>* s ?s3" using s1 s2 s3 by (meson rtranclp.rtrancl_into_rtrancl rtranclp.rtrancl_refl)
    moreover have "r = Inr \<lparr>fh = Some fd, enforced = True, inherited_holder = None\<rparr>"
      "k' = k_rewrite fd (id_line info p) k2"
      using assms(2) o f True by (auto simp: take_lock_def)
    ultimately show ?thesis by (intro exI [of _ ?s3]) (simp add: set_proc_def)
  next
    case False
    let ?s2 = "set_proc p Idle (k_close fd k2) ?s1"
    have s2: "step info ?s1 ?s2" using p1 f False by (intro s_busy) auto
    have "(step info)\<^sup>*\<^sup>* s ?s2" using s1 s2 by (meson rtranclp.rtrancl_into_rtrancl rtranclp.rtrancl_refl)
    moreover have "\<exists>h. r = Inl (TreeLockBusy h)" "k' = k_close fd k2"
      using assms(2) o f False by (auto simp: take_lock_def Let_def)
    moreover have "(procs s)(p := Idle) = procs s" using assms(1) by auto
    ultimately show ?thesis by (intro exI [of _ ?s2]) (auto simp: set_proc_def)
  qed
qed

theorem take_lock_is_a_run_witness:
  "\<exists>s'. (step (\<lambda>_. ''x''))\<^sup>*\<^sup>* demo_run s' \<and> kernel s' = snd (take_lock (\<lambda>_. ''x'') 9 (kernel demo_run))"
proof -
  have "procs demo_run 9 = Idle" by (simp add: demo_run_def set_proc_def boot_def)
  from take_lock_is_a_run [OF this, of "\<lambda>_. ''x''"] show ?thesis by (metis prod.collapse)
qed

text \<open>An inherited lock is believed only on evidence. If the marker check accepts, the marker
  names this lock file and a process that is alive, the lock file names that process as its
  holder, and some description holds the flock of the inode at the lock path; if the lock is an
  owner's, the line returned is that owner's.\<close>

theorem accepted_marker_is_backed:
  assumes "reachable info s" and "inherited_lock_holder True lock_path kill env_value (kernel s) = (Inr (Some holder), k')"
  shows "\<exists>pid_str path_str pid. py_partition CHR '' '' (py_strip env_value) = (pid_str, path_str) \<and>
     py_strip path_str = lock_path \<and> py_int pid_str = Some pid \<and> kill pid \<in> {Alive, NotPermitted} \<and>
     py_startswith holder (''pid='' @ py_str pid @ '' '') \<and> holder = read_holder (kernel s) \<and>
     (\<exists>i fd. at_path (kernel s) = Some i \<and> flock (kernel s) i = Some fd \<and>
        (\<forall>p. procs s p = Own fd \<longrightarrow> content (kernel s) i = id_line info p))"
proof -
  note I = lock_inv_parts [OF reachable_inv [OF assms(1)]]
  obtain pid_str path_str where part: "py_partition CHR '' '' (py_strip env_value) = (pid_str, path_str)" by fastforce
  obtain b k1 where pr: "lock_is_held_by_someone True (kernel s) = (b, k1)" by fastforce
  obtain pid where *: "py_strip path_str = lock_path" "py_int pid_str = Some pid"
    "kill pid \<notin> {NoSuchProcess, OtherOSError}" "py_startswith holder (''pid='' @ py_str pid @ '' '')"
    "holder = read_holder (kernel s)" b
    using assms(2) part pr
    by (auto simp: inherited_lock_holder_def Let_def split: if_splits option.splits bool.splits)
  have "kill pid \<in> {Alive, NotPermitted}" using *(3) by (cases "kill pid") auto
  moreover obtain i fd where fl: "at_path (kernel s) = Some i" "flock (kernel s) i = Some fd"
    using probe_answer [OF I(1) pr] *(6) by auto
  moreover have "content (kernel s) i = id_line info p" if "procs s p = Own fd" for p
  proof -
    have "ofd (kernel s) fd = Some i" using I(1) fl(2) by (simp add: kernel_ok_def)
    then have "ino (kernel s) fd = i" by (simp add: ino_def)
    then show ?thesis using I(4) that unfolding names_ok_def by blast
  qed
  ultimately show ?thesis using part * by blast
qed

theorem accepted_marker_is_backed_witness:
  "\<exists>i fd. at_path (kernel demo_run) = Some i \<and> flock (kernel demo_run) i = Some fd"
proof -
  let ?k = "kernel demo_run"
  have c: "content ?k 0 = id_line (\<lambda>_. ''x'') 7" "at_path ?k = Some 0" "flock ?k = [0 \<mapsto> 0]" "ofd ?k = [0 \<mapsto> 0]"
    "fresh_fd ?k = 1"
    by (simp_all add: demo_run_def set_proc_def boot_def k_open_a_def k_create_def k_flock_def k_rewrite_def ino_def)
  have l: "py_strip (first_line (id_line (\<lambda>_. ''x'') 7)) = ''pid=7 x''" by code_simp
  have m: "py_partition CHR '' '' (py_strip ''7 /t/.e2e-tree.lock'') = (''7'', ''/t/.e2e-tree.lock'')"
    "py_strip ''/t/.e2e-tree.lock'' = ''/t/.e2e-tree.lock''" "py_strip ''7 /t/.e2e-tree.lock'' \<noteq> []"
    "py_int ''7'' = Some 7" "py_startswith ''pid=7 x'' (''pid='' @ py_str 7 @ '' '')"
    by code_simp+
  have "\<exists>k'. inherited_lock_holder True ''/t/.e2e-tree.lock'' (\<lambda>_. Alive) ''7 /t/.e2e-tree.lock'' ?k
      = (Inr (Some ''pid=7 x''), k')"
    using m l c
    by (simp add: inherited_lock_holder_def Let_def in_pid_t_def read_holder_def lock_is_held_by_someone_def
        k_open_r_def k_flock_def ino_def)
  then obtain k' where "inherited_lock_holder True ''/t/.e2e-tree.lock'' (\<lambda>_. Alive) ''7 /t/.e2e-tree.lock'' ?k
      = (Inr (Some ''pid=7 x''), k')" by blast
  from accepted_marker_is_backed [OF demo_reachable this] show ?thesis by blast
qed

text \<open>The wrapper's exit status. Fewer than three interrupts never end the wait: the child's own
  status is returned (128 plus the signal number for a child killed by a signal); the third
  interrupt, wherever it falls, gives 130.\<close>

theorem wrapper_waits_out_two_interrupts:
  assumes "early_interrupts ch < 3" and "popen ch = None" and "fds = Inr js"
    and "child_events ch = replicate n CtrlC @ Exited returncode # evs"
  shows "run_child_holding_lock fds ch =
     Some (Inr (if early_interrupts ch + n < 3 then (if returncode < 0 then 128 - returncode else returncode) else 130))"
  using assms wait_child_interrupts [OF assms(1)]
  by (simp add: run_child_holding_lock_def exit_status_def INTERRUPTS_BEFORE_GIVING_UP_def)

theorem wrapper_waits_out_two_interrupts_witness:
  "run_child_holding_lock (Inr []) \<lparr>early_interrupts = 0, popen = None, child_events = [CtrlC, CtrlC, Exited (-2)]\<rparr>
     = Some (Inr 130)"
  using wrapper_waits_out_two_interrupts [of "\<lparr>early_interrupts = 0, popen = None, child_events = [CtrlC, CtrlC, Exited (-2)]\<rparr>"
      "Inr []" "[]" 2 "-2" "[]"] by (simp add: numeral_2_eq_2)

text \<open>C3: the wrapper reports success only for a protected run, and never keeps the lock. Whatever
  happened to the tree meanwhile, exit status 0 means that the command itself exited with 0 and
  that the lock verified as intact afterwards; and once a run that took the lock itself has
  ended, by whatever way, its description is closed and holds no flock.\<close>

theorem wrapper_success_is_protected:
  assumes "acquire (has_fcntl env) True (lock_file env) (kill_probe env) (marker env) (own_info env) (own_pid env) k
      = (Inr lock, k1)"
    and "strip_dashes argv \<noteq> []" and "lock_main env argv k = Some (r, k')"
    and "\<forall>i fd. flock (meanwhile env k1) i = Some fd \<longrightarrow> ofd (meanwhile env k1) fd = Some i"
  shows "(case r of Inl e \<Rightarrow> True | Inr status \<Rightarrow> status = 0 \<longrightarrow>
       run_child_holding_lock (job_fds env) (command env) = Some (Inr 0) \<and>
       fst (verify_intact (has_fcntl env) (lock_file env) (kill_probe env) (marker env) lock (meanwhile env k1)) = Inr None) \<and>
     (case fh lock of None \<Rightarrow> True | Some fd \<Rightarrow> inherited_holder lock = None \<longrightarrow>
       ofd k' fd = None \<and> (\<forall>i. flock k' i \<noteq> Some fd))"
proof -
  let ?v = "verify_intact (has_fcntl env) (lock_file env) (kill_probe env) (marker env) lock"
  obtain k2 where m: "main_locked env lock (meanwhile env k1) = Some (r, k2)"
    "k' = snd (release (own_info env) (own_pid env) lock k2)"
    using assms(1-3) by (auto simp: lock_main_def split: option.splits prod.splits)
  have 1: "case r of Inl e \<Rightarrow> True | Inr status \<Rightarrow> status = 0 \<longrightarrow>
       run_child_holding_lock (job_fds env) (command env) = Some (Inr 0) \<and> fst (?v (meanwhile env k1)) = Inr None"
    using m(1) by (auto simp: main_locked_def split: option.splits sum.splits prod.splits if_splits)
  have k2: "k2 = meanwhile env k1" if "fh lock = Some fd" "inherited_holder lock = None" for fd
    using m(1) that by (auto simp: main_locked_def verify_intact_def split: option.splits sum.splits)
  have 2: "case fh lock of None \<Rightarrow> True | Some fd \<Rightarrow> inherited_holder lock = None \<longrightarrow>
       ofd k' fd = None \<and> (\<forall>i. flock k' i \<noteq> Some fd)"
    using m(2) k2 close_drops assms(4) by (auto simp: release_def split: option.splits)
  from 1 2 show ?thesis by blast
qed

definition demo_main :: main_env where
  "demo_main = \<lparr>has_fcntl = True, lock_file = ''/t/.e2e-tree.lock'', kill_probe = (\<lambda>_. NoSuchProcess), marker = '''',
     own_info = (\<lambda>_. ''x''), own_pid = 7, job_fds = Inr [],
     command = \<lparr>early_interrupts = 0, popen = None, child_events = [CtrlC, Exited 0]\<rparr>, meanwhile = (\<lambda>k. k)\<rparr>"

theorem wrapper_success_is_protected_witness:
  "\<exists>k'. lock_main demo_main [''--'', ''make''] (kernel boot) = Some (Inr 0, k') \<and> ofd k' 0 = None"
proof -
  let ?k0 = "kernel boot" and ?lock = "\<lparr>fh = Some 0, enforced = True, inherited_holder = None\<rparr>"
  have "\<exists>k1. acquire (has_fcntl demo_main) True (lock_file demo_main) (kill_probe demo_main) (marker demo_main)
      (own_info demo_main) (own_pid demo_main) ?k0 = (Inr ?lock, k1) \<and> flock k1 = [0 \<mapsto> 0] \<and> ofd k1 = [0 \<mapsto> 0] \<and> at_path k1 = Some 0"
    by (simp add: demo_main_def acquire_def inherited_lock_holder_def py_strip_def py_lstrip_def py_rstrip_def
        take_lock_def boot_def k_open_a_def k_create_def k_flock_def k_rewrite_def ino_def)
  then obtain k1 where k1: "acquire (has_fcntl demo_main) True (lock_file demo_main) (kill_probe demo_main)
      (marker demo_main) (own_info demo_main) (own_pid demo_main) ?k0 = (Inr ?lock, k1)"
    "flock k1 = [0 \<mapsto> 0]" "ofd k1 = [0 \<mapsto> 0]" "at_path k1 = Some 0" by blast
  have "run_child_holding_lock (job_fds demo_main) (command demo_main) = Some (Inr 0)"
    "meanwhile demo_main k1 = k1"
    by (simp_all add: demo_main_def run_child_holding_lock_def INTERRUPTS_BEFORE_GIVING_UP_def exit_status_def)
  then obtain k' where r: "lock_main demo_main [''--'', ''make''] ?k0 = Some (Inr 0, k')"
    using k1 by (simp add: lock_main_def strip_dashes_def main_locked_def verify_intact_def verify_own_def ino_def)
  have a: "strip_dashes [''--'', ''make''] \<noteq> []" by (simp add: strip_dashes_def)
  have f: "\<forall>i fd. flock (meanwhile demo_main k1) i = Some fd \<longrightarrow> ofd (meanwhile demo_main k1) fd = Some i"
    using k1(2,3) \<open>meanwhile demo_main k1 = k1\<close> by (simp split: if_splits)
  from wrapper_success_is_protected [OF k1(1) a r f] have "ofd k' 0 = None" by simp
  with r show ?thesis by blast
qed

text \<open>The marker check is not total: a pid in the marker that does not fit the kernel's \<open>pid_t\<close>
  escapes as \<open>OverflowError\<close> instead of being ignored.\<close>

lemma huge_marker_pid_raises:
  "py_partition CHR '' '' (py_strip env_value) = (pid_str, path_str) \<Longrightarrow> py_strip env_value \<noteq> [] \<Longrightarrow>
   py_strip path_str = lock_path \<Longrightarrow> py_int pid_str = Some pid \<Longrightarrow> 2 ^ 31 \<le> pid \<Longrightarrow>
   inherited_lock_holder fcntl lock_path kill env_value k = (Inl OverflowError, k)"
  by (simp add: inherited_lock_holder_def Let_def in_pid_t_def)

end
