(* ===== verification/Packet_Injector.thy ===== *)
theory Packet_Injector
  imports Rtu_Codec Deadline_Loop
begin

text \<open>
  The traffic generator of \<open>api_tests/packet_injector.py\<close>: the UART socket, the one-shot
  injection, and \<open>PacketInjector\<close> with its start, stop and background loop.
  A socket is whether it is open; the frames written so far are the wire; the outcomes of the
  \<open>sendall\<close> calls to come are an oracle. The background thread is the number of passes it
  makes before it sees the stop event.
\<close>

section \<open>Sockets\<close>

definition DEFAULT_SLAVE :: int where "DEFAULT_SLAVE = 1"
definition DEFAULT_LIVE_START :: int where "DEFAULT_LIVE_START = 0"
definition DEFAULT_LIVE_COUNT :: int where "DEFAULT_LIVE_COUNT = 5"
definition DEFAULT_LIVE_BASE :: int where "DEFAULT_LIVE_BASE = 1000"
definition DEFAULT_STATIC_START :: int where "DEFAULT_STATIC_START = 5"
definition DEFAULT_STATIC_COUNT :: int where "DEFAULT_STATIC_COUNT = 5"
definition DEFAULT_STATIC_BASE :: int where "DEFAULT_STATIC_BASE = 2000"
definition DEFAULT_INTERVAL :: time where "DEFAULT_INTERVAL = 1/2"
definition DEFAULT_BAD_CRC_PERIOD :: int where "DEFAULT_BAD_CRC_PERIOD = 5"

record injector =
  inj_port :: int
  slave :: int
  live_start :: int
  live_count :: int
  live_base :: int
  static_start :: "int option"
  static_count :: int
  static_base :: int
  interval :: time
  bad_crc_period :: int
  include_bad_crc :: bool
  include_all_fc :: bool
  stop_flag :: bool
  inj_thread :: "bool option"
  error :: "exn option"
  sock_open :: bool
  wire :: "bytes list"
  send_results :: "exn option list"

definition new_injector :: "int \<Rightarrow> injector" where
  "new_injector port =
     \<lparr>inj_port = port, slave = DEFAULT_SLAVE, live_start = DEFAULT_LIVE_START, live_count = DEFAULT_LIVE_COUNT,
      live_base = DEFAULT_LIVE_BASE, static_start = Some DEFAULT_STATIC_START,
      static_count = DEFAULT_STATIC_COUNT, static_base = DEFAULT_STATIC_BASE, interval = DEFAULT_INTERVAL,
      bad_crc_period = DEFAULT_BAD_CRC_PERIOD, include_bad_crc = True, include_all_fc = True,
      stop_flag = False, inj_thread = None, error = None, sock_open = False, wire = [], send_results = []\<rparr>"

text \<open>The argument is what \<open>connect\<close> raises, if anything.\<close>

definition open_uart_socket :: "exn option \<Rightarrow> int \<Rightarrow> unit res" where
  "open_uart_socket conn port =
     (if port \<notin> {1, 2} then Inl ValueError
      else (case conn of Some e \<Rightarrow> Inl e | None \<Rightarrow> Inr ()))"

text \<open>\<open>inject_bytes\<close> on the injector's own socket.\<close>

definition inject_bytes :: "bytes \<Rightarrow> injector \<Rightarrow> unit res \<times> injector" where
  "inject_bytes data self =
     (case send_results self of
        [] \<Rightarrow> (Inr (), self\<lparr>wire := wire self @ [data]\<rparr>)
      | None # rest \<Rightarrow> (Inr (), self\<lparr>wire := wire self @ [data], send_results := rest\<rparr>)
      | Some e # rest \<Rightarrow> (Inl e, self\<lparr>send_results := rest\<rparr>))"

text \<open>\<open>inject_bytes\<close> without a socket: a fresh one is opened and closed. The result says what
  was raised, which frames went out, and whether a socket is left open.\<close>

definition inject_once :: "exn option \<Rightarrow> exn option \<Rightarrow> int \<Rightarrow> bytes \<Rightarrow> unit res \<times> bytes list \<times> bool" where
  "inject_once conn send port data =
     (case open_uart_socket conn port of
        Inl e \<Rightarrow> (Inl e, [], False)
      | Inr _ \<Rightarrow> (case send of Some e \<Rightarrow> (Inl e, [], False) | None \<Rightarrow> (Inr (), [data], False)))"

definition safe_inject :: "bytes \<Rightarrow> injector \<Rightarrow> unit res \<times> injector" where
  "safe_inject data self =
     (case inject_bytes data self of
        (Inl e, self) \<Rightarrow> (Inl e, self\<lparr>error := Some e\<rparr>)
      | (Inr u, self) \<Rightarrow> (Inr u, self))"

section \<open>Lifecycle\<close>

text \<open>Sequencing of the fallible calls of \<open>start\<close> and \<open>_run\<close>.\<close>

definition seq_inj ::
  "unit res \<times> injector \<Rightarrow> (injector \<Rightarrow> unit res \<times> injector) \<Rightarrow> unit res \<times> injector" where
  "seq_inj m f = (case m of (Inl e, self) \<Rightarrow> (Inl e, self) | (Inr _, self) \<Rightarrow> f self)"

text \<open>An argument that fails to build raises before the call it is for.\<close>

definition with_frame ::
  "bytes res \<Rightarrow> (bytes \<Rightarrow> injector \<Rightarrow> unit res \<times> injector) \<Rightarrow> injector \<Rightarrow> unit res \<times> injector" where
  "with_frame frame f self = (case frame of Inl e \<Rightarrow> (Inl e, self) | Inr d \<Rightarrow> f d self)"

definition build_live_exchange :: "injector \<Rightarrow> bytes res" where
  "build_live_exchange self =
     build_fc03_exchange (slave self) (live_start self) (live_count self) (live_base self + live_start self)"

definition send_static :: "injector \<Rightarrow> unit res \<times> injector" where
  "send_static self =
     (case static_start self of
        Some st \<Rightarrow>
          if static_count self > 0
          then with_frame (build_fc03_exchange (slave self) st (static_count self) (static_base self + st)) safe_inject self
          else (Inr (), self)
      | None \<Rightarrow> (Inr (), self))"

definition send_all_fc :: "injector \<Rightarrow> unit res \<times> injector" where
  "send_all_fc self =
     (if include_all_fc self then
        seq_inj (with_frame (build_fc01_exchange (slave self) 100 1 1) inject_bytes self) (\<lambda>self.
        seq_inj (with_frame (build_fc02_exchange (slave self) 200 1 0) inject_bytes self) (\<lambda>self.
        with_frame (build_fc04_exchange (slave self) 300 1 3000) inject_bytes self))
      else (Inr (), self))"

text \<open>\<open>threading.Thread.start\<close> may itself raise; the attribute is assigned before. A thread is
  \<open>Some False\<close> when created and \<open>Some True\<close> once started.\<close>

definition start_thread :: "exn option \<Rightarrow> injector \<Rightarrow> unit res \<times> injector" where
  "start_thread tstart self =
     (case tstart of
        Some e \<Rightarrow> (Inl e, self\<lparr>inj_thread := Some False\<rparr>)
      | None \<Rightarrow> (Inr (), self\<lparr>inj_thread := Some True\<rparr>))"

definition start_body :: "exn option \<Rightarrow> injector \<Rightarrow> unit res \<times> injector" where
  "start_body tstart self =
     seq_inj (send_static self) (\<lambda>self.
     seq_inj (send_all_fc self) (\<lambda>self.
     seq_inj (with_frame (build_live_exchange self) safe_inject self) (start_thread tstart)))"

definition start :: "exn option \<Rightarrow> exn option \<Rightarrow> injector \<Rightarrow> unit res \<times> injector" where
  "start conn tstart self =
     (if inj_thread self \<noteq> None then (Inl RuntimeError, self)
      else
        (case open_uart_socket conn (inj_port self) of
           Inl e \<Rightarrow> (Inl e, self)
         | Inr _ \<Rightarrow>
             (case start_body tstart (self\<lparr>sock_open := True\<rparr>) of
                (Inl e, self) \<Rightarrow> (Inl e, self\<lparr>sock_open := False\<rparr>)
              | (Inr u, self) \<Rightarrow> (Inr u, self))))"

text \<open>\<open>exits\<close>: whether a started thread is gone after the five-second join; joining one that never
  started raises.\<close>

definition stop :: "bool \<Rightarrow> injector \<Rightarrow> unit res \<times> injector" where
  "stop exits self =
     (case inj_thread self of
        None \<Rightarrow> (Inr (), self\<lparr>sock_open := False\<rparr>)
      | Some started \<Rightarrow>
        (let self = self\<lparr>stop_flag := True\<rparr> in
         if \<not> started then (Inl RuntimeError, self)
         else if \<not> exits then (Inl RuntimeError, self\<lparr>sock_open := False, inj_thread := None\<rparr>)
         else
           (let self = self\<lparr>inj_thread := None, sock_open := False\<rparr> in
            case error self of
              None \<Rightarrow> (Inr (), self)
            | Some err \<Rightarrow> (Inl err, self\<lparr>error := None\<rparr>))))"

section \<open>The background loop\<close>

definition run_cycle :: "int \<Rightarrow> injector \<Rightarrow> unit res \<times> injector" where
  "run_cycle cycle self =
     seq_inj
       (if include_bad_crc self then
          (if bad_crc_period self = 0 then (Inl ZeroDivisionError, self)
           else if cycle mod bad_crc_period self = 0 then safe_inject BAD_CRC_PACKET self
           else (Inr (), self))
        else (Inr (), self))
       (\<lambda>self. with_frame (build_live_exchange self) safe_inject self)"

text \<open>\<open>n\<close> passes find the stop event unset; a stop event that is already set lets none begin.\<close>

fun run_cycles :: "nat \<Rightarrow> int \<Rightarrow> injector \<Rightarrow> injector" where
  "run_cycles 0 cycle self = self"
| "run_cycles (Suc n) cycle self =
     (case run_cycle (cycle + 1) self of
        (Inr _, self) \<Rightarrow> run_cycles n (cycle + 1) self
      | (Inl e, self) \<Rightarrow> (if error self = None then self\<lparr>error := Some e\<rparr> else self))"

definition run_thread :: "nat \<Rightarrow> injector \<Rightarrow> injector" where
  "run_thread n self = (if stop_flag self then self else run_cycles n 0 self)"

text \<open>The nap between two cycles: each pass reads the clock for its condition and again for the
  length of its sleep.\<close>

definition nap_s :: "time \<Rightarrow> time \<Rightarrow> time" where
  "nap_s until now = max 0 (min (1/20) (until - now))"

definition nap_pass :: "time \<Rightarrow> time \<times> bool \<Rightarrow> bool \<times> time list \<Rightarrow> (bool \<times> time list, unit) flow" where
  "nap_pass until p st = (case (p, st) of ((now, stop_set), (_, naps)) \<Rightarrow> Next (stop_set, naps @ [nap_s until now]))"

definition nap :: "time \<Rightarrow> (time \<times> time \<times> bool) list \<Rightarrow> ((bool \<times> time list, unit) outcome \<times> (time \<times> time \<times> bool) list) option" where
  "nap until ps = deadline_loop (\<lambda>(stop_set, _). \<not> stop_set) until (nap_pass until) ps (False, [])"

section \<open>Lemmas\<close>

named_theorems inj_simps \<open>the calls of an injector whose sends succeed\<close>

lemma seq_inj_simps [simp]:
  "seq_inj (Inl e, self) f = (Inl e, self)" "seq_inj (Inr u, self) f = f self"
  by (simp_all add: seq_inj_def)

lemma inject_frame:
  "inject_bytes d self = (r, self') \<Longrightarrow> inj_thread self' = inj_thread self \<and> sock_open self' = sock_open self"
  by (auto simp: inject_bytes_def split: list.splits option.splits)

lemma safe_inject_frame:
  "safe_inject d self = (r, self') \<Longrightarrow> inj_thread self' = inj_thread self \<and> sock_open self' = sock_open self"
  by (auto simp: safe_inject_def split: prod.splits sum.splits dest: inject_frame)

lemma inject_ok [inj_simps]:
  "send_results self = [] \<Longrightarrow> inject_bytes d self = (Inr (), self\<lparr>wire := wire self @ [d]\<rparr>)"
  "send_results self = [] \<Longrightarrow> safe_inject d self = (Inr (), self\<lparr>wire := wire self @ [d]\<rparr>)"
  by (simp_all add: inject_bytes_def safe_inject_def)

text \<open>Which calls can change whether a thread runs or the socket is open.\<close>

definition same_up :: "injector \<Rightarrow> injector \<Rightarrow> bool" where
  "same_up a b \<longleftrightarrow> inj_thread b = inj_thread a \<and> sock_open b = sock_open a"

lemma same_up_trans: "same_up a b \<Longrightarrow> same_up b c \<Longrightarrow> same_up a c"
  by (simp add: same_up_def)

lemma seq_same_up:
  assumes "same_up self (snd m)" "\<And>i. same_up i (snd (f i))"
  shows "same_up self (snd (seq_inj m f))"
  using assms by (cases m; cases "fst m") (auto intro: same_up_trans)

lemma with_frame_same_up: "(\<And>d i. same_up i (snd (f d i))) \<Longrightarrow> same_up self (snd (with_frame fr f self))"
  by (cases fr) (simp_all add: with_frame_def same_up_def)

lemma inject_same_up: "same_up self (snd (inject_bytes d self))" "same_up self (snd (safe_inject d self))"
  using inject_frame [of d self] safe_inject_frame [of d self] unfolding same_up_def
  by (metis prod.collapse)+

lemma send_same_up: "same_up self (snd (send_static self))" "same_up self (snd (send_all_fc self))"
proof -
  have r: "same_up i i" for i by (simp add: same_up_def)
  show "same_up self (snd (send_static self))"
    by (auto simp: send_static_def r inject_same_up with_frame_same_up split: option.splits)
  show "same_up self (snd (send_all_fc self))"
    by (simp add: send_all_fc_def r inject_same_up with_frame_same_up seq_same_up)
qed

lemma start_body_up:
  assumes "start_body tstart self = (r, self')" "inj_thread self = None"
  shows "sock_open self' = sock_open self" and "inj_thread self' = Some True \<longleftrightarrow> r = Inr ()"
proof -
  obtain r1 i1 where 1: "send_static self = (r1, i1)" by fastforce
  obtain r2 i2 where 2: "send_all_fc i1 = (r2, i2)" by fastforce
  obtain r3 i3 where 3: "with_frame (build_live_exchange i2) safe_inject i2 = (r3, i3)" by fastforce
  have s: "same_up self i1" "same_up i1 i2" "same_up i2 i3"
    using send_same_up(1) [of self] send_same_up(2) [of i1] with_frame_same_up [of safe_inject i2, OF inject_same_up(2)]
      1 2 3 by (metis snd_conv)+
  show "sock_open self' = sock_open self" "inj_thread self' = Some True \<longleftrightarrow> r = Inr ()"
    using assms s 1 2 3
    by (cases r1; cases r2; cases r3; auto simp: start_body_def start_thread_def same_up_def split: option.splits)+
qed

section \<open>Calls in any order\<close>

inductive calls :: "injector \<Rightarrow> injector \<Rightarrow> bool" where
  c_none: "calls self self"
| c_start: "calls self a \<Longrightarrow> start conn tstart a = (r, b) \<Longrightarrow> calls self b"
| c_stop: "calls self a \<Longrightarrow> stop exits a = (r, b) \<Longrightarrow> calls self b"
| c_run: "calls self a \<Longrightarrow> inj_thread a = Some True \<Longrightarrow> calls self (run_thread n a)"

lemma run_cycle_same_up: "same_up self (snd (run_cycle c self))"
proof -
  have r: "same_up i i" for i by (simp add: same_up_def)
  show ?thesis
    unfolding run_cycle_def
    by (intro seq_same_up with_frame_same_up inject_same_up) (auto simp: r inject_same_up)
qed

lemma run_cycles_same_up: "same_up self (run_cycles n c self)"
proof (induction n arbitrary: c self)
  case (Suc n)
  obtain r i where ri: "run_cycle (c + 1) self = (r, i)" by fastforce
  then have "same_up self i" using run_cycle_same_up [of self "c + 1"] by simp
  with Suc.IH ri show ?case by (cases r) (auto intro: same_up_trans simp: same_up_def)
qed (simp add: same_up_def)

definition thread_owns_socket :: "injector \<Rightarrow> bool" where
  "thread_owns_socket self \<longleftrightarrow> (sock_open self \<longleftrightarrow> inj_thread self = Some True)"

lemma start_up: "start conn tstart self = (r, self') \<Longrightarrow> thread_owns_socket self \<Longrightarrow> thread_owns_socket self'"
  using start_body_up [of tstart "self\<lparr>sock_open := True\<rparr>"]
  by (auto simp: start_def thread_owns_socket_def split: if_splits sum.splits prod.splits)

lemma stop_up: "stop exits self = (r, self') \<Longrightarrow> thread_owns_socket self \<Longrightarrow> thread_owns_socket self' \<and> \<not> sock_open self'"
  by (auto simp: stop_def thread_owns_socket_def Let_def split: if_splits option.splits)

lemma inject_stop_flag:
  "inject_bytes d self = (r, self') \<Longrightarrow> stop_flag self' = stop_flag self"
  "safe_inject d self = (r, self') \<Longrightarrow> stop_flag self' = stop_flag self"
  by (auto simp: safe_inject_def inject_bytes_def split: prod.splits sum.splits list.splits option.splits)

lemma seq_stop_flag:
  assumes "stop_flag (snd m) = stop_flag self" "\<And>i. stop_flag (snd (f i)) = stop_flag i"
  shows "stop_flag (snd (seq_inj m f)) = stop_flag self"
  using assms by (cases m; cases "fst m") auto

lemma with_frame_stop_flag:
  "(\<And>d i. stop_flag (snd (f d i)) = stop_flag i) \<Longrightarrow> stop_flag (snd (with_frame fr f self)) = stop_flag self"
  by (cases fr) (simp_all add: with_frame_def)

lemma start_body_stop_flag: "stop_flag (snd (start_body tstart self)) = stop_flag self"
proof -
  have i: "stop_flag (snd (inject_bytes d s)) = stop_flag s" "stop_flag (snd (safe_inject d s)) = stop_flag s" for d s
    using inject_stop_flag [of d s] by (metis prod.collapse)+
  have "stop_flag (snd (send_static s)) = stop_flag s" "stop_flag (snd (send_all_fc s)) = stop_flag s" for s
    by (auto simp: send_static_def send_all_fc_def i with_frame_stop_flag seq_stop_flag split: option.splits)
  moreover have "stop_flag (snd (start_thread tstart s)) = stop_flag s" for s
    by (auto simp: start_thread_def split: option.splits)
  ultimately show ?thesis
    by (simp add: start_body_def i with_frame_stop_flag seq_stop_flag)
qed

lemma start_stop_flag: "start conn tstart self = (r, self') \<Longrightarrow> stop_flag self' = stop_flag self"
  using start_body_stop_flag [of tstart "self\<lparr>sock_open := True\<rparr>"]
  by (auto simp: start_def split: if_splits sum.splits prod.splits)

text \<open>A call that does not raise leaves the recorded failure as it was.\<close>

definition keeps_error :: "injector \<Rightarrow> unit res \<times> injector \<Rightarrow> bool" where
  "keeps_error self m \<longleftrightarrow> (fst m = Inr () \<longrightarrow> error (snd m) = error self)"

lemma seq_keeps_error:
  assumes "keeps_error self m" "\<And>i. keeps_error i (f i)"
  shows "keeps_error self (seq_inj m f)"
  using assms by (cases m; cases "fst m") (auto simp: keeps_error_def)

lemma start_body_keeps_error: "keeps_error self (start_body tstart self)"
proof -
  have w: "keeps_error s (with_frame fr inject_bytes s)" "keeps_error s (with_frame fr safe_inject s)" for fr s
    by (auto simp: keeps_error_def with_frame_def safe_inject_def inject_bytes_def
        split: sum.splits list.splits option.splits)
  have "keeps_error s (send_static s)" for s
    using w by (auto simp: send_static_def keeps_error_def split: option.splits)
  moreover have "keeps_error s (send_all_fc s)" for s
    using w seq_keeps_error by (auto simp: send_all_fc_def) (simp add: keeps_error_def)
  moreover have "keeps_error s (start_thread tstart s)" for s
    by (auto simp: start_thread_def keeps_error_def split: option.splits)
  ultimately show ?thesis
    unfolding start_body_def by (intro seq_keeps_error w)
qed

lemma int_div_step:
  "0 < p \<Longrightarrow> (1 + int n) div p = (if (1 + int n) mod p = 0 then int n div p + 1 else int n div p)"
  using div_Suc [of n "nat p"] by (cases p) (auto simp flip: of_nat_Suc zdiv_int zmod_int)

section \<open>Traffic\<close>

definition cycle_frames :: "int \<Rightarrow> int \<Rightarrow> bytes \<Rightarrow> bytes list" where
  "cycle_frames period cycle live = (if cycle mod period = 0 then [BAD_CRC_PACKET] else []) @ [live]"

definition traffic :: "int \<Rightarrow> int \<Rightarrow> nat \<Rightarrow> bytes \<Rightarrow> bytes list" where
  "traffic period cycle n live = concat (map (\<lambda>i. cycle_frames period (cycle + 1 + int i) live) [0..<n])"

lemma run_cycles_traffic:
  assumes "send_results self = []" "include_bad_crc self" "bad_crc_period self \<noteq> 0" "build_live_exchange self = Inr live"
  shows "run_cycles n c self = self\<lparr>wire := wire self @ traffic (bad_crc_period self) c n live\<rparr>"
  using assms
proof (induction n arbitrary: c self)
  case (Suc n)
  let ?i = "self\<lparr>wire := wire self @ cycle_frames (bad_crc_period self) (c + 1) live\<rparr>"
  have b: "build_live_exchange (self\<lparr>wire := w\<rparr>) = Inr live" for w
    using Suc.prems(4) by (simp add: build_live_exchange_def)
  have "run_cycle (c + 1) self = (Inr (), ?i)"
    using Suc.prems b by (simp add: run_cycle_def inj_simps with_frame_def cycle_frames_def)
  moreover have "run_cycles n (c + 1) ?i
      = ?i\<lparr>wire := wire ?i @ traffic (bad_crc_period ?i) (c + 1) n live\<rparr>"
    using Suc.prems b by (intro Suc.IH) auto
  moreover have "traffic p c (Suc n) live = cycle_frames p (c + 1) live @ traffic p (c + 1) n live" for p
  proof -
    have "[0..<Suc n] = 0 # map Suc [0..<n]" by (simp add: upt_conv_Cons map_Suc_upt del: upt_Suc)
    then show ?thesis by (simp add: traffic_def comp_def algebra_simps del: upt_Suc)
  qed
  ultimately show ?case by simp
qed (simp add: traffic_def)

lemma live_not_bad: "build_live_exchange self = Inr live \<Longrightarrow> 8 < length live"
proof -
  assume "build_live_exchange self = Inr live"
  then obtain a b where "a @ b = live" "build_fc03_request (slave self) (live_start self) (live_count self) = Inr a"
     "build_fc03_response (slave self) (live_count self) (live_base self + live_start self) = Inr b"
    by (auto simp: build_live_exchange_def build_fc03_exchange_def rbind_eq_Inr)
  then show ?thesis
    by (auto simp: frame_simps framed_def read_pdu_def crc_trailer_def reg_response_def split: if_splits)
qed

section \<open>Properties\<close>


text \<open>With sends that succeed, \<open>n\<close> background passes put exactly the live exchanges on the wire, with
  one corrupted packet before every \<open>bad_crc_period\<close>-th of them; \<open>n div period\<close> corrupted packets in all.\<close>

theorem injector_traffic:
  assumes "send_results self = []" "\<not> stop_flag self" "include_bad_crc self" "0 < bad_crc_period self"
    and "build_live_exchange self = Inr live"
  shows "\<exists>sent. run_thread n self = self\<lparr>wire := wire self @ sent\<rparr> \<and>
     sent = concat (map (\<lambda>i. cycle_frames (bad_crc_period self) (1 + int i) live) [0..<n]) \<and>
     count_list sent live = n \<and> int (count_list sent BAD_CRC_PACKET) = int n div bad_crc_period self"
proof -
  let ?p = "bad_crc_period self"
  have ne: "live \<noteq> BAD_CRC_PACKET" using live_not_bad [OF assms(5)] by (auto simp: BAD_CRC_PACKET_def)
  have "count_list (traffic ?p 0 n live) live = n" for n
    using ne by (induction n) (auto simp: traffic_def cycle_frames_def)
  moreover have "int (count_list (traffic ?p 0 n live) BAD_CRC_PACKET) = int n div ?p" for n
    using ne assms(4)
    by (induction n) (auto simp: traffic_def cycle_frames_def int_div_step add.commute)
  moreover have "run_thread n self = self\<lparr>wire := wire self @ traffic ?p 0 n live\<rparr>"
    using run_cycles_traffic [OF assms(1,3) _ assms(5)] assms(2,4) by (simp add: run_thread_def)
  ultimately show ?thesis by (auto simp: traffic_def)
qed


theorem injector_traffic_witness:
  "let self = (new_injector 1)\<lparr>live_count := 1\<rparr> in
   \<exists>live sent. build_live_exchange self = Inr live \<and> run_thread 11 self = self\<lparr>wire := sent\<rparr> \<and>
     count_list sent live = 11 \<and> count_list sent BAD_CRC_PACKET = 2"
proof -
  let ?self = "(new_injector 1)\<lparr>live_count := 1\<rparr>"
  obtain live where l: "build_live_exchange ?self = Inr live"
    by (simp add: build_live_exchange_def build_fc03_exchange_def new_injector_def frame_simps reg_response_def
        DEFAULT_LIVE_BASE_def DEFAULT_LIVE_START_def)
  then show ?thesis
    using injector_traffic [of ?self live 11] by (auto simp: new_injector_def DEFAULT_BAD_CRC_PERIOD_def)
qed

text \<open>C40: nothing clears the stop event, so after any call of \<open>stop\<close> on a started injector no later
  \<open>start\<close> produces background traffic: the new thread leaves its loop before its first pass.\<close>

theorem restarted_injector_is_silent:
  assumes "stop exits a = (r, b)" "inj_thread a \<noteq> None" "calls b c"
  shows "stop_flag c \<and> run_thread n c = c"
proof -
  have "stop_flag b" using assms(1,2) by (auto simp: stop_def Let_def split: if_splits option.splits)
  with assms(3) have "stop_flag c"
  proof (induction rule: calls.induct)
    case (c_start self a conn tstart r b)
    then show ?case using start_stop_flag by metis
  next
    case (c_stop self a exits r b)
    then show ?case by (auto simp: stop_def Let_def split: if_splits option.splits)
  qed (auto simp: run_thread_def)
  then show ?thesis by (simp add: run_thread_def)
qed

theorem restarted_injector_is_silent_witness:
  "\<exists>a b c. stop True a = (Inr (), b) \<and> inj_thread a = Some True \<and> calls b c \<and> inj_thread c = Some True \<and> run_thread 3 c = c"
proof -
  let ?a = "snd (start None None (new_injector 1))"
  let ?b = "snd (stop True ?a)"
  let ?c = "snd (start None None ?b)"
  have 1: "fst (stop True ?a) = Inr ()" "inj_thread ?a = Some True" "inj_thread ?c = Some True" by code_simp+
  have s: "stop True ?a = (Inr (), ?b)" by (rule prod_eqI) (use 1 in simp_all)
  have c: "calls ?b ?c" by (rule c_start [OF c_none, of None None _ "fst (start None None ?b)"]) simp
  have "run_thread 3 ?c = ?c" using restarted_injector_is_silent [OF s _ c] 1 by simp
  with s 1 c show ?thesis by blast
qed

text \<open>A failure recorded by a \<open>start\<close> that raised is not cleared, so the \<open>stop\<close> that ends the next,
  faultless run raises it again.\<close>

theorem stale_start_error_is_reraised:
  assumes "error a = Some e" "start conn tstart a = (Inr (), b)"
  shows "fst (stop True b) = Inl e"
proof -
  have body: "start_body tstart (a\<lparr>sock_open := True\<rparr>) = (Inr (), b)" and none: "inj_thread a = None"
    using assms(2) by (auto simp: start_def split: if_splits sum.splits prod.splits)
  have "error b = Some e"
    using start_body_keeps_error [of "a\<lparr>sock_open := True\<rparr>" tstart] body assms(1) by (simp add: keeps_error_def)
  moreover have "inj_thread b = Some True" using start_body_up(2) [OF body] none by simp
  ultimately show ?thesis by (simp add: stop_def)
qed

theorem stale_start_error_is_reraised_witness:
  "let a = snd (start None None (new_injector 1\<lparr>send_results := [Some OSError]\<rparr>));
       b = snd (start None None a) in
   fst (start None None a) = Inr () \<and> fst (stop True b) = Inl OSError"
proof -
  let ?a = "snd (start None None (new_injector 1\<lparr>send_results := [Some OSError]\<rparr>))"
  have 1: "error ?a = Some OSError" "fst (start None None ?a) = Inr ()" by code_simp+
  have "start None None ?a = (Inr (), snd (start None None ?a))" by (rule prod_eqI) (use 1 in simp_all)
  from stale_start_error_is_reraised [OF 1(1) this] 1 show ?thesis by simp
qed

end
