(* ===== verification/Unity_Junit.thy ===== *)
theory Unity_Junit
  imports Py_Text
begin

text \<open>
  The report converter \<open>scripts/unity_to_junit.py\<close>: its two regular expressions as
  recognizers, the log parser, the suite name and the report tree of \<open>main\<close>. File lookup and
  the serialization of the tree by \<open>xml\<close> are input and output; the lines of a log are those a
  text-mode file object yields, over ASCII.
\<close>

section \<open>ANSI escapes\<close>

definition is_word :: "char \<Rightarrow> bool" where
  "is_word c \<longleftrightarrow> is_letter c \<or> is_digit c \<or> c = CHR ''_''"

definition ESC :: char where "ESC = CHR 0x1B"

text \<open>What follows an escape sequence at the head of the text, if there is one:
  \<^verbatim>\<open>\x1b\[[0-9;]*[a-zA-Z]\<close>.\<close>

definition ansi_match :: "string \<Rightarrow> string option" where
  "ansi_match s =
     (case s of
        c # d # t \<Rightarrow>
          if c = ESC \<and> d = CHR ''['' then
            (case dropWhile (\<lambda>x. is_digit x \<or> x = CHR '';'') t of
               [] \<Rightarrow> None
             | l # u \<Rightarrow> if is_letter l then Some u else None)
          else None
      | _ \<Rightarrow> None)"

lemma ansi_match_shorter: "ansi_match s = Some u \<Longrightarrow> length u < length s"
proof -
  assume a: "ansi_match s = Some u"
  then obtain c d t where s: "s = c # d # t"
    by (auto simp: ansi_match_def split: list.splits)
  have "length (dropWhile P t) \<le> length t" for P by (rule length_dropWhile_le)
  from this [of "\<lambda>x. is_digit x \<or> x = CHR '';''"] show ?thesis
    using a s by (auto simp: ansi_match_def split: list.splits if_splits)
qed

function strip_ansi :: "string \<Rightarrow> string" where
  "strip_ansi s =
     (case ansi_match s of
        Some u \<Rightarrow> strip_ansi u
      | None \<Rightarrow> (case s of [] \<Rightarrow> [] | c # t \<Rightarrow> c # strip_ansi t))"
  by pat_completeness auto
termination
  by (relation "measure length") (auto dest: ansi_match_shorter)

declare strip_ansi.simps [simp del]

section \<open>Result lines\<close>

definition starts_name :: "string \<Rightarrow> bool" where
  "starts_name s \<longleftrightarrow> (case s of [] \<Rightarrow> False | c # t \<Rightarrow> (is_letter c \<or> c = CHR ''_'') \<and> list_all is_word t)"

definition is_c_file :: "string \<Rightarrow> bool" where
  "is_c_file s \<longleftrightarrow> list_all (\<lambda>c. \<not> is_space c \<and> c \<noteq> CHR '':'') s \<and> 3 \<le> length s \<and> drop (length s - 2) s = ''.c''"

datatype status = PASS | FAIL | IGNORE

definition status_text :: "status \<Rightarrow> string" where
  "status_text st = (case st of PASS \<Rightarrow> ''PASS'' | FAIL \<Rightarrow> ''FAIL'' | IGNORE \<Rightarrow> ''IGNORE'')"

record test_case =
  src :: string
  lineno :: string
  tname :: string
  tstatus :: status
  msg :: string

text \<open>Text up to the next colon, and what follows that colon.\<close>

definition upto_colon :: "string \<Rightarrow> string \<times> string option" where
  "upto_colon s =
     (takeWhile (\<lambda>c. c \<noteq> CHR '':'') s,
      case dropWhile (\<lambda>c. c \<noteq> CHR '':'') s of [] \<Rightarrow> None | _ # t \<Rightarrow> Some t)"

definition match_status :: "string \<Rightarrow> status option" where
  "match_status s =
     (if s = ''PASS'' then Some PASS else if s = ''FAIL'' then Some FAIL
      else if s = ''IGNORE'' then Some IGNORE else None)"

text \<open>\<open>TEST_LINE_RE.match\<close>. None of the first four groups can contain a colon, so each ends at
  the next one; the message is the rest of the line after white space.\<close>

definition match_line :: "string \<Rightarrow> test_case option" where
  "match_line s =
     (case upto_colon s of
        (_, None) \<Rightarrow> None
      | (file, Some s) \<Rightarrow>
      (case upto_colon s of
        (_, None) \<Rightarrow> None
      | (line, Some s) \<Rightarrow>
      (case upto_colon s of
        (_, None) \<Rightarrow> None
      | (name, Some s) \<Rightarrow>
      (case upto_colon s of (st, rest) \<Rightarrow>
        if is_c_file file \<and> py_isdigit line \<and> starts_name name then
          (case match_status st of
             None \<Rightarrow> None
           | Some st \<Rightarrow>
               (let m = (case rest of None \<Rightarrow> [] | Some t \<Rightarrow> py_lstrip t) in
                if CHR 0x0A \<in> set m then None
                else Some \<lparr>src = file, lineno = line, tname = name, tstatus = st, msg = m\<rparr>))
        else None))))"

definition parse_line :: "string \<Rightarrow> test_case option" where
  "parse_line raw = match_line (py_rstrip (strip_ansi raw))"

definition parse_log :: "string list \<Rightarrow> test_case list" where
  "parse_log fh = List.map_filter parse_line fh"

section \<open>Suite names\<close>

definition py_basename :: "string \<Rightarrow> string" where
  "py_basename p = last (py_split (CHR ''/'') p)"

text \<open>\<open>os.path.splitext(p)[0]\<close> for a name without a slash: the text before the last dot, unless only dots
  precede that dot.\<close>

definition splitext_root :: "string \<Rightarrow> string" where
  "splitext_root p =
     (let tail = takeWhile (\<lambda>c. c \<noteq> CHR ''.'') (rev p); root = take (length p - length tail - 1) p in
      if length tail = length p \<or> list_all (\<lambda>c. c = CHR ''.'') root then p else root)"

text \<open>\<open>rel\<close> is \<open>os.path.relpath(log_path, logs_root)\<close>.\<close>

definition suite_name_from_path :: "string \<Rightarrow> string \<Rightarrow> string" where
  "suite_name_from_path log_path rel =
     (let parts = py_split (CHR ''/'') rel;
          grp = (if parts \<noteq> [] then hd parts else ''unknown'');
          base = splitext_root (py_basename log_path) in
      grp @ ''.'' @ base)"

section \<open>The report\<close>

datatype elem = Elem (tag: string) (attrs: "(string \<times> string) list") (etext: string) (kids: "elem list")

definition py_or :: "string \<Rightarrow> string \<Rightarrow> string" where
  "py_or a b = (if a = [] then b else a)"

definition case_elem :: "string \<Rightarrow> test_case \<Rightarrow> elem" where
  "case_elem suite_name tc =
     Elem ''testcase'' [(''classname'', suite_name), (''name'', tname tc), (''file'', src tc), (''line'', lineno tc)] ''''
       (case tstatus tc of
          FAIL \<Rightarrow> [Elem ''failure'' [(''message'', py_or (msg tc) ''assertion failed''), (''type'', ''UnityAssertion'')]
                     (src tc @ '':'' @ lineno tc @ '': '' @ msg tc) []]
        | IGNORE \<Rightarrow> [Elem ''skipped'' [(''message'', py_or (msg tc) ''ignored'')] '''' []]
        | PASS \<Rightarrow> [])"

definition add_case :: "string \<Rightarrow> test_case \<Rightarrow> elem list \<times> int \<times> int \<Rightarrow> elem list \<times> int \<times> int" where
  "add_case suite_name tc acc =
     (case acc of (els, s_fail, s_skip) \<Rightarrow>
        (els @ [case_elem suite_name tc],
         if tstatus tc = FAIL then s_fail + 1 else s_fail,
         if tstatus tc = IGNORE then s_skip + 1 else s_skip))"

definition suite_elem :: "string \<Rightarrow> test_case list \<Rightarrow> elem \<times> int \<times> int" where
  "suite_elem suite_name cases =
     (case fold (add_case suite_name) cases ([], 0, 0) of (els, s_fail, s_skip) \<Rightarrow>
        (Elem ''testsuite''
           [(''name'', suite_name), (''tests'', py_str (int (length cases))), (''failures'', py_str s_fail),
            (''errors'', ''0''), (''skipped'', py_str s_skip)]
           '''' els,
         s_fail, s_skip))"

record tally =
  suites :: "elem list"
  total :: int
  failures :: int
  skipped :: int

definition add_log :: "(string \<times> string \<times> string list) \<Rightarrow> tally \<Rightarrow> tally" where
  "add_log lg t =
     (case lg of (log_path, rel, fh) \<Rightarrow>
        (let cases = parse_log fh in
         if cases = [] then t
         else
           (case suite_elem (suite_name_from_path log_path rel) cases of (suite_el, s_fail, s_skip) \<Rightarrow>
              t\<lparr>suites := suites t @ [suite_el], total := total t + int (length cases),
                failures := failures t + s_fail, skipped := skipped t + s_skip\<rparr>)))"

definition junit_report :: "(string \<times> string \<times> string list) list \<Rightarrow> elem" where
  "junit_report logs =
     (let t = fold add_log logs \<lparr>suites = [], total = 0, failures = 0, skipped = 0\<rparr> in
      Elem ''testsuites''
        [(''name'', ''C unittests''), (''tests'', py_str (total t)), (''failures'', py_str (failures t)), (''errors'', ''0''),
         (''skipped'', py_str (skipped t))]
        '''' (suites t))"

section \<open>Lemmas\<close>

text \<open>Counts read off a report tree.\<close>

definition n_with :: "string \<Rightarrow> elem list \<Rightarrow> int" where
  "n_with t els = int (length (filter (\<lambda>tc. \<exists>k \<in> set (kids tc). tag k = t) els))"

definition n_tests :: "elem \<Rightarrow> int" where "n_tests suite = int (length (kids suite))"

text \<open>A node whose count attributes say what is below it.\<close>

definition counts_ok :: "elem \<Rightarrow> int \<Rightarrow> int \<Rightarrow> int \<Rightarrow> bool" where
  "counts_ok e n f k \<longleftrightarrow>
     map_of (attrs e) ''tests'' = Some (py_str n) \<and> map_of (attrs e) ''failures'' = Some (py_str f) \<and>
     map_of (attrs e) ''skipped'' = Some (py_str k) \<and> map_of (attrs e) ''errors'' = Some ''0''"

definition suite_ok :: "elem \<Rightarrow> bool" where
  "suite_ok e \<longleftrightarrow> tag e = ''testsuite'' \<and> kids e \<noteq> [] \<and>
     counts_ok e (n_tests e) (n_with ''failure'' (kids e)) (n_with ''skipped'' (kids e))"

lemma case_elem_tags:
  "(\<exists>k \<in> set (kids (case_elem nm tc)). tag k = ''failure'') \<longleftrightarrow> tstatus tc = FAIL"
  "(\<exists>k \<in> set (kids (case_elem nm tc)). tag k = ''skipped'') \<longleftrightarrow> tstatus tc = IGNORE"
  by (cases "tstatus tc"; simp add: case_elem_def)+

lemma fold_add_case:
  "fold (add_case nm) cases (els, f, k) =
     (els @ map (case_elem nm) cases, f + n_with ''failure'' (map (case_elem nm) cases),
      k + n_with ''skipped'' (map (case_elem nm) cases))"
  by (induction cases arbitrary: els f k) (auto simp: add_case_def n_with_def case_elem_tags comp_def)

lemma suite_elem_ok:
  assumes "cases \<noteq> []" "suite_elem nm cases = (e, f, k)"
  shows "suite_ok e" "n_tests e = int (length cases)" "f = n_with ''failure'' (kids e)" "k = n_with ''skipped'' (kids e)"
  using assms by (auto simp: suite_elem_def fold_add_case suite_ok_def counts_ok_def n_tests_def)

definition tally_ok :: "tally \<Rightarrow> bool" where
  "tally_ok t \<longleftrightarrow> list_all suite_ok (suites t) \<and> total t = sum_list (map n_tests (suites t)) \<and>
     failures t = sum_list (map (\<lambda>e. n_with ''failure'' (kids e)) (suites t)) \<and>
     skipped t = sum_list (map (\<lambda>e. n_with ''skipped'' (kids e)) (suites t))"

lemma add_log_ok: "tally_ok t \<Longrightarrow> tally_ok (add_log lg t)"
  using suite_elem_ok
  by (fastforce simp: tally_ok_def add_log_def Let_def split: prod.splits)

lemma fold_add_log_ok: "tally_ok t \<Longrightarrow> tally_ok (fold add_log logs t)"
  by (induction logs arbitrary: t) (auto intro: add_log_ok)

subsection \<open>Escapes\<close>

lemma strip_ansi_plain [simp]: "ESC \<notin> set s \<Longrightarrow> strip_ansi (s @ t) = s @ strip_ansi t"
proof (induction s)
  case (Cons c s)
  then have "ansi_match (c # s @ t) = None" by (auto simp: ansi_match_def split: list.splits)
  with Cons show ?case by (simp add: strip_ansi.simps [of "c # s @ t"])
qed simp

lemma strip_ansi_nil [simp]: "strip_ansi [] = []"
  by (simp add: strip_ansi.simps [of "[]"] ansi_match_def)

lemma strip_ansi_no_esc: "ESC \<notin> set s \<Longrightarrow> strip_ansi s = s"
  using strip_ansi_plain [of s "[]"] by simp

definition colour :: "string \<Rightarrow> string" where
  "colour code = ESC # CHR ''['' # code @ ''m''"

lemma strip_ansi_colour [simp]:
  assumes "list_all is_digit code"
  shows "strip_ansi (colour code @ t) = strip_ansi t"
proof -
  have "dropWhile (\<lambda>x. is_digit x \<or> x = CHR '';'') (code @ ''m'' @ t) = ''m'' @ t"
    using assms by (induction code) (auto simp: is_digit_def)
  then have "ansi_match (colour code @ t) = Some t"
    by (simp add: ansi_match_def colour_def is_letter_def)
  then show ?thesis by (simp add: strip_ansi.simps [of "colour code @ t"])
qed

lemma upto_colon_append: "CHR '':'' \<notin> set s \<Longrightarrow> upto_colon (s @ CHR '':'' # t) = (s, Some t)"
  by (auto simp: upto_colon_def takeWhile_append dropWhile_append)

lemma upto_colon_none: "CHR '':'' \<notin> set s \<Longrightarrow> upto_colon s = (s, None)"
proof -
  assume "CHR '':'' \<notin> set s"
  then have "takeWhile (\<lambda>c. c \<noteq> CHR '':'') s = s" "dropWhile (\<lambda>c. c \<noteq> CHR '':'') s = []"
    by (auto simp: takeWhile_eq_all_conv)
  then show ?thesis unfolding upto_colon_def by (simp only: list.case)
qed

lemma strip_ansi_coloured:
  assumes "ESC \<notin> set a" "ESC \<notin> set b" "ESC \<notin> set c" "list_all is_digit on" "list_all is_digit off"
  shows "strip_ansi (a @ colour on @ b @ colour off @ c) = a @ b @ c"
  using assms by (simp add: strip_ansi_no_esc)


lemma py_rstrip_append_space: "list_all is_space w \<Longrightarrow> py_rstrip (s @ w) = py_rstrip s"
  by (simp add: py_rstrip_def dropWhile_append list_all_iff)

lemma py_rstrip_id: "s \<noteq> [] \<Longrightarrow> \<not> is_space (last s) \<Longrightarrow> py_rstrip s = s"
  by (cases s rule: rev_cases) (simp_all add: py_rstrip_def)

lemma py_lstrip_id: "s = [] \<or> \<not> is_space (hd s) \<Longrightarrow> py_lstrip s = s"
  by (cases s) (auto simp: py_lstrip_def)

section \<open>Properties\<close>

text \<open>What Unity prints for a case: the result line, with its status in colour and white space at the end.\<close>

definition unity_line :: "test_case \<Rightarrow> string \<Rightarrow> string \<Rightarrow> string \<Rightarrow> string" where
  "unity_line tc on off eol =
     src tc @ '':'' @ lineno tc @ '':'' @ tname tc @ '':'' @ colour on @ status_text (tstatus tc) @ colour off
       @ (if msg tc = [] then [] else '': '' @ msg tc) @ eol"

definition case_ok :: "test_case \<Rightarrow> bool" where
  "case_ok tc \<longleftrightarrow> is_c_file (src tc) \<and> py_isdigit (lineno tc) \<and> starts_name (tname tc) \<and>
     ESC \<notin> set (src tc) \<and> ESC \<notin> set (msg tc) \<and> CHR 0x0A \<notin> set (msg tc) \<and>
     (msg tc \<noteq> [] \<longrightarrow> \<not> is_space (hd (msg tc)) \<and> \<not> is_space (last (msg tc)))"

lemma word_chars: "is_word c \<Longrightarrow> c \<noteq> ESC \<and> c \<noteq> CHR '':''"
  by (auto simp: is_word_def is_letter_def is_digit_def ESC_def)

lemma digit_chars: "is_digit c \<Longrightarrow> c \<noteq> ESC \<and> c \<noteq> CHR '':''"
  by (auto simp: is_digit_def ESC_def)

lemma case_ok_chars:
  assumes "case_ok tc"
  shows "ESC \<notin> set (lineno tc) \<and> CHR '':'' \<notin> set (lineno tc)" "ESC \<notin> set (tname tc) \<and> CHR '':'' \<notin> set (tname tc)"
    "CHR '':'' \<notin> set (src tc)"
proof -
  show "ESC \<notin> set (lineno tc) \<and> CHR '':'' \<notin> set (lineno tc)"
    using assms digit_chars by (auto simp: case_ok_def py_isdigit_def list_all_iff)
  have "list_all is_word (tname tc)"
    using assms by (auto simp: case_ok_def starts_name_def is_word_def split: list.splits)
  then show "ESC \<notin> set (tname tc) \<and> CHR '':'' \<notin> set (tname tc)"
    using word_chars by (auto simp: list_all_iff)
  show "CHR '':'' \<notin> set (src tc)" using assms by (auto simp: case_ok_def is_c_file_def list_all_iff)
qed

lemma status_chars: "ESC \<notin> set (status_text st)" "CHR '':'' \<notin> set (status_text st)"
  "status_text st \<noteq> []" "\<not> is_space (last (status_text st))" "match_status (status_text st) = Some st"
  by (cases st; simp add: status_text_def ESC_def is_space_def match_status_def)+

lemma match_plain_line:
  assumes "case_ok tc"
  shows "match_line (src tc @ '':'' @ lineno tc @ '':'' @ tname tc @ '':'' @ status_text (tstatus tc)
       @ (if msg tc = [] then [] else '': '' @ msg tc)) = Some tc"
proof -
  have l: "py_lstrip ('' '' @ msg tc) = msg tc" if "msg tc \<noteq> []"
    using assms that by (cases "msg tc") (auto simp: case_ok_def py_lstrip_def is_space_def)
  show ?thesis
    using assms case_ok_chars [OF assms] status_chars [of "tstatus tc"] l
    by (cases "msg tc = []") (auto simp: match_line_def upto_colon_append upto_colon_none case_ok_def)
qed

text \<open>Whatever the logs contain, each suite of the report carries the numbers of the tests, failures and
  skips below it, and the root carries their sums over all suites.\<close>

theorem report_counts_consistent:
  "let r = junit_report logs; sum = (\<lambda>f. sum_list (map f (kids r))) in
   list_all suite_ok (kids r) \<and>
   counts_ok r (sum n_tests) (sum (\<lambda>e. n_with ''failure'' (kids e))) (sum (\<lambda>e. n_with ''skipped'' (kids e)))"
proof -
  have "tally_ok (fold add_log logs \<lparr>suites = [], total = 0, failures = 0, skipped = 0\<rparr>)"
    by (rule fold_add_log_ok) (simp add: tally_ok_def)
  then show ?thesis by (simp add: junit_report_def Let_def tally_ok_def counts_ok_def)
qed

text \<open>A result line as Unity prints it, with any colour codes around the status and any trailing
  white space, is parsed back to the same case.\<close>

theorem unity_line_roundtrip:
  assumes "case_ok tc" "list_all is_digit on" "list_all is_digit off" "list_all is_space eol"
  shows "parse_line (unity_line tc on off eol) = Some tc"
proof -
  let ?m = "if msg tc = [] then [] else '': '' @ msg tc"
  let ?p = "src tc @ '':'' @ lineno tc @ '':'' @ tname tc @ '':'' @ status_text (tstatus tc) @ ?m"
  have e: "ESC \<notin> set (?m @ eol)"
    using assms(1,4) by (auto simp: case_ok_def list_all_iff ESC_def is_space_def)
  have a: "ESC \<notin> set (src tc @ '':'' @ lineno tc @ '':'' @ tname tc @ '':'')"
    using assms(1) case_ok_chars [OF assms(1)] by (simp add: case_ok_def) (simp add: ESC_def)
  have "strip_ansi (unity_line tc on off eol) = ?p @ eol"
    using strip_ansi_coloured [OF a status_chars(1) e assms(2,3), of "tstatus tc"] by (simp add: unity_line_def)
  moreover have "py_rstrip (?p @ eol) = ?p"
    using assms(1,4) status_chars(3,4) [of "tstatus tc"]
    by (subst py_rstrip_append_space, simp, intro py_rstrip_id) (auto simp: case_ok_def)
  ultimately show ?thesis using match_plain_line [OF assms(1)] by (simp add: parse_line_def)
qed


theorem unity_line_roundtrip_witness:
  "let tc = \<lparr>src = ''test_x.c'', lineno = ''12'', tname = ''test_a'', tstatus = FAIL, msg = ''Expected 1 Was 2''\<rparr> in
   parse_line (unity_line tc ''41'' ''00'' [CHR 0x0A]) = Some tc"
proof -
  let ?tc = "\<lparr>src = ''test_x.c'', lineno = ''12'', tname = ''test_a'', tstatus = FAIL, msg = ''Expected 1 Was 2''\<rparr>"
  have "case_ok ?tc" "list_all is_digit ''41''" "list_all is_digit ''00''" "list_all is_space [CHR 0x0A]" by code_simp+
  from unity_line_roundtrip [OF this] show ?thesis by simp
qed

text \<open>The example of the documentation, and a log without results, which yields no suite.\<close>

lemma suite_name_example:
  "suite_name_from_path ''unittests/serial/build/test_x/test_x.log'' ''serial/build/test_x/test_x.log'' = ''serial.test_x''"
  by code_simp

lemma log_without_results: "parse_log fh = [] \<Longrightarrow> add_log (log_path, rel, fh) t = t"
  by (simp add: add_log_def)

end
