(* ===== verification/Api_Client.thy ===== *)
theory Api_Client
  imports Py_Text Deadline_Loop Qemu_Ports
begin

text \<open>
  The HTTP client of \<open>api_tests/api_client.py\<close>. The \<open>requests\<close> package is outside the
  repository: what one session request yields (an exception or a response, and the cookie jar
  after it) is an argument of every call that makes it. The client keeps a trace of its
  requests and sleeps.
\<close>

section \<open>Session and client\<close>

definition SNIFFER_STATUS_TIMEOUT_S :: rat where "SNIFFER_STATUS_TIMEOUT_S = 10"

type_synonym jar = "(string \<times> string) list"

record response =
  status_code :: int
  resp_text :: string

record request =
  meth :: string
  url :: string
  req_json :: "json option"
  req_timeout :: rat

record session =
  headers :: "(string \<times> string) list"
  verify :: bool
  cookies :: jar

datatype act = Sleep rat | Request request | CloseSession

record api =
  base_url :: string
  sess :: session
  acts :: "act list"

type_synonym reply = "response res \<times> jar"

definition DELAY_S :: rat where "DELAY_S = 1/10"

definition new_session :: session where
  "new_session = \<lparr>headers = [], verify = True, cookies = []\<rparr>"

text \<open>\<open>_DelayedSession.request\<close>, through the client that owns the session.\<close>

definition session_request :: "reply \<Rightarrow> string \<Rightarrow> string \<Rightarrow> json option \<Rightarrow> rat \<Rightarrow> api \<Rightarrow> response res \<times> api" where
  "session_request out m path body tmo api =
     (fst out,
      api\<lparr>acts := acts api @ [Sleep DELAY_S, Request \<lparr>meth = m, url = base_url api @ path, req_json = body, req_timeout = tmo\<rparr>],
          sess := (sess api)\<lparr>cookies := snd out\<rparr>\<rparr>)"

definition BROWSER_HEADERS :: "(string \<times> string) list" where
  "BROWSER_HEADERS =
    [(''User-Agent'', ''Mozilla/5.0 (Macintosh; Intel Mac OS X 10_15_7) AppleWebKit/537.36 (KHTML, like Gecko) Chrome/120.0.0.0 Safari/537.36''),
     (''Accept'', ''application/json, text/plain, */*''),
     (''Accept-Language'', ''en-US,en;q=0.9''),
     (''Accept-Encoding'', ''identity''),
     (''Connection'', ''close''),
     (''Cache-Control'', ''no-cache'')]"

definition browser_session :: session where
  "browser_session = new_session\<lparr>headers := BROWSER_HEADERS, verify := False\<rparr>"

definition DEFAULT_LOGIN :: string where "DEFAULT_LOGIN = ''admin''"
definition DEFAULT_PASSWORD :: string where "DEFAULT_PASSWORD = ''admin''"

definition new_api :: "int \<Rightarrow> string option \<Rightarrow> api" where
  "new_api slot burl =
     \<lparr>base_url = (case burl of Some u \<Rightarrow> u | None \<Rightarrow> ''http://'' @ HOST @ '':'' @ py_str (HTTP_HOST_PORT slot)),
      sess = browser_session, acts = []\<rparr>"

definition reconnect :: "api \<Rightarrow> api" where
  "reconnect api =
     (let old_cookies = cookies (sess api) in
      api\<lparr>acts := acts api @ [CloseSession], sess := browser_session\<lparr>cookies := old_cookies\<rparr>\<rparr>)"

section \<open>Endpoints\<close>

definition auth :: "reply \<Rightarrow> string \<Rightarrow> string \<Rightarrow> api \<Rightarrow> response res \<times> api" where
  "auth out login password =
     session_request out ''POST'' ''/auth'' (Some (JObj [(''login'', JStr login), (''pass'', JStr password)])) 10"

definition get_info :: "reply \<Rightarrow> api \<Rightarrow> response res \<times> api" where
  "get_info out = session_request out ''GET'' ''/info'' None 10"

definition get_settings :: "reply \<Rightarrow> api \<Rightarrow> response res \<times> api" where
  "get_settings out = session_request out ''GET'' ''/settings'' None 30"

definition update_settings :: "reply \<Rightarrow> json \<Rightarrow> api \<Rightarrow> response res \<times> api" where
  "update_settings out data = session_request out ''POST'' ''/settings'' (Some data) 30"

definition start_wifi_scan :: "reply \<Rightarrow> api \<Rightarrow> response res \<times> api" where
  "start_wifi_scan out = session_request out ''POST'' ''/wifi_scan/start'' None 10"

definition get_wifi_scan_results :: "reply \<Rightarrow> api \<Rightarrow> response res \<times> api" where
  "get_wifi_scan_results out = session_request out ''GET'' ''/wifi_scan/results'' None 10"

definition get_ap_clients :: "reply \<Rightarrow> api \<Rightarrow> response res \<times> api" where
  "get_ap_clients out = session_request out ''GET'' ''/ap_clients'' None 10"

definition get_static_file :: "reply \<Rightarrow> string \<Rightarrow> api \<Rightarrow> response res \<times> api" where
  "get_static_file out path = session_request out ''GET'' (''/'' @ path) None 10"

definition get_session :: "reply \<Rightarrow> api \<Rightarrow> response res \<times> api" where
  "get_session out = session_request out ''GET'' ''/session'' None 10"

definition logout :: "reply \<Rightarrow> api \<Rightarrow> response res \<times> api" where
  "logout out = session_request out ''POST'' ''/logout'' None 10"

definition get_uptime :: "reply \<Rightarrow> api \<Rightarrow> response res \<times> api" where
  "get_uptime out = session_request out ''GET'' ''/uptime'' None 10"

definition get_cache_status :: "reply \<Rightarrow> api \<Rightarrow> response res \<times> api" where
  "get_cache_status out = session_request out ''GET'' ''/cache/status'' None 10"

definition get_cache_csv :: "reply \<Rightarrow> api \<Rightarrow> response res \<times> api" where
  "get_cache_csv out = session_request out ''GET'' ''/cache/csv'' None 10"

definition get_cache_json :: "reply \<Rightarrow> api \<Rightarrow> response res \<times> api" where
  "get_cache_json out = session_request out ''GET'' ''/cache/json'' None 10"

definition get_hostname :: "reply \<Rightarrow> api \<Rightarrow> response res \<times> api" where
  "get_hostname out = session_request out ''GET'' ''/hostname'' None 10"

definition port_path :: "int \<Rightarrow> string \<Rightarrow> string" where
  "port_path port_num leaf = ''/ports/'' @ py_str port_num @ ''/'' @ leaf"

definition set_port_cache :: "reply \<Rightarrow> int \<Rightarrow> bool \<Rightarrow> api \<Rightarrow> response res \<times> api" where
  "set_port_cache out port_num enabled =
     session_request out ''POST'' (port_path port_num ''cache'') (Some (JObj [(''enabled'', JBool enabled)])) 10"

definition send_packet :: "reply \<Rightarrow> int \<Rightarrow> string \<Rightarrow> api \<Rightarrow> response res \<times> api" where
  "send_packet out port_num hex_str =
     session_request out ''POST'' (port_path port_num ''send'') (Some (JObj [(''hex'', JStr hex_str)])) 10"

definition get_wb_test :: "reply \<Rightarrow> api \<Rightarrow> response res \<times> api" where
  "get_wb_test out = session_request out ''GET'' ''/wb_test'' None 10"

definition set_wb_test :: "reply \<Rightarrow> bool \<Rightarrow> api \<Rightarrow> response res \<times> api" where
  "set_wb_test out clock_out =
     session_request out ''POST'' ''/wb_test'' (Some (JObj [(''clock_out'', JBool clock_out)])) 10"

definition get_sniffer_status :: "reply \<Rightarrow> api \<Rightarrow> response res \<times> api" where
  "get_sniffer_status out = session_request out ''GET'' ''/sniffer/status'' None SNIFFER_STATUS_TIMEOUT_S"

definition execute_command :: "reply \<Rightarrow> string \<Rightarrow> api \<Rightarrow> response res \<times> api" where
  "execute_command out cmd = session_request out ''POST'' ''/cmd'' (Some (JObj [(''cmd'', JStr cmd)])) 30"

section \<open>Retried mode change\<close>

definition transient :: "response \<Rightarrow> bool" where
  "transient resp \<longleftrightarrow> status_code resp = 400 \<and> py_in ''ESP_FAIL'' (resp_text resp)"

definition post_mode :: "reply \<Rightarrow> int \<Rightarrow> json \<Rightarrow> api \<Rightarrow> response res \<times> api" where
  "post_mode out port_num mode =
     session_request out ''POST'' (port_path port_num ''mode'') (Some (JObj [(''mode'', mode)])) 30"

fun mode_attempts ::
  "int list \<Rightarrow> int \<Rightarrow> json \<Rightarrow> int \<Rightarrow> rat \<Rightarrow> reply list \<Rightarrow> response option \<Rightarrow> api \<Rightarrow> (response option res \<times> api) option" where
  "mode_attempts [] port_num mode settle_retries settle_s outs resp api = Some (Inr resp, api)"
| "mode_attempts (attempt # later) port_num mode settle_retries settle_s outs resp api =
     (case outs of
        [] \<Rightarrow> None
      | out # outs \<Rightarrow>
          (case post_mode out port_num mode api of
             (Inl e, api) \<Rightarrow> Some (Inl e, api)
           | (Inr resp, api) \<Rightarrow>
               if \<not> transient resp then Some (Inr (Some resp), api)
               else
                 mode_attempts later port_num mode settle_retries settle_s outs (Some resp)
                   (if attempt < settle_retries then api\<lparr>acts := acts api @ [Sleep settle_s]\<rparr> else api)))"

definition set_port_mode ::
  "int \<Rightarrow> json \<Rightarrow> int \<Rightarrow> rat \<Rightarrow> reply list \<Rightarrow> api \<Rightarrow> (response option res \<times> api) option" where
  "set_port_mode port_num mode settle_retries settle_s outs api =
     mode_attempts [0..settle_retries] port_num mode settle_retries settle_s outs None api"

section \<open>Waiting for the device\<close>

text \<open>A pass: what the authorization and the \<open>/info\<close> request of that pass yield.\<close>

definition ready_pass :: "rat \<Rightarrow> reply \<times> reply \<Rightarrow> api \<Rightarrow> (api, unit res \<times> api) flow" where
  "ready_pass intv outs api =
     (let api = reconnect (api\<lparr>acts := acts api @ [Sleep intv]\<rparr>) in
      case auth (fst outs) DEFAULT_LOGIN DEFAULT_PASSWORD api of
        (Inl e, api) \<Rightarrow> (if e = RequestException then Next api else Stop (Inl e, api))
      | (Inr _, api) \<Rightarrow>
          (case get_info (snd outs) api of
             (Inl e, api) \<Rightarrow> (if e = RequestException then Next api else Stop (Inl e, api))
           | (Inr resp, api) \<Rightarrow> if status_code resp = 200 then Stop (Inr (), api) else Next api))"

definition wait_for_ready ::
  "time \<Rightarrow> rat \<Rightarrow> rat \<Rightarrow> (time \<times> reply \<times> reply) list \<Rightarrow> api \<Rightarrow> (unit res \<times> api) option" where
  "wait_for_ready t0 tmo intv ps api =
     (case deadline_loop (\<lambda>_. True) (t0 + tmo) (ready_pass intv) ps api of
        None \<Rightarrow> None
      | Some (Stopped r, _) \<Rightarrow> Some r
      | Some (Expired api, _) \<Rightarrow> Some (Inl TimeoutError, api)
      | Some (Done api, _) \<Rightarrow> Some (Inr (), api))"

section \<open>Lemmas\<close>

definition mode_request :: "api \<Rightarrow> int \<Rightarrow> json \<Rightarrow> request" where
  "mode_request api port_num mode =
     \<lparr>meth = ''POST'', url = base_url api @ port_path port_num ''mode'', req_json = Some (JObj [(''mode'', mode)]),
      req_timeout = 30\<rparr>"

definition is_transient :: "reply \<Rightarrow> bool" where
  "is_transient out \<longleftrightarrow> (case fst out of Inl _ \<Rightarrow> False | Inr r \<Rightarrow> transient r)"

lemma post_mode_eq:
  "post_mode out port_num mode api =
     (fst out, api\<lparr>acts := acts api @ [Sleep DELAY_S, Request (mode_request api port_num mode)],
                   sess := (sess api)\<lparr>cookies := snd out\<rparr>\<rparr>)"
  by (simp add: post_mode_def session_request_def mode_request_def)

abbreviation retry_acts :: "nat \<Rightarrow> rat \<Rightarrow> request \<Rightarrow> act list" where
  "retry_acts n settle_s rq \<equiv> concat (replicate n [Sleep DELAY_S, Request rq, Sleep settle_s])"

lemma mode_attempts_settles:
  assumes "\<forall>out \<in> set ts. is_transient out" "\<not> is_transient out" "int (length ts) \<le> R - a" 
  shows "\<exists>api'. mode_attempts [a..R] p m R s (ts @ out # rest) resp api = Some (map_sum id Some (fst out), api') \<and>
     acts api' = acts api @ retry_acts (length ts) s (mode_request api p m) @ [Sleep DELAY_S, Request (mode_request api p m)] \<and>
     cookies (sess api') = snd out"
  using assms
proof (induction ts arbitrary: a resp api)
  case Nil
  then have "[a..R] = a # [a + 1..R]" by (simp add: upto.simps)
  with Nil show ?case by (cases "fst out") (auto simp: post_mode_eq is_transient_def)
next
  case (Cons t ts)
  then obtain r where r: "fst t = Inr r" "transient r" by (auto simp: is_transient_def split: sum.splits)
  have l: "[a..R] = a # [a + 1..R]" "a < R" using Cons.prems(3) by (simp_all add: upto.simps)
  let ?api = "api\<lparr>sess := (sess api)\<lparr>cookies := snd t\<rparr>, acts := acts api @ [Sleep DELAY_S, Request (mode_request api p m), Sleep s]\<rparr>"
  have "mode_request ?api p m = mode_request api p m" by (simp add: mode_request_def)
  then show ?case
    using Cons.IH [of "a + 1" "Some r" ?api] Cons.prems l r by (simp add: post_mode_eq)
qed

lemma mode_attempts_exhausted:
  assumes "\<forall>out \<in> set ts. is_transient out" "ts \<noteq> []" "int (length ts) = R - a + 1" 
  shows "\<exists>api'. mode_attempts [a..R] p m R s ts resp api = Some (map_sum id Some (fst (last ts)), api') \<and>
     acts api' = acts api @ retry_acts (length ts - 1) s (mode_request api p m) @ [Sleep DELAY_S, Request (mode_request api p m)] \<and>
     cookies (sess api') = snd (last ts)"
  using assms
proof (induction ts arbitrary: a resp api)
  case (Cons t ts)
  then obtain r where r: "fst t = Inr r" "transient r" by (auto simp: is_transient_def split: sum.splits)
  have l: "[a..R] = a # [a + 1..R]" using Cons.prems(3) by (simp add: upto.simps)
  show ?case
  proof (cases "ts = []")
    case True
    with Cons.prems l r show ?thesis by (simp add: post_mode_eq)
  next
    case False
    let ?api = "api\<lparr>sess := (sess api)\<lparr>cookies := snd t\<rparr>, acts := acts api @ [Sleep DELAY_S, Request (mode_request api p m), Sleep s]\<rparr>"
    have "mode_request ?api p m = mode_request api p m" by (simp add: mode_request_def)
    moreover have "length ts = Suc (length ts - 1)" using False by (cases ts) auto
    then have "retry_acts (length ts) s q = [Sleep DELAY_S, Request q, Sleep s] @ retry_acts (length ts - 1) s q" for q
      by (metis concat.simps(2) replicate_Suc)
    moreover have "a < R" using Cons.prems(3) False by (cases ts) auto
    ultimately show ?thesis
      using Cons.IH [of "a + 1" "Some r" ?api] Cons.prems l r False by (simp add: post_mode_eq)
  qed
qed simp


text \<open>A pass that leaves \<open>wait_for_ready\<close> waiting.\<close>

definition not_ready :: "reply \<times> reply \<Rightarrow> bool" where
  "not_ready outs \<longleftrightarrow>
     (case fst (fst outs) of
        Inl e \<Rightarrow> e = RequestException
      | Inr _ \<Rightarrow>
          (case fst (snd outs) of Inl e \<Rightarrow> e = RequestException | Inr resp \<Rightarrow> status_code resp \<noteq> 200))"

definition ready :: "reply \<times> reply \<Rightarrow> bool" where
  "ready outs \<longleftrightarrow> (\<exists>r resp. fst (fst outs) = Inr r \<and> fst (snd outs) = Inr resp \<and> status_code resp = 200)"

lemma ready_pass_cases:
  "case ready_pass intv outs api of
     Next api' \<Rightarrow> not_ready outs
   | Stop (Inr _, api') \<Rightarrow> ready outs \<and> cookies (sess api') = snd (snd outs) \<and>
       headers (sess api') = BROWSER_HEADERS \<and> \<not> verify (sess api')
   | Stop (Inl e, _) \<Rightarrow> e \<noteq> RequestException"
  by (auto simp: ready_pass_def Let_def auth_def get_info_def session_request_def reconnect_def
      browser_session_def not_ready_def ready_def split: sum.splits prod.splits)

lemma ready_loop_skips:
  assumes "\<forall>p \<in> set ps. fst p < d \<and> not_ready (snd p)"
  shows "\<exists>api'. deadline_loop (\<lambda>_. True) d (ready_pass intv) (ps @ rest) api = deadline_loop (\<lambda>_. True) d (ready_pass intv) rest api'"
  using assms
proof (induction ps arbitrary: api)
  case (Cons p ps)
  obtain now outs where p: "p = (now, outs)" by (cases p)
  obtain api1 where "ready_pass intv outs api = Next api1"
    using ready_pass_cases [where intv = intv and outs = outs and api = api] Cons.prems p
    by (auto simp: ready_def not_ready_def ready_pass_def Let_def auth_def get_info_def session_request_def
        split: sum.splits)
  then show ?case using Cons p by (auto simp: loop_simps)
qed auto

lemma ready_loop_stops:
  assumes "deadline_loop (\<lambda>_. True) d (ready_pass intv) ps api = Some (Stopped (Inr u, api'), rest)"
  shows "\<exists>p \<in> set ps. fst p < d \<and> ready (snd p) \<and> cookies (sess api') = snd (snd (snd p))"
  using assms
proof (induction ps arbitrary: api)
  case Nil
  then show ?case by (simp add: loop_simps)
next
  case (Cons p ps)
  obtain now outs where p: "p = (now, outs)" by (cases p)
  show ?case
  proof (cases "now < d")
    case True
    then show ?thesis
      using Cons p ready_pass_cases [where intv = intv and outs = outs and api = api]
      by (cases "ready_pass intv outs api") (auto simp: loop_simps)
  next
    case False
    then show ?thesis using Cons.prems p by (simp add: loop_simps)
  qed
qed

section \<open>Properties\<close>

text \<open>\<open>set_port_mode\<close> repeats the same POST while the device answers 400 with ESP_FAIL, at most
  \<open>settle_retries\<close> more times and with one pause before each repetition. It ends with the first
  other outcome, which it returns or raises unchanged, and otherwise with the last transient response.\<close>

theorem set_port_mode_retries:
  assumes "\<forall>out \<in> set ts. is_transient out" and "0 \<le> settle_retries"
  shows "(int (length ts) \<le> settle_retries \<and> \<not> is_transient out \<longrightarrow>
      (\<exists>api'. set_port_mode p m settle_retries s (ts @ out # rest) api = Some (map_sum id Some (fst out), api') \<and>
         acts api' = acts api @ retry_acts (length ts) s (mode_request api p m)
                       @ [Sleep DELAY_S, Request (mode_request api p m)])) \<and>
    (int (length ts) = settle_retries + 1 \<longrightarrow>
      (\<exists>api'. set_port_mode p m settle_retries s ts api = Some (map_sum id Some (fst (last ts)), api') \<and>
         acts api' = acts api @ retry_acts (nat settle_retries) s (mode_request api p m)
                       @ [Sleep DELAY_S, Request (mode_request api p m)]))"
proof (intro conjI impI)
  assume "int (length ts) \<le> settle_retries \<and> \<not> is_transient out"
  then show "\<exists>api'. set_port_mode p m settle_retries s (ts @ out # rest) api = Some (map_sum id Some (fst out), api') \<and>
     acts api' = acts api @ retry_acts (length ts) s (mode_request api p m) @ [Sleep DELAY_S, Request (mode_request api p m)]"
    unfolding set_port_mode_def
    using mode_attempts_settles [OF assms(1), of out settle_retries 0 p m s rest None api] by auto
next
  assume l: "int (length ts) = settle_retries + 1"
  then have "ts \<noteq> []" "length ts - 1 = nat settle_retries" using assms(2) by auto
  then show "\<exists>api'. set_port_mode p m settle_retries s ts api = Some (map_sum id Some (fst (last ts)), api') \<and>
     acts api' = acts api @ retry_acts (nat settle_retries) s (mode_request api p m) @ [Sleep DELAY_S, Request (mode_request api p m)]"
    unfolding set_port_mode_def
    using mode_attempts_exhausted [OF assms(1), of settle_retries 0 p m s None api] l by auto
qed

theorem set_port_mode_retries_witness:
  "let busy = (Inr \<lparr>status_code = 400, resp_text = ''x ESP_FAIL''\<rparr>, []); ok = (Inr \<lparr>status_code = 200, resp_text = ''''\<rparr>, []) in
   (\<exists>api'. set_port_mode 1 (JStr ''x'') 2 (1/2) [busy, busy, ok] (new_api 0 None) = Some (Inr (Some \<lparr>status_code = 200, resp_text = ''''\<rparr>), api'))
   \<and> (\<exists>api'. set_port_mode 1 (JStr ''x'') 2 (1/2) [busy, busy, busy] (new_api 0 None) = Some (Inr (Some \<lparr>status_code = 400, resp_text = ''x ESP_FAIL''\<rparr>), api'))"
proof -
  let ?busy = "(Inr \<lparr>status_code = 400, resp_text = ''x ESP_FAIL''\<rparr>, []) :: reply"
  let ?ok = "(Inr \<lparr>status_code = 200, resp_text = ''''\<rparr>, []) :: reply"
  have b: "is_transient ?busy" "\<not> is_transient ?ok" by code_simp+
  show ?thesis
    using set_port_mode_retries [of "[?busy, ?busy]" 2 ?ok 1 "JStr ''x''" "1/2" "[]" "new_api 0 None"]
      set_port_mode_retries [of "[?busy, ?busy, ?busy]" 2 ?ok 1 "JStr ''x''" "1/2" "[]" "new_api 0 None"] b
    by auto
qed

text \<open>C37: \<open>wait_for_ready\<close> ends once the clock reaches its deadline; it returns as soon as a pass that
  started in time authorizes and gets a 200 from \<open>/info\<close>, after any number of unready passes; and it
  returns normally only after such a pass, with that pass's cookies in the session.\<close>

theorem wait_for_ready_outcome:
  "((\<exists>p \<in> set ps. t0 + tmo \<le> fst p) \<longrightarrow> (\<exists>r. wait_for_ready t0 tmo intv ps api = Some r)) \<and>
   (\<forall>early now outs rest. ps = early @ (now, outs) # rest \<and> (\<forall>p \<in> set early. fst p < t0 + tmo \<and> not_ready (snd p)) \<and>
      now < t0 + tmo \<and> ready outs \<longrightarrow> (\<exists>api'. wait_for_ready t0 tmo intv ps api = Some (Inr (), api'))) \<and>
   (\<forall>api'. wait_for_ready t0 tmo intv ps api = Some (Inr (), api') \<longrightarrow>
      (\<exists>p \<in> set ps. fst p < t0 + tmo \<and> ready (snd p) \<and> cookies (sess api') = snd (snd (snd p))))"
proof (intro conjI allI impI)
  assume "\<exists>p \<in> set ps. t0 + tmo \<le> fst p"
  then obtain t p where "(t, p) \<in> set ps" "t0 + tmo \<le> t" by auto
  from deadline_loop_returns [OF this, of "\<lambda>_. True" "ready_pass intv" api]
  show "\<exists>r. wait_for_ready t0 tmo intv ps api = Some r"
    by (auto simp: wait_for_ready_def split: outcome.splits)
next
  fix early now outs rest
  assume h: "ps = early @ (now, outs) # rest \<and> (\<forall>p \<in> set early. fst p < t0 + tmo \<and> not_ready (snd p)) \<and>
      now < t0 + tmo \<and> ready outs"
  then obtain a where a: "deadline_loop (\<lambda>_. True) (t0 + tmo) (ready_pass intv) ps api
      = deadline_loop (\<lambda>_. True) (t0 + tmo) (ready_pass intv) ((now, outs) # rest) a"
    using ready_loop_skips by blast
  obtain a' where "ready_pass intv outs a = Stop (Inr (), a')"
    using h by (auto simp: ready_def ready_pass_def Let_def auth_def get_info_def session_request_def)
  with a h show "\<exists>api'. wait_for_ready t0 tmo intv ps api = Some (Inr (), api')"
    by (auto simp: wait_for_ready_def loop_simps)
next
  fix api'
  assume w: "wait_for_ready t0 tmo intv ps api = Some (Inr (), api')"
  have "deadline_loop (\<lambda>_. True) (t0 + tmo) (ready_pass intv) ps api \<noteq> Some (Done a', r)" for a' r
    by (auto dest: deadline_loop_done_guard)
  then show "\<exists>p \<in> set ps. fst p < t0 + tmo \<and> ready (snd p) \<and> cookies (sess api') = snd (snd (snd p))"
    using w ready_loop_stops [of "t0 + tmo" intv ps api "()" api']
    by (auto simp: wait_for_ready_def split: option.splits prod.splits outcome.splits)
qed

theorem wait_for_ready_outcome_witness:
  "let down = ((Inl RequestException, []), (Inl RequestException, [])) :: reply \<times> reply;
       up = ((Inr \<lparr>status_code = 200, resp_text = ''''\<rparr>, []), (Inr \<lparr>status_code = 200, resp_text = ''''\<rparr>, [(''sid'', ''1'')])) in
   (\<exists>api'. wait_for_ready 0 5 1 [(1, down), (2, up)] (new_api 0 None) = Some (Inr (), api') \<and> cookies (sess api') = [(''sid'', ''1'')])
   \<and> (\<exists>r. wait_for_ready 0 5 1 [(1, down), (6, up)] (new_api 0 None) = Some r)"
proof -
  let ?down = "((Inl RequestException, []), (Inl RequestException, [])) :: reply \<times> reply"
  let ?up = "((Inr \<lparr>status_code = 200, resp_text = ''''\<rparr>, []), (Inr \<lparr>status_code = 200, resp_text = ''''\<rparr>, [(''sid'', ''1'')])) :: reply \<times> reply"
  let ?ps = "[(1, ?down), (2, ?up)] :: (time \<times> reply \<times> reply) list"
  have r: "not_ready ?down" "ready ?up" "\<not> ready ?down" by (simp_all add: not_ready_def ready_def)
  have "?ps = [(1, ?down)] @ (2, ?up) # [] \<and> (\<forall>p \<in> set [(1 :: time, ?down)]. fst p < 0 + 5 \<and> not_ready (snd p)) \<and> (2 :: time) < 0 + 5 \<and> ready ?up"
    using r by simp
  then obtain api' where a: "wait_for_ready 0 5 1 ?ps (new_api 0 None) = Some (Inr (), api')"
    using wait_for_ready_outcome [of ?ps 0 5 1 "new_api 0 None"] by blast
  then have "cookies (sess api') = [(''sid'', ''1'')]"
    using wait_for_ready_outcome [of ?ps 0 5 1 "new_api 0 None"] r by auto
  moreover have "\<exists>r. wait_for_ready 0 5 1 [(1, ?down), (6, ?up)] (new_api 0 None) = Some r"
    using wait_for_ready_outcome [of "[(1, ?down), (6, ?up)]" 0 5 1 "new_api 0 None"] by simp
  ultimately show ?thesis using a by simp
qed

end
