(* ===== verification/Sniffer_Poll.thy ===== *)
theory Sniffer_Poll
  imports Api_Client "HOL-Library.AList"
begin

text \<open>
  The sniffer helpers of \<open>api_tests/sniffer_helpers.py\<close>: the WebSocket connection, the
  status poll with its settle window, and the packet collector. Status replies, WebSocket
  outcomes and clock readings are arguments, in the order the code consumes them; seconds are
  rationals, so the rounding of floating point is left out.
\<close>

section \<open>Constants\<close>

definition REFERENCE_DEFECT_S :: time where "REFERENCE_DEFECT_S = 3/10"
definition SETTLE_ROUND_TRIPS :: rat where "SETTLE_ROUND_TRIPS = 4"
definition SETTLE_FLOOR_S :: time where "SETTLE_FLOOR_S = 2 * REFERENCE_DEFECT_S"
definition SETTLE_CEILING_S :: time where "SETTLE_CEILING_S = 2"
definition SETTLE_MAX_READS :: nat where "SETTLE_MAX_READS = 16"

section \<open>The WebSocket connection\<close>

datatype ws_act = WsConnect nat string string | WsClose nat | WsSend nat string | WsSleep rat

definition ws_url :: "string \<Rightarrow> int option \<Rightarrow> string" where
  "ws_url host port =
     ''ws://'' @ host @ '':'' @ py_str (case port of None \<Rightarrow> 80 | Some p \<Rightarrow> if p = 0 then 80 else p) @ ''/sniffer/ws''"

definition cookie_header :: "(string \<times> string) list \<Rightarrow> string" where
  "cookie_header jar = py_join ''; '' (map (\<lambda>(k, v). k @ ''='' @ v) jar)"

text \<open>The attempts are numbered; each opens its own socket. An outcome is what \<open>connect\<close> raises.\<close>

fun ws_attempts :: "nat list \<Rightarrow> string \<Rightarrow> string \<Rightarrow> exn option list \<Rightarrow> (nat res \<times> ws_act list) option" where
  "ws_attempts [] u c outs = Some (Inl TimeoutError, [])"
| "ws_attempts (w # ws) u c outs =
     (case outs of
        [] \<Rightarrow> None
      | None # _ \<Rightarrow> Some (Inr w, [WsConnect w u c])
      | Some e # outs \<Rightarrow>
          if is_Exception e then
            map_option (\<lambda>(r, tr). (r, [WsConnect w u c, WsClose w, WsSleep 2] @ tr)) (ws_attempts ws u c outs)
          else Some (Inl e, [WsConnect w u c]))"

text \<open>\<open>start_cmd\<close> is the JSON text of the start command.\<close>

definition ws_connect ::
  "string \<Rightarrow> string \<Rightarrow> string \<Rightarrow> exn option list \<Rightarrow> exn option \<Rightarrow> (nat res \<times> ws_act list) option" where
  "ws_connect u c start_cmd outs send =
     (case ws_attempts [0, 1] u c outs of
        None \<Rightarrow> None
      | Some (Inl e, tr) \<Rightarrow> Some (Inl e, tr)
      | Some (Inr w, tr) \<Rightarrow>
          (case send of
             None \<Rightarrow> Some (Inr w, tr @ [WsSend w start_cmd])
           | Some e \<Rightarrow> Some (Inl e, tr @ [WsSend w start_cmd] @ (if is_Exception e then [WsClose w] else []))))"

text \<open>The ping thread: per pass, whether the stop event is set, and what \<open>ping\<close> raises. The result counts
  the pings sent.\<close>

fun ping_loop :: "(bool \<times> exn option) list \<Rightarrow> nat option" where
  "ping_loop [] = None"
| "ping_loop ((stop_set, out) # ps) =
     (if stop_set then Some 0
      else (case out of Some _ \<Rightarrow> Some 0 | None \<Rightarrow> map_option Suc (ping_loop ps)))"

section \<open>Reading the status\<close>

type_synonym body = "(string \<times> json) list"
type_synonym state = "(string \<times> bool) list"

text \<open>A status read: what the request raises, or its status code and what \<open>json()\<close> yields.\<close>

type_synonym sread = "(int \<times> body res) res"

definition read_sniffer_status :: "sread \<Rightarrow> body res" where
  "read_sniffer_status rd =
     rbind rd (\<lambda>(status, js). if status = 200 then js else Inl AssertionError)"

definition has_state :: "body \<Rightarrow> string \<Rightarrow> bool \<Rightarrow> bool" where
  "has_state body k v \<longleftrightarrow> map_of body k = Some (JBool v)"

fun assert_state :: "body \<Rightarrow> state \<Rightarrow> unit res" where
  "assert_state body [] = Inr ()"
| "assert_state body ((k, v) # rest) = (if has_state body k v then assert_state body rest else Inl AssertionError)"

definition assert_sniffer_precondition :: "sread \<Rightarrow> state \<Rightarrow> body res" where
  "assert_sniffer_precondition rd expected_state =
     rbind (read_sniffer_status rd) (\<lambda>body. rbind (assert_state body expected_state) (\<lambda>_. Inr body))"

section \<open>The poll\<close>

record poll =
  p_body :: body
  t_rtt :: time
  t_rtt_budget :: time
  reads :: nat
  budget_s :: time

definition budget_of :: "time \<Rightarrow> time" where
  "budget_of rtt = SNIFFER_STATUS_TIMEOUT_S + 2 * rtt"

text \<open>A poll pass: the clock at the budget test, the clock before the read, the read, the clock after it.\<close>

type_synonym poll_pass = "time \<times> time \<times> sread \<times> time"

definition poll_read :: "body \<Rightarrow> time \<Rightarrow> poll \<Rightarrow> poll" where
  "poll_read body t_read_s st =
     (let rtt = max (t_rtt_budget st) t_read_s in
      st\<lparr>p_body := body, t_rtt := min (t_rtt st) t_read_s, t_rtt_budget := rtt, reads := reads st + 1,
        budget_s := budget_of rtt\<rparr>)"

fun poll_loop :: "string \<Rightarrow> bool \<Rightarrow> state \<Rightarrow> time \<Rightarrow> poll_pass list \<Rightarrow> poll \<Rightarrow> poll res option" where
  "poll_loop key expected invariants t_start ps st =
     (if has_state (p_body st) key expected then Some (Inr st)
      else
        (case ps of
           [] \<Rightarrow> None
         | (now, t_read, rd, t_end) # ps \<Rightarrow>
             if budget_s st \<le> now - t_start then Some (Inl AssertionError)
             else
               (case read_sniffer_status rd of
                  Inl e \<Rightarrow> Some (Inl e)
                | Inr body \<Rightarrow>
                    (case assert_state body invariants of
                       Inl e \<Rightarrow> Some (Inl e)
                     | Inr _ \<Rightarrow> poll_loop key expected invariants t_start ps (poll_read body (t_end - t_read) st)))))"

declare poll_loop.simps [simp del]

definition first_poll :: "body \<Rightarrow> time \<Rightarrow> poll" where
  "first_poll body rtt =
     \<lparr>p_body = body, t_rtt = rtt, t_rtt_budget = rtt, reads = 1, budget_s = budget_of rtt\<rparr>"

section \<open>The settle window\<close>

definition window_len :: "time \<Rightarrow> time" where
  "window_len rtt = min (max (SETTLE_ROUND_TRIPS * rtt) SETTLE_FLOOR_S) SETTLE_CEILING_S"

definition interval_of :: "time \<Rightarrow> time" where
  "interval_of window_s = window_s / of_nat SETTLE_MAX_READS"

definition settle_pause :: "time \<Rightarrow> time \<Rightarrow> nat \<Rightarrow> time \<Rightarrow> time" where
  "settle_pause window_start window_s settle_reads now =
     (let pause_s = window_start + of_nat settle_reads * interval_of window_s - now in
      if 0 < pause_s then pause_s else 0)"

text \<open>A settle pass: the clock at the pause computation, the clock when the read starts, the read.\<close>

type_synonym settle_pass = "time \<times> time \<times> sread"

fun settle_loop :: "state \<Rightarrow> time \<Rightarrow> time \<Rightarrow> nat \<Rightarrow> settle_pass list \<Rightarrow> body res option" where
  "settle_loop settled window_start window_s settle_reads [] = None"
| "settle_loop settled window_start window_s settle_reads ((now, read_started_at, rd) # ps) =
     (case read_sniffer_status rd of
        Inl e \<Rightarrow> Some (Inl e)
      | Inr body \<Rightarrow>
          (case assert_state body settled of
             Inl e \<Rightarrow> Some (Inl e)
           | Inr _ \<Rightarrow>
               if SETTLE_MAX_READS \<le> settle_reads + 1 then Some (Inr body)
               else if window_s \<le> read_started_at - window_start then Some (Inr body)
               else settle_loop settled window_start window_s (settle_reads + 1) ps))"

definition settled_state :: "state \<Rightarrow> string \<Rightarrow> bool \<Rightarrow> state" where
  "settled_state invariants key expected = AList.update key expected invariants"

definition poll_sniffer_status ::
  "string \<Rightarrow> bool \<Rightarrow> state \<Rightarrow> time \<Rightarrow> sread \<Rightarrow> time \<Rightarrow> poll_pass list \<Rightarrow> time \<Rightarrow> settle_pass list \<Rightarrow> body res option" where
  "poll_sniffer_status key expected invariants t_start rd t_end ps window_start sps =
     (case read_sniffer_status rd of
        Inl e \<Rightarrow> Some (Inl e)
      | Inr body \<Rightarrow>
          if \<exists>k \<in> set (key # map fst invariants). map_of body k = None then Some (Inl AssertionError)
          else
            (case assert_state body invariants of
               Inl e \<Rightarrow> Some (Inl e)
             | Inr _ \<Rightarrow>
                 (case poll_loop key expected invariants t_start ps (first_poll body (t_end - t_start)) of
                    None \<Rightarrow> None
                  | Some (Inl e) \<Rightarrow> Some (Inl e)
                  | Some (Inr st) \<Rightarrow>
                      (case assert_state (p_body st) (settled_state invariants key expected) of
                         Inl e \<Rightarrow> Some (Inl e)
                       | Inr _ \<Rightarrow>
                           settle_loop (settled_state invariants key expected) window_start
                             (window_len (t_rtt st)) 0 sps))))"

section \<open>Collecting packets\<close>

text \<open>\<open>loads\<close> is \<open>json.loads\<close>.\<close>

definition ignored_exn :: "exn \<Rightarrow> bool" where
  "ignored_exn e \<longleftrightarrow> e \<in> {WebSocketTimeout, WebSocketPayload, WebSocketProtocol, JSONDecodeError}"

definition wanted :: "(string \<Rightarrow> 'p res) \<Rightarrow> ('p \<Rightarrow> bool) option \<Rightarrow> string res \<Rightarrow> 'p list res" where
  "wanted loads filter_fn recv =
     rbind recv (\<lambda>m. if m = [] then Inr []
       else rbind (loads m) (\<lambda>pkt. Inr (case filter_fn of None \<Rightarrow> [pkt] | Some f \<Rightarrow> if f pkt then [pkt] else [])))"

definition collect_pass ::
  "(string \<Rightarrow> 'p res) \<Rightarrow> ('p \<Rightarrow> bool) option \<Rightarrow> int \<Rightarrow> string res \<Rightarrow> 'p list \<Rightarrow> ('p list, 'p list res) flow" where
  "collect_pass loads filter_fn min_count recv packets =
     (if min_count \<le> int (length packets) then Stop (Inr packets)
      else
        (case wanted loads filter_fn recv of
           Inr new \<Rightarrow> Next (packets @ new)
         | Inl e \<Rightarrow> if ignored_exn e then Next packets else Stop (Inl e)))"

definition collect_packets ::
  "(string \<Rightarrow> 'p res) \<Rightarrow> ('p \<Rightarrow> bool) option \<Rightarrow> int \<Rightarrow> time \<Rightarrow> time \<Rightarrow> (time \<times> string res) list \<Rightarrow> 'p list res option" where
  "collect_packets loads filter_fn min_count t0 timeout_sec ps =
     (case deadline_loop (\<lambda>_. True) (t0 + timeout_sec) (collect_pass loads filter_fn min_count) ps [] of
        None \<Rightarrow> None
      | Some (Stopped r, _) \<Rightarrow> Some r
      | Some (Expired packets, _) \<Rightarrow> Some (Inr packets)
      | Some (Done packets, _) \<Rightarrow> Some (Inr packets))"

section \<open>Lemmas\<close>

lemma assert_state_ok: "assert_state body s = Inr () \<longleftrightarrow> (\<forall>(k, v) \<in> set s. has_state body k v)"
  by (induction body s rule: assert_state.induct) auto

lemma assert_state_Inr: "assert_state body s = Inr u \<longleftrightarrow> (\<forall>(k, v) \<in> set s. has_state body k v)"
  using assert_state_ok by simp

lemma settled_state_entries:
  assumes "distinct (map fst invariants)"
  shows "map_of (settled_state invariants key expected) = (map_of invariants)(key \<mapsto> expected)"
  using assms by (simp add: settled_state_def update_conv')

lemma settled_target: "assert_state body (settled_state invariants key expected) = Inr u \<Longrightarrow> has_state body key expected"
proof -
  have "(key, expected) \<in> set (AList.update key expected invariants)"
    by (induction invariants) auto
  then show "assert_state body (settled_state invariants key expected) = Inr u \<Longrightarrow> has_state body key expected"
    by (auto simp: assert_state_Inr settled_state_def)
qed

lemma settled_invariant:
  assumes "assert_state body (settled_state invariants key expected) = Inr u" "(k, v) \<in> set invariants" "k \<noteq> key"
  shows "has_state body k v"
proof -
  have "(k, v) \<in> set (AList.update key expected invariants)"
    using assms(2,3) by (induction invariants) auto
  then show ?thesis using assms(1) by (auto simp: assert_state_Inr settled_state_def)
qed

lemma window_bounds: "SETTLE_FLOOR_S \<le> window_len rtt" "window_len rtt \<le> SETTLE_CEILING_S"
  by (auto simp: window_len_def SETTLE_FLOOR_S_def SETTLE_CEILING_S_def REFERENCE_DEFECT_S_def)

text \<open>The clock honours the pauses: no read starts before its pause is over.\<close>

definition paced :: "time \<Rightarrow> time \<Rightarrow> settle_pass list \<Rightarrow> bool" where
  "paced window_start window_s sps \<longleftrightarrow>
     (\<forall>i < length sps. fst (sps ! i) + settle_pause window_start window_s i (fst (sps ! i)) \<le> fst (snd (sps ! i)))"

lemma paced_start:
  assumes "paced ws w sps" "i < length sps"
  shows "ws + of_nat i * interval_of w \<le> fst (snd (sps ! i))"
proof -
  have "ws + of_nat i * interval_of w \<le> now + settle_pause ws w i now" for now
    by (simp add: settle_pause_def Let_def)
  with assms show ?thesis unfolding paced_def by (meson order_trans)
qed

lemma settle_loop_returns:
  assumes "settle_loop settled ws w n sps = Some (Inr body)" "n < SETTLE_MAX_READS"
  shows "\<exists>i < length sps. n + i < SETTLE_MAX_READS \<and> read_sniffer_status (snd (snd (sps ! i))) = Inr body \<and>
     (\<forall>j \<le> i. \<exists>b. read_sniffer_status (snd (snd (sps ! j))) = Inr b \<and> assert_state b settled = Inr ()) \<and>
     (w \<le> fst (snd (sps ! i)) - ws \<or> n + i + 1 = SETTLE_MAX_READS)"
  using assms
proof (induction settled ws w n sps rule: settle_loop.induct)
  case (2 settled ws w n now started rd ps)
  obtain b where b: "read_sniffer_status rd = Inr b" "assert_state b settled = Inr ()"
    using "2.prems" by (auto split: sum.splits)
  show ?case
  proof (cases "SETTLE_MAX_READS \<le> n + 1 \<or> w \<le> started - ws")
    case True
    then have "b = body" using "2.prems" b by (auto split: if_splits)
    then show ?thesis using True b "2.prems"(2) by (intro exI [of _ 0]) auto
  next
    case False
    then have "settle_loop settled ws w (n + 1) ps = Some (Inr body)" "n + 1 < SETTLE_MAX_READS"
      using "2.prems" b by auto
    then obtain i where i: "i < length ps" "n + 1 + i < SETTLE_MAX_READS"
      "read_sniffer_status (snd (snd (ps ! i))) = Inr body"
      "\<forall>j \<le> i. \<exists>b. read_sniffer_status (snd (snd (ps ! j))) = Inr b \<and> assert_state b settled = Inr ()"
      "w \<le> fst (snd (ps ! i)) - ws \<or> n + 1 + i + 1 = SETTLE_MAX_READS"
      using "2.IH" [OF b] False by fastforce
    then show ?thesis
      using b by (intro exI [of _ "Suc i"]) (auto simp: nth_Cons split: nat.splits)
  qed
qed simp

lemma poll_parts:
  assumes "poll_sniffer_status key expected invariants t_start rd t_end ps ws sps = Some (Inr body)"
  obtains b0 st where "read_sniffer_status rd = Inr b0"
    "poll_loop key expected invariants t_start ps (first_poll b0 (t_end - t_start)) = Some (Inr st)"
    "settle_loop (settled_state invariants key expected) ws (window_len (t_rtt st)) 0 sps = Some (Inr body)"
  using assms by (auto simp: poll_sniffer_status_def split: sum.splits option.splits if_splits)

text \<open>Passes that leave the poll waiting: read within the budget set by the slowest read so far,
  with the invariants kept and the target not yet visible.\<close>

fun waiting :: "string \<Rightarrow> bool \<Rightarrow> state \<Rightarrow> time \<Rightarrow> time \<Rightarrow> poll_pass list \<Rightarrow> bool" where
  "waiting key expected invs t_start rtt [] \<longleftrightarrow> True"
| "waiting key expected invs t_start rtt ((now, t0, rd, t1) # ps) \<longleftrightarrow>
     now - t_start < budget_of rtt \<and>
     (\<exists>b. read_sniffer_status rd = Inr b \<and> assert_state b invs = Inr () \<and> \<not> has_state b key expected) \<and>
     waiting key expected invs t_start (max rtt (t1 - t0)) ps"

definition read_times :: "poll_pass list \<Rightarrow> time list" where
  "read_times ps = map (\<lambda>(_, t0, _, t1). t1 - t0) ps"

lemma poll_loop_waiting:
  assumes "\<not> has_state (p_body st) key expected" "budget_s st = budget_of (t_rtt_budget st)"
    and "waiting key expected invs t_start (t_rtt_budget st) used"
  shows "\<exists>st'. poll_loop key expected invs t_start (used @ rest) st = poll_loop key expected invs t_start rest st' \<and>
     \<not> has_state (p_body st') key expected \<and> t_rtt_budget st' = fold max (read_times used) (t_rtt_budget st) \<and>
     t_rtt st' = fold min (read_times used) (t_rtt st) \<and> reads st' = reads st + length used \<and>
     budget_s st' = budget_of (t_rtt_budget st')"
  using assms
proof (induction used arbitrary: st)
  case Nil
  then show ?case by (auto simp: read_times_def)
next
  case (Cons p used)
  obtain now t0 rd t1 where p: "p = (now, t0, rd, t1)" by (cases p)
  then obtain b where b: "read_sniffer_status rd = Inr b" "assert_state b invs = Inr ()" "\<not> has_state b key expected"
    and n: "now - t_start < budget_of (t_rtt_budget st)"
    and w: "waiting key expected invs t_start (max (t_rtt_budget st) (t1 - t0)) used"
    using Cons.prems(3) by auto
  let ?st = "poll_read b (t1 - t0) st"
  have "poll_loop key expected invs t_start ((p # used) @ rest) st = poll_loop key expected invs t_start (used @ rest) ?st"
    using Cons.prems(1,2) b n unfolding p by (simp add: poll_loop.simps [of _ _ _ _ "(now, t0, rd, t1) # used @ rest"])
  then show ?case
    using Cons.IH [of ?st] b w p
    by (simp add: poll_read_def Let_def read_times_def max.commute min.commute)
qed

lemma fold_max_le: "fold max xs a \<le> B \<longleftrightarrow> a \<le> B \<and> (\<forall>x \<in> set xs. x \<le> (B :: rat))"
  by (induction xs arbitrary: a) auto


lemma poll_loop_returns:
  assumes "budget_s st = budget_of (t_rtt_budget st)" "t_rtt_budget st \<le> B" "\<forall>t \<in> set (read_times ps). t \<le> B"
    and "\<exists>p \<in> set ps. t_start + budget_of B \<le> fst p"
  shows "\<exists>r. poll_loop key expected invs t_start ps st = Some r"
  using assms
proof (induction ps arbitrary: st)
  case (Cons p ps)
  obtain now t0 rd t1 where p: "p = (now, t0, rd, t1)" by (cases p)
  note step = poll_loop.simps [of key expected invs t_start "(now, t0, rd, t1) # ps" st]
  show ?case
  proof (cases "budget_s st \<le> now - t_start")
    case True
    then show ?thesis using p step by auto
  next
    case False
    then have "now < t_start + budget_of B" using Cons.prems(1,2) by (simp add: budget_of_def)
    then have "\<exists>p \<in> set ps. t_start + budget_of B \<le> fst p" using Cons.prems(4) p by auto
    then have "\<exists>r. poll_loop key expected invs t_start ps (poll_read b (t1 - t0) st) = Some r" for b
      using Cons.prems p by (intro Cons.IH) (auto simp: poll_read_def Let_def read_times_def)
    then show ?thesis using p step by (auto split: sum.splits)
  qed
qed simp

subsection \<open>Sockets\<close>

lemma ws_attempts_close:
  assumes "ws_attempts ws u c outs = Some (r, tr)" "distinct ws" "\<forall>e. Some e \<in> set outs \<longrightarrow> is_Exception e"
  shows "\<forall>w. WsConnect w u c \<in> set tr \<and> r \<noteq> Inr w \<longrightarrow> WsClose w \<in> set tr"
  using assms
proof (induction ws u c outs arbitrary: r tr rule: ws_attempts.induct)
  case (2 w ws u c outs)
  show ?case
  proof (cases outs)
    case (Cons x outs')
    then show ?thesis using 2 by (cases x) (auto split: if_splits)
  qed (use 2 in simp)
qed simp

text \<open>No handshake or send failure leaves a socket open that the caller does not get.\<close>

lemma ws_connect_closes:
  assumes "ws_connect u c cmd outs send = Some (r, tr)" "\<forall>e. Some e \<in> set (send # outs) \<longrightarrow> is_Exception e"
  shows "\<forall>w. WsConnect w u c \<in> set tr \<and> r \<noteq> Inr w \<longrightarrow> WsClose w \<in> set tr"
proof -
  obtain r0 tr0 where a: "ws_attempts [0, 1] u c outs = Some (r0, tr0)"
    using assms(1) by (cases "ws_attempts [0, 1] u c outs") (auto simp: ws_connect_def)
  have "\<forall>w. WsConnect w u c \<in> set tr0 \<and> r0 \<noteq> Inr w \<longrightarrow> WsClose w \<in> set tr0"
    using ws_attempts_close [OF a] assms(2) by simp
  then show ?thesis
    using assms unfolding ws_connect_def a by (cases r0; cases send) auto
qed

section \<open>Properties\<close>

text \<open>C30: a poll that returns a body has watched the published state long enough: it took at most
  \<open>_SETTLE_MAX_READS\<close> settle reads, every one of them showed the target and the invariants, the last one
  is the returned body, and that read started at least 15/16 of the window (so at least 0.5625 s,
  beyond the reference defect's 0.3 s) after the window opened, whatever the reads cost.\<close>

theorem settle_window_outlasts_defect:
  assumes "poll_sniffer_status key expected invariants t_start rd t_end ps ws sps = Some (Inr body)"
    and "read_sniffer_status rd = Inr b0"
    and "\<forall>st. poll_loop key expected invariants t_start ps (first_poll b0 (t_end - t_start)) = Some (Inr st) \<longrightarrow>
       paced ws (window_len (t_rtt st)) sps"
  shows "\<exists>i < length sps. i < SETTLE_MAX_READS \<and> read_sniffer_status (snd (snd (sps ! i))) = Inr body \<and>
     (\<forall>j \<le> i. \<exists>b. read_sniffer_status (snd (snd (sps ! j))) = Inr b \<and> has_state b key expected \<and>
        (\<forall>(k, v) \<in> set invariants. k \<noteq> key \<longrightarrow> has_state b k v)) \<and>
     9/16 \<le> fst (snd (sps ! i)) - ws \<and> REFERENCE_DEFECT_S < fst (snd (sps ! i)) - ws"
proof -
  obtain st where p: "poll_loop key expected invariants t_start ps (first_poll b0 (t_end - t_start)) = Some (Inr st)"
    and s: "settle_loop (settled_state invariants key expected) ws (window_len (t_rtt st)) 0 sps = Some (Inr body)"
    using poll_parts [OF assms(1)] assms(2) by (metis Inr_inject)
  let ?w = "window_len (t_rtt st)"
  obtain i where i: "i < length sps" "i < SETTLE_MAX_READS" "read_sniffer_status (snd (snd (sps ! i))) = Inr body"
    "\<forall>j \<le> i. \<exists>b. read_sniffer_status (snd (snd (sps ! j))) = Inr b \<and>
       assert_state b (settled_state invariants key expected) = Inr ()"
    "?w \<le> fst (snd (sps ! i)) - ws \<or> i + 1 = SETTLE_MAX_READS"
    using settle_loop_returns [OF s] by (auto simp: SETTLE_MAX_READS_def)
  have w: "3/5 \<le> ?w" using window_bounds(1) [of "t_rtt st"] by (simp add: SETTLE_FLOOR_S_def REFERENCE_DEFECT_S_def)
  have "15/16 * ?w \<le> fst (snd (sps ! i)) - ws"
  proof (cases "?w \<le> fst (snd (sps ! i)) - ws")
    case False
    then have "i = 15" using i(5) by (simp add: SETTLE_MAX_READS_def)
    then show ?thesis
      using paced_start [OF assms(3) [rule_format, OF p] i(1)] by (simp add: interval_of_def SETTLE_MAX_READS_def)
  qed (use w in simp)
  then have "9/16 \<le> fst (snd (sps ! i)) - ws" using w by simp
  moreover have "\<forall>j \<le> i. \<exists>b. read_sniffer_status (snd (snd (sps ! j))) = Inr b \<and> has_state b key expected \<and>
        (\<forall>(k, v) \<in> set invariants. k \<noteq> key \<longrightarrow> has_state b k v)"
    using i(4) settled_target settled_invariant by fast
  ultimately show ?thesis
    using i(1,2,3) by (intro exI [of _ i]) (auto simp: REFERENCE_DEFECT_S_def)
qed


theorem settle_window_outlasts_defect_witness:
  "\<exists>body. poll_sniffer_status ''port_1'' True [] 0 (Inr (200, Inr [(''port_1'', JBool True)])) (1/10) [] 1
      [(1, 1, Inr (200, Inr [(''port_1'', JBool True)])), (2, 2, Inr (200, Inr [(''port_1'', JBool True)]))] = Some (Inr body)
    \<and> has_state body ''port_1'' True"
proof -
  let ?b = "[(''port_1'', JBool True)] :: body"
  let ?rd = "Inr (200, Inr ?b) :: sread"
  let ?sps = "[(1, 1, ?rd), (2, 2, ?rd)] :: settle_pass list"
  have r: "read_sniffer_status ?rd = Inr ?b" "has_state ?b ''port_1'' True" by code_simp+
  have w: "window_len (1/10) = 3/5"
    by (simp add: window_len_def SETTLE_ROUND_TRIPS_def SETTLE_FLOOR_S_def REFERENCE_DEFECT_S_def SETTLE_CEILING_S_def)
  have p: "poll_loop ''port_1'' True [] 0 [] (first_poll ?b (1/10 - 0)) = Some (Inr (first_poll ?b (1/10)))"
    using r by (simp add: poll_loop.simps first_poll_def)
  have run: "poll_sniffer_status ''port_1'' True [] 0 ?rd (1/10) [] 1 ?sps = Some (Inr ?b)"
    using r w p by (simp add: poll_sniffer_status_def settled_state_def first_poll_def SETTLE_MAX_READS_def)
  have "\<forall>st. poll_loop ''port_1'' True [] 0 [] (first_poll ?b (1/10 - 0)) = Some (Inr st) \<longrightarrow> paced 1 (window_len (t_rtt st)) ?sps"
    using p w by (auto simp: first_poll_def paced_def less_Suc_eq settle_pause_def Let_def interval_of_def SETTLE_MAX_READS_def)
  from settle_window_outlasts_defect [OF run r(1) this] run r(2) show ?thesis by blast
qed

text \<open>The poll's patience follows its slowest read. It ends once its clock has passed the budget of a bound
  on the cost of a read. After any number of reads within the budgets of their time it gives up at the next budget
  test exactly if that finds 10 s plus twice the slowest read so far used up, and otherwise returns the body of a
  read that shows the target with the invariants kept.\<close>

theorem poll_follows_slowest_read:
  assumes "\<not> has_state b0 key expected" "waiting key expected invs t_start rtt used"
    and "read_sniffer_status rd = Inr b" "assert_state b invs = Inr ()" "has_state b key expected"
  shows "poll_loop key expected invs t_start (used @ (now, t0, rd, t1) # rest) (first_poll b0 rtt) =
     (if budget_of (fold max (read_times used) rtt) \<le> now - t_start then Some (Inl AssertionError)
      else Some (Inr \<lparr>p_body = b, t_rtt = min (fold min (read_times used) rtt) (t1 - t0),
        t_rtt_budget = max (fold max (read_times used) rtt) (t1 - t0), reads = 2 + length used,
        budget_s = budget_of (max (fold max (read_times used) rtt) (t1 - t0))\<rparr>))"
proof -
  let ?loop = "poll_loop key expected invs t_start"
  obtain st where st: "?loop (used @ (now, t0, rd, t1) # rest) (first_poll b0 rtt) = ?loop ((now, t0, rd, t1) # rest) st"
    "\<not> has_state (p_body st) key expected" "t_rtt_budget st = fold max (read_times used) rtt"
    "t_rtt st = fold min (read_times used) rtt" "reads st = 1 + length used" "budget_s st = budget_of (t_rtt_budget st)"
    using poll_loop_waiting [of "first_poll b0 rtt" key expected invs t_start used "(now, t0, rd, t1) # rest"] assms(1,2)
    by (auto simp: first_poll_def)
  have "?loop rest (poll_read b (t1 - t0) st) = Some (Inr (poll_read b (t1 - t0) st))"
    using assms(5) by (simp add: poll_loop.simps [of _ _ _ _ rest] poll_read_def Let_def)
  then show ?thesis
    using st assms(3,4) poll_loop.simps [of key expected invs t_start "(now, t0, rd, t1) # rest" st]
    by (cases st) (simp add: poll_read_def Let_def)
qed

theorem poll_follows_slowest_read_witness:
  "let down = [(''port_1'', JBool False)]; up = [(''port_1'', JBool True)]; rd = (\<lambda>b. Inr (200, Inr b)) in
   (\<exists>st. poll_loop ''port_1'' True [] 0 [(0, 0, rd down, 11), (25, 25, rd up, 26)] (first_poll down 0) = Some (Inr st)) \<and>
   poll_loop ''port_1'' True [] 0 [(0, 0, rd down, 11), (32, 32, rd up, 33)] (first_poll down 0) = Some (Inl AssertionError)"
proof -
  let ?down = "[(''port_1'', JBool False)] :: body" and ?up = "[(''port_1'', JBool True)] :: body"
  have h: "\<not> has_state ?down ''port_1'' True" "read_sniffer_status (Inr (200, Inr ?up)) = Inr ?up"
    "assert_state ?up [] = Inr ()" "has_state ?up ''port_1'' True"
    "waiting ''port_1'' True [] 0 0 [(0, 0, Inr (200, Inr ?down), 11)]"
    by (simp_all add: has_state_def read_sniffer_status_def rbind_def budget_of_def SNIFFER_STATUS_TIMEOUT_S_def)
  show ?thesis
    using poll_follows_slowest_read [OF h(1,5,2,3,4), of 25 25 26 "[]"]
      poll_follows_slowest_read [OF h(1,5,2,3,4), of 32 32 33 "[]"]
    by (simp add: budget_of_def SNIFFER_STATUS_TIMEOUT_S_def read_times_def)
qed

text \<open>When no read takes longer than \<open>B\<close>, the poll has ended by the time its budget test reads the clock at
  10 s + 2 \<open>B\<close> after its start, whatever the device answers; and the settle window then ends within 16 reads.\<close>

theorem poll_ends:
  assumes "t_end - t_start \<le> B" "\<forall>t \<in> set (read_times ps). t \<le> B"
    and "\<exists>p \<in> set ps. t_start + budget_of B \<le> fst p" and "SETTLE_MAX_READS \<le> length sps"
  shows "\<exists>r. poll_sniffer_status key expected invariants t_start rd t_end ps ws sps = Some r"
proof -
  have p: "\<exists>r. poll_loop key expected invariants t_start ps (first_poll b (t_end - t_start)) = Some r" for b
    by (rule poll_loop_returns [OF _ _ assms(2,3)]) (simp_all add: first_poll_def assms(1))
  have s: "\<exists>r. settle_loop settled ws w n sps = Some r" if "SETTLE_MAX_READS \<le> n + length sps" "sps \<noteq> []" for settled w n sps
    using that
  proof (induction settled ws w n sps rule: settle_loop.induct)
    case (2 settled ws w n now started rd ps)
    then show ?case by (cases ps) (auto split: sum.splits)
  qed simp
  have "sps \<noteq> []" using assms(4) by (auto simp: SETTLE_MAX_READS_def)
  then have s0: "\<exists>r. settle_loop settled ws w 0 sps = Some r" for settled w
    using s [of 0 sps settled w] assms(4) by simp
  show ?thesis
  proof (cases "read_sniffer_status rd")
    case (Inr b)
    obtain r where r: "poll_loop key expected invariants t_start ps (first_poll b (t_end - t_start)) = Some r"
      using p by blast
    show ?thesis
      unfolding poll_sniffer_status_def Inr
      using s0 by (cases r) (auto simp: r split: sum.split)
  qed (simp add: poll_sniffer_status_def)
qed

theorem poll_ends_witness:
  "\<exists>r. poll_sniffer_status ''k'' True [] 0 (Inl RequestException) 1 [(12, 12, Inl RequestException, 13)] 20
     (replicate 16 (20, 20, Inl RequestException)) = Some r"
  by (rule poll_ends [of 1 0 1])
    (simp_all add: read_times_def budget_of_def SNIFFER_STATUS_TIMEOUT_S_def SETTLE_MAX_READS_def)


text \<open>The packets of the messages received, and whether a message lets the collector go on.\<close>

definition packets_of :: "(string \<Rightarrow> 'p res) \<Rightarrow> ('p \<Rightarrow> bool) option \<Rightarrow> (time \<times> string res) list \<Rightarrow> 'p list" where
  "packets_of loads filter_fn ps =
     concat (map (\<lambda>p. case wanted loads filter_fn (snd p) of Inr new \<Rightarrow> new | Inl _ \<Rightarrow> []) ps)"

lemma wanted_length: "wanted loads filter_fn recv = Inr new \<Longrightarrow> length new \<le> 1"
  by (auto simp: wanted_def rbind_def split: sum.splits if_splits option.splits)

lemma collect_loop:
  assumes "deadline_loop (\<lambda>_. True) d (collect_pass loads filter_fn min_count) ps acc = Some (out, rest)"
    and "int (length acc) \<le> max 0 min_count"
    and "out = Expired packets \<or> out = Stopped (Inr packets)"
  shows "\<exists>used now p. ps = used @ (now, p) # rest \<and> packets = acc @ packets_of loads filter_fn used \<and>
     int (length packets) \<le> max 0 min_count \<and> (\<forall>q \<in> set used. fst q < d) \<and>
     (d \<le> now \<or> (now < d \<and> min_count \<le> int (length packets)))"
  using assms
proof (induction ps arbitrary: acc)
  case Nil
  then show ?case by (simp add: loop_simps)
next
  case (Cons q ps)
  obtain now p where q: "q = (now, p)" by (cases q)
  show ?case
  proof (cases "now < d \<and> int (length acc) < min_count")
    case False
    then show ?thesis
      using Cons.prems q
      by (cases "now < d") (auto simp: loop_simps collect_pass_def packets_of_def intro!: exI [of _ "[]"])
  next
    case True
    obtain acc' where a: "collect_pass loads filter_fn min_count p acc = Next acc'"
      and acc': "acc' = acc @ packets_of loads filter_fn [q]" "length acc' \<le> length acc + 1"
    proof (cases "wanted loads filter_fn p")
      case (Inl e)
      then have "ignored_exn e" using True Cons.prems(1,3) q
        by (auto simp: loop_simps collect_pass_def split: if_splits)
      then show ?thesis using that [of acc] Inl True q by (simp add: collect_pass_def packets_of_def)
    next
      case (Inr new)
      have n: "collect_pass loads filter_fn min_count p acc = Next (acc @ new)" "packets_of loads filter_fn [q] = new"
        using Inr True q by (simp_all add: collect_pass_def packets_of_def)
      show ?thesis by (rule that [OF n(1)]) (use n(2) wanted_length [OF Inr] in simp_all)
    qed
    then have "deadline_loop (\<lambda>_. True) d (collect_pass loads filter_fn min_count) ps acc' = Some (out, rest)"
      using Cons.prems(1) True q by (simp add: loop_simps)
    moreover have "int (length acc') \<le> max 0 min_count" using True acc'(2) by simp
    ultimately obtain used now' p' where u: "ps = used @ (now', p') # rest"
      "packets = acc' @ packets_of loads filter_fn used" "int (length packets) \<le> max 0 min_count"
      "\<forall>q \<in> set used. fst q < d" "d \<le> now' \<or> (now' < d \<and> min_count \<le> int (length packets))"
      using Cons.IH [of acc'] Cons.prems(3) by blast
    show ?thesis
      by (rule exI [of _ "q # used"], rule exI [of _ now'], rule exI [of _ p'])
        (use u acc' True q in \<open>auto simp: packets_of_def\<close>)
  qed
qed

text \<open>\<open>_collect_packets\<close> ends once the clock reaches its deadline. A list it returns holds exactly the accepted
  packets of the messages received, in order, never more than \<open>min_count\<close> of them; and it has that many unless
  the deadline passed.\<close>

theorem collect_packets_result:
  "((\<exists>p \<in> set ps. t0 + timeout_sec \<le> fst p) \<longrightarrow> (\<exists>r. collect_packets loads filter_fn min_count t0 timeout_sec ps = Some r)) \<and>
   (collect_packets loads filter_fn min_count t0 timeout_sec ps = Some (Inr packets) \<longrightarrow>
     (\<exists>used now p rest. ps = used @ (now, p) # rest \<and> packets = packets_of loads filter_fn used \<and>
        int (length packets) \<le> max 0 min_count \<and> (\<forall>q \<in> set used. fst q < t0 + timeout_sec) \<and>
        (t0 + timeout_sec \<le> now \<or> (now < t0 + timeout_sec \<and> min_count \<le> int (length packets)))))"
proof (intro conjI impI)
  let ?loop = "deadline_loop (\<lambda>_. True) (t0 + timeout_sec) (collect_pass loads filter_fn min_count) ps []"
  show "\<exists>r. collect_packets loads filter_fn min_count t0 timeout_sec ps = Some r"
    if ends: "\<exists>p \<in> set ps. t0 + timeout_sec \<le> fst p"
  proof -
    obtain t p where "(t, p) \<in> set ps" "t0 + timeout_sec \<le> t" using ends by auto
    from deadline_loop_returns [OF this, of "\<lambda>_. True" "collect_pass loads filter_fn min_count" "[]"]
    show ?thesis by (auto simp: collect_packets_def split: outcome.splits)
  qed
  assume c: "collect_packets loads filter_fn min_count t0 timeout_sec ps = Some (Inr packets)"
  have "?loop \<noteq> Some (Done a, r)" for a r by (auto dest: deadline_loop_done_guard)
  then obtain out rest where "?loop = Some (out, rest)" "out = Expired packets \<or> out = Stopped (Inr packets)"
    using c by (auto simp: collect_packets_def split: option.splits prod.splits outcome.splits)
  from collect_loop [OF this(1) _ this(2)]
  show "\<exists>used now p rest. ps = used @ (now, p) # rest \<and> packets = packets_of loads filter_fn used \<and>
        int (length packets) \<le> max 0 min_count \<and> (\<forall>q \<in> set used. fst q < t0 + timeout_sec) \<and>
        (t0 + timeout_sec \<le> now \<or> (now < t0 + timeout_sec \<and> min_count \<le> int (length packets)))"
    by (auto simp: packets_of_def)
qed


theorem collect_packets_result_witness:
  "(\<exists>r. collect_packets (\<lambda>m. Inr m) None 2 0 5 [(1, Inr ''a''), (6, Inr ''b'')] = Some r) \<and>
   collect_packets (\<lambda>m. Inr m) None 2 0 5 [(1, Inr ''a''), (2, Inl WebSocketTimeout), (3, Inr ''b''), (4, Inr ''c'')] = Some (Inr [''a'', ''b''])
   \<and> int (length [''a'', ''b'']) \<le> max 0 2"
proof -
  have c: "collect_packets (\<lambda>m. Inr m) None 2 0 5 [(1, Inr ''a''), (2, Inl WebSocketTimeout), (3, Inr ''b''), (4, Inr ''c'')] = Some (Inr [''a'', ''b''])"
    by (simp add: collect_packets_def loop_simps collect_pass_def wanted_def rbind_def ignored_exn_def)
  show ?thesis
    using collect_packets_result [of "[(1, Inr ''a''), (6, Inr ''b'')]" 0 5 "\<lambda>m. Inr m" None 2]
      collect_packets_result [of "[(1, Inr ''a''), (2, Inl WebSocketTimeout), (3, Inr ''b''), (4, Inr ''c'')]" 0 5 "\<lambda>m. Inr m" None 2 "[''a'', ''b'']"] c
    by auto
qed


text \<open>A thread paused for the length of the window before its first settle read takes only that one.\<close>

lemma single_settle_read:
  assumes "read_sniffer_status rd = Inr body" "assert_state body settled = Inr ()" "window_s \<le> read_started_at - window_start"
  shows "settle_loop settled window_start window_s 0 ((now, read_started_at, rd) # ps) = Some (Inr body)"
  using assms by simp

end
