(* ===== verification/Idf_Patch.thy ===== *)
theory Idf_Patch
  imports Py_Text
begin

text \<open>
  The patch driver \<open>patches/apply_idf_patch.py\<close>: the unified-diff scanner, the idempotency
  markers, the verdict on a tree, the backups and \<open>main\<close>. A tree is a map from paths relative to
  \<open>IDF_PATH\<close> to file texts. The external \<open>patch\<close> command is a parameter: what a dry run
  prints and returns, and what a real run makes of the tree. The lines of the patch file are
  those of \<open>read_text().splitlines()\<close>.
\<close>

section \<open>Unified diffs\<close>

record hunk =
  ordinal :: nat
  target :: "string option"
  added :: "string list"

definition MIN_MARKER_LEN :: nat where "MIN_MARKER_LEN = 3"

definition rstrip_cr :: "string \<Rightarrow> string" where
  "rstrip_cr s = rev (dropWhile (\<lambda>c. c = CHR 0x0D) (rev s))"

definition non_space_prefix :: "string \<Rightarrow> string" where
  "non_space_prefix s = takeWhile (\<lambda>c. \<not> is_space c) s"

text \<open>\<^verbatim>\<open>^--- (\S+)\<close> and \<^verbatim>\<open>^--- a/(\S+)\<close>.\<close>

definition match_file_header :: "string \<Rightarrow> bool" where
  "match_file_header line \<longleftrightarrow> py_startswith line ''--- '' \<and> non_space_prefix (drop 4 line) \<noteq> []"

definition match_old_path :: "string \<Rightarrow> string option" where
  "match_old_path line =
     (if py_startswith line ''--- a/'' \<and> non_space_prefix (drop 6 line) \<noteq> []
      then Some (non_space_prefix (drop 6 line)) else None)"

definition opt_count :: "string \<Rightarrow> string option \<times> string" where
  "opt_count s =
     (case s of
        c # t \<Rightarrow> if c = CHR '','' \<and> takeWhile is_digit t \<noteq> [] then (Some (takeWhile is_digit t), dropWhile is_digit t) else (None, s)
      | [] \<Rightarrow> (None, s))"

text \<open>One half of a hunk header: a line number and an optional count.\<close>

definition match_range :: "string \<Rightarrow> (string option \<times> string) option" where
  "match_range s = (if takeWhile is_digit s = [] then None else Some (opt_count (dropWhile is_digit s)))"

definition match_hunk_header :: "string \<Rightarrow> (string option \<times> string option) option" where
  "match_hunk_header line =
     (if \<not> py_startswith line ''@@ -'' then None
      else
        (case match_range (drop 4 line) of
           None \<Rightarrow> None
         | Some (c1, s) \<Rightarrow>
             if \<not> py_startswith s '' +'' then None
             else
               (case match_range (drop 2 s) of
                  None \<Rightarrow> None
                | Some (c2, s) \<Rightarrow> if py_startswith s '' @@'' then Some (c1, c2) else None)))"

text \<open>The groups are digits, so \<open>int\<close> does not raise; an omitted count means 1.\<close>

definition count_of :: "string option \<Rightarrow> int" where
  "count_of g = (case g of None \<Rightarrow> 1 | Some t \<Rightarrow> (case py_int t of Some v \<Rightarrow> v | None \<Rightarrow> 1))"

text \<open>The body of a hunk, consumed by the counts of its header.\<close>

fun hunk_body :: "string list \<Rightarrow> int \<Rightarrow> int \<Rightarrow> string list \<Rightarrow> string list \<Rightarrow> string list \<times> string list \<times> string list" where
  "hunk_body [] old_remaining new_remaining add forbidden = (add, forbidden, [])"
| "hunk_body (body # lines) old_remaining new_remaining add forbidden =
     (if old_remaining > 0 \<or> new_remaining > 0 then
        (if py_startswith body [CHR 0x5C] then hunk_body lines old_remaining new_remaining add forbidden
         else if py_startswith body ''+'' then
           hunk_body lines old_remaining (new_remaining - 1) (add @ [drop 1 body]) forbidden
         else if py_startswith body ''-'' then
           hunk_body lines (old_remaining - 1) new_remaining add (py_strip (drop 1 body) # forbidden)
         else
           hunk_body lines (old_remaining - 1) (new_remaining - 1) add
             ((if py_startswith body '' '' then py_strip (drop 1 body) else py_strip body) # forbidden))
      else (add, forbidden, body # lines))"

lemma hunk_body_rest: "hunk_body lines old new a f = (a', f', rest) \<Longrightarrow> length rest \<le> length lines"
  by (induction lines old new a f rule: hunk_body.induct) (auto split: if_splits)

function scan_hunks ::
  "string list \<Rightarrow> string option \<Rightarrow> hunk list \<Rightarrow> string list \<Rightarrow> hunk list \<times> string list" where
  "scan_hunks [] tgt hunks forbidden = (hunks, forbidden)"
| "scan_hunks (line # lines) tgt hunks forbidden =
     (if match_file_header line then scan_hunks lines (match_old_path line) hunks forbidden
      else
        (case match_hunk_header line of
           None \<Rightarrow> scan_hunks lines tgt hunks forbidden
         | Some (c1, c2) \<Rightarrow>
             (case hunk_body lines (count_of c1) (count_of c2) [] forbidden of (add, forbidden, rest) \<Rightarrow>
                scan_hunks rest tgt (hunks @ [\<lparr>ordinal = length hunks + 1, target = tgt, added = add\<rparr>]) forbidden)))"
  by pat_completeness auto
termination
  by (relation "measure (\<lambda>(lines, _). length lines)") (auto dest!: hunk_body_rest [OF sym])

definition parse_hunks :: "string list \<Rightarrow> hunk list \<times> string list" where
  "parse_hunks raw = scan_hunks (map rstrip_cr raw) None [] []"

section \<open>Markers\<close>

definition is_alnum :: "char \<Rightarrow> bool" where
  "is_alnum c \<longleftrightarrow> is_letter c \<or> is_digit c"

definition usable_marker :: "string list \<Rightarrow> string \<Rightarrow> bool" where
  "usable_marker forbidden text \<longleftrightarrow>
     \<not> length text < MIN_MARKER_LEN \<and> list_ex is_alnum text \<and> text \<notin> set forbidden"

fun first_marker :: "string list \<Rightarrow> string list \<Rightarrow> string option" where
  "first_marker forbidden [] = None"
| "first_marker forbidden (line # lines) =
     (if usable_marker forbidden (py_strip line) then Some (py_strip line) else first_marker forbidden lines)"

definition hunk_marker :: "string list \<Rightarrow> hunk \<Rightarrow> string option" where
  "hunk_marker forbidden h = first_marker forbidden (added h)"

section \<open>Verdicts\<close>

type_synonym tree = "string \<rightharpoonup> string"

text \<open>The external command: return code and output of a dry run, and return code, whether a
  reject file exists, and the tree after a real run.\<close>

record patch_cmd =
  dry_run :: "tree \<Rightarrow> int \<times> string"
  real_run :: "tree \<Rightarrow> int \<times> bool \<times> tree"

definition to_lower :: "string \<Rightarrow> string" where
  "to_lower s = map (\<lambda>c. let k = of_char c :: nat in if 65 \<le> k \<and> k \<le> 90 then char_of (k + 32) else c) s"

definition is_applied_by_dry_run :: "patch_cmd \<Rightarrow> tree \<Rightarrow> bool res" where
  "is_applied_by_dry_run cmd tr =
     (case dry_run cmd tr of (returncode, output) \<Rightarrow>
        (let lowered = to_lower output;
             already_applied = py_in ''previously applied'' lowered;
             hunk_failed = py_in ''failed'' lowered in
         if returncode = 0 \<and> \<not> already_applied \<and> \<not> hunk_failed then Inr False
         else if already_applied \<and> \<not> hunk_failed then Inr True
         else Inl (SystemExit 1)))"

definition marker_present_in_target :: "tree \<Rightarrow> hunk \<Rightarrow> string \<Rightarrow> bool" where
  "marker_present_in_target tr h marker =
     (case target h of
        None \<Rightarrow> False
      | Some path \<Rightarrow> (case tr path of None \<Rightarrow> False | Some text \<Rightarrow> py_in marker text))"

definition is_applied :: "patch_cmd \<Rightarrow> string list \<Rightarrow> tree \<Rightarrow> bool res" where
  "is_applied cmd raw tr =
     (case parse_hunks raw of (hunks, forbidden) \<Rightarrow>
        if hunks = [] then Inl (SystemExit 1)
        else if \<exists>h \<in> set hunks. target h = None then Inl (SystemExit 1)
        else
          (let markers = map (\<lambda>h. (h, hunk_marker forbidden h)) hunks;
               with_marker = filter (\<lambda>(h, m). m \<noteq> None) markers;
               without_marker = filter (\<lambda>(h, m). m = None) markers in
           if with_marker = [] then is_applied_by_dry_run cmd tr
           else if without_marker \<noteq> [] then Inl (SystemExit 1)
           else
             (let present = filter (\<lambda>(h, m). marker_present_in_target tr h (the m)) with_marker;
                  missing = filter (\<lambda>(h, m). \<not> marker_present_in_target tr h (the m)) with_marker in
              if present = [] then Inr False
              else if missing = [] then Inr True
              else Inl (SystemExit 1))))"

section \<open>Applying\<close>

definition apply_patch :: "patch_cmd \<Rightarrow> tree \<Rightarrow> unit res \<times> tree" where
  "apply_patch cmd tr =
     (case real_run cmd tr of (returncode, _, tr) \<Rightarrow>
        (if returncode \<noteq> 0 then Inl (SystemExit 1) else Inr (), tr))"

definition backup_one :: "string \<Rightarrow> tree \<Rightarrow> tree" where
  "backup_one rel_path tr =
     (let orig = rel_path @ ''.orig'' in
      case tr rel_path of
        None \<Rightarrow> tr
      | Some text \<Rightarrow> if tr orig \<noteq> None then tr else tr(orig \<mapsto> text))"

definition backup_originals :: "string list \<Rightarrow> tree \<Rightarrow> tree" where
  "backup_originals raw tr =
     fold (\<lambda>line tr. case match_old_path line of None \<Rightarrow> tr | Some p \<Rightarrow> backup_one (rstrip_cr p) tr) raw tr"

text \<open>\<open>main\<close>: the environment variable, whether it names a directory, the lines of the patch file if there is one.
  The result is the exit status, the tree, and whether the real command ran.\<close>

definition idf_main ::
  "patch_cmd \<Rightarrow> string option \<Rightarrow> bool \<Rightarrow> string list option \<Rightarrow> tree \<Rightarrow> int \<times> tree \<times> bool" where
  "idf_main cmd idf_path_env is_dir patch_file tr =
     (if idf_path_env = None \<or> idf_path_env = Some [] then (1, tr, False)
      else if \<not> is_dir then (1, tr, False)
      else
        (case patch_file of
           None \<Rightarrow> (1, tr, False)
         | Some raw \<Rightarrow>
             (case is_applied cmd raw tr of
                Inl e \<Rightarrow> (1, tr, False)
              | Inr True \<Rightarrow> (0, tr, False)
              | Inr False \<Rightarrow>
                  (case apply_patch cmd (backup_originals raw tr) of
                     (Inl e, tr) \<Rightarrow> (1, tr, True)
                   | (Inr _, tr) \<Rightarrow>
                       (case is_applied cmd raw tr of
                          Inr True \<Rightarrow> (0, tr, True)
                        | _ \<Rightarrow> (1, tr, True))))))"

section \<open>Lemmas\<close>

subsection \<open>Rendered diffs\<close>

datatype dline = Add string | Del string | Ctx string

record dhunk =
  old_start :: nat
  new_start :: nat
  heading :: string
  dlines :: "dline list"

type_synonym fdiff = "string \<times> dhunk list"

definition adds :: "dline list \<Rightarrow> string list" where
  "adds ds = List.map_filter (\<lambda>d. case d of Add s \<Rightarrow> Some s | _ \<Rightarrow> None) ds"

definition keeps :: "dline list \<Rightarrow> string list" where
  "keeps ds = List.map_filter (\<lambda>d. case d of Add _ \<Rightarrow> None | Del s \<Rightarrow> Some (py_strip s) | Ctx s \<Rightarrow> Some (py_strip s)) ds"

fun n_old :: "dline list \<Rightarrow> nat" where
  "n_old [] = 0"
| "n_old (d # ds) = (case d of Add _ \<Rightarrow> 0 | _ \<Rightarrow> 1) + n_old ds"

fun n_new :: "dline list \<Rightarrow> nat" where
  "n_new [] = 0"
| "n_new (d # ds) = (case d of Del _ \<Rightarrow> 0 | _ \<Rightarrow> 1) + n_new ds"

definition render_dline :: "dline \<Rightarrow> string" where
  "render_dline d = (case d of Add s \<Rightarrow> CHR ''+'' # s | Del s \<Rightarrow> CHR ''-'' # s | Ctx s \<Rightarrow> CHR '' '' # s)"

definition range_text :: "nat \<Rightarrow> nat \<Rightarrow> string" where
  "range_text a n = str_nat a @ '','' @ str_nat n"

definition hunk_header_text :: "dhunk \<Rightarrow> string" where
  "hunk_header_text h =
     ''@@ -'' @ range_text (old_start h) (n_old (dlines h)) @ '' +'' @ range_text (new_start h) (n_new (dlines h)) @ '' @@'' @ heading h"

definition render_hunk :: "dhunk \<Rightarrow> string list" where
  "render_hunk h = hunk_header_text h # map render_dline (dlines h)"

definition render_file :: "fdiff \<Rightarrow> string list" where
  "render_file fd = (''--- a/'' @ fst fd) # (''+++ b/'' @ fst fd) # concat (map render_hunk (snd fd))"

definition path_ok :: "string \<Rightarrow> bool" where
  "path_ok p \<longleftrightarrow> p \<noteq> [] \<and> list_all (\<lambda>c. \<not> is_space c) p"

lemma adds_simps [simp]: "adds [] = []" "adds (Add s # ds) = s # adds ds" "adds (Del s # ds) = adds ds" "adds (Ctx s # ds) = adds ds"
  by (simp_all add: adds_def map_filter_simps)

lemma keeps_simps [simp]: "keeps [] = []" "keeps (Add s # ds) = keeps ds"
  "keeps (Del s # ds) = py_strip s # keeps ds" "keeps (Ctx s # ds) = py_strip s # keeps ds"
  by (simp_all add: keeps_def map_filter_simps)

lemma hunk_body_render:
  "hunk_body (map render_dline ds @ rest) (int (n_old ds)) (int (n_new ds)) a f
     = (a @ adds ds, rev (keeps ds) @ f, rest)"
proof (induction ds arbitrary: a f)
  case Nil
  show ?case by (cases rest) simp_all
next
  case (Cons d ds)
  then show ?case by (cases d) (simp_all add: render_dline_def py_startswith_def)
qed

lemma digits_prefix:
  "\<not> is_digit c \<Longrightarrow> takeWhile is_digit (str_nat n @ c # t) = str_nat n"
  "\<not> is_digit c \<Longrightarrow> dropWhile is_digit (str_nat n @ c # t) = c # t"
  using str_nat_digits [of n] by (simp_all add: takeWhile_append2 dropWhile_append2 list_all_iff)

lemma match_range_text: "match_range (range_text a n @ CHR '' '' # t) = Some (Some (str_nat n), CHR '' '' # t)"
proof -
  have d: "\<not> is_digit (CHR '','')" "\<not> is_digit (CHR '' '')" by (simp_all add: is_digit_def)
  show ?thesis
    using str_nat_digits [of a] str_nat_digits [of n]
    by (simp add: match_range_def range_text_def digits_prefix d opt_count_def)
qed

lemma count_of_str_nat: "count_of (Some (str_nat n)) = int n"
  using py_int_py_str [of "int n"] by (simp add: count_of_def py_str_def)

lemma match_header_text:
  "match_hunk_header (hunk_header_text h) = Some (Some (str_nat (n_old (dlines h))), Some (str_nat (n_new (dlines h))))"
proof -
  let ?t = "range_text (new_start h) (n_new (dlines h)) @ '' @@'' @ heading h"
  have "drop 4 (hunk_header_text h) = range_text (old_start h) (n_old (dlines h)) @ CHR '' '' # CHR ''+'' # ?t"
    by (simp add: hunk_header_text_def)
  moreover have "py_startswith (hunk_header_text h) ''@@ -''" by (simp add: hunk_header_text_def py_startswith_def)
  moreover have "match_range ?t = Some (Some (str_nat (n_new (dlines h))), '' @@'' @ heading h)"
    using match_range_text [of "new_start h" _ "''@@'' @ heading h"] by simp
  ultimately show ?thesis
    by (simp add: match_hunk_header_def match_range_text py_startswith_def)
qed

definition number :: "nat \<Rightarrow> (string option \<times> string list) list \<Rightarrow> hunk list" where
  "number n xs = map (\<lambda>(i, (t, a)). \<lparr>ordinal = i, target = t, added = a\<rparr>) (enumerate (n + 1) xs)"

lemma number_simps [simp]: "number n [] = []"
  "number n (x # xs) = \<lparr>ordinal = n + 1, target = fst x, added = snd x\<rparr> # number (n + 1) xs"
  by (simp_all add: number_def enumerate_simps split: prod.split)

lemma number_append: "number n (xs @ ys) = number n xs @ number (n + length xs) ys"
  by (induction xs arbitrary: n) simp_all

lemma length_number [simp]: "length (number n xs) = length xs"
  by (simp add: number_def)

lemma scan_render_hunks:
  "scan_hunks (concat (map render_hunk hs) @ rest) tgt acc f =
     scan_hunks rest tgt (acc @ number (length acc) (map (\<lambda>h. (tgt, adds (dlines h))) hs))
       (rev (concat (map (\<lambda>h. keeps (dlines h)) hs)) @ f)"
proof (induction hs arbitrary: acc f)
  case (Cons h hs)
  have "\<not> match_file_header (hunk_header_text h)"
    by (simp add: match_file_header_def hunk_header_text_def py_startswith_def)
  then show ?case
    using Cons by (simp add: render_hunk_def match_header_text count_of_str_nat hunk_body_render)
qed simp

lemma scan_render_file:
  assumes "path_ok p"
  shows "scan_hunks (render_file (p, hs) @ rest) tgt acc f =
     scan_hunks rest (Some p) (acc @ number (length acc) (map (\<lambda>h. (Some p, adds (dlines h))) hs))
       (rev (concat (map (\<lambda>h. keeps (dlines h)) hs)) @ f)"
proof -
  have n: "non_space_prefix p = p" "p \<noteq> []"
    using assms by (auto simp: path_ok_def non_space_prefix_def takeWhile_eq_all_conv list_all_iff)
  have h: "match_file_header (''--- a/'' @ p)" "match_old_path (''--- a/'' @ p) = Some p"
    using n by (simp_all add: match_file_header_def match_old_path_def py_startswith_def)
      (simp_all add: non_space_prefix_def is_space_def)
  have "\<not> match_file_header (''+++ b/'' @ p)" "match_hunk_header (''+++ b/'' @ p) = None"
    by (simp_all add: match_file_header_def match_hunk_header_def py_startswith_def)
  then show ?thesis using h by (simp add: render_file_def scan_render_hunks)
qed

lemma scan_render_files:
  assumes "list_all (\<lambda>fd. path_ok (fst fd)) fds"
  shows "\<exists>tgt'. scan_hunks (concat (map render_file fds) @ rest) tgt acc f =
     scan_hunks rest tgt' (acc @ number (length acc) (concat (map (\<lambda>(p, hs). map (\<lambda>h. (Some p, adds (dlines h))) hs) fds)))
       (rev (concat (map (\<lambda>(p, hs). concat (map (\<lambda>h. keeps (dlines h)) hs)) fds)) @ f)"
  using assms
proof (induction fds arbitrary: tgt acc f)
  case Nil
  then show ?case by auto
next
  case (Cons fd fds)
  obtain p hs where fd: "fd = (p, hs)" by (cases fd)
  let ?acc = "acc @ number (length acc) (map (\<lambda>h. (Some p, adds (dlines h))) hs)"
  let ?f = "rev (concat (map (\<lambda>h. keeps (dlines h)) hs)) @ f"
  have "scan_hunks (concat (map render_file (fd # fds)) @ rest) tgt acc f
      = scan_hunks (concat (map render_file fds) @ rest) (Some p) ?acc ?f"
    using Cons.prems fd scan_render_file [of p hs "concat (map render_file fds) @ rest"] by simp
  then show ?case
    using Cons.IH [of "Some p" ?acc ?f] Cons.prems fd by (simp add: number_append)
qed


lemma rstrip_cr_eol:
  assumes "l = [] \<or> last l \<noteq> CHR 0x0D" "eol = [] \<or> eol = [CHR 0x0D]"
  shows "rstrip_cr (l @ eol) = l"
  using assms by (cases l rule: rev_cases) (auto simp: rstrip_cr_def)

subsection \<open>Markers\<close>

lemma first_marker_Some:
  "first_marker f ls = Some m \<Longrightarrow> \<exists>l \<in> set ls. m = py_strip l \<and> usable_marker f m"
  by (induction ls) (auto split: if_splits)

lemma first_marker_None: "first_marker f ls = None \<longleftrightarrow> (\<forall>l \<in> set ls. \<not> usable_marker f (py_strip l))"
  by (induction ls) auto

lemma hunk_marker_distinctive:
  assumes "hunk_marker forbidden h = Some m"
  shows "m \<in> py_strip ` set (added h) \<and> MIN_MARKER_LEN \<le> length m \<and> m \<notin> set forbidden"
  using first_marker_Some [OF assms [unfolded hunk_marker_def]] by (auto simp: usable_marker_def)

subsection \<open>Backups\<close>

text \<open>A tree reached from another by adding backups.\<close>

definition backed_up :: "tree \<Rightarrow> tree \<Rightarrow> bool" where
  "backed_up tr cur \<longleftrightarrow>
     (\<forall>q t. tr q = Some t \<longrightarrow> cur q = Some t) \<and>
     (\<forall>q t. tr q = None \<and> cur q = Some t \<longrightarrow> (\<exists>p. q = p @ ''.orig'' \<and> cur p = Some t))"

lemma backed_upD:
  assumes "backed_up tr cur"
  shows "tr q = Some t \<Longrightarrow> cur q = Some t"
    and "tr q = None \<Longrightarrow> cur q = Some t \<Longrightarrow> \<exists>p. q = p @ ''.orig'' \<and> cur p = Some t"
  using assms unfolding backed_up_def by blast+

lemma backup_one_cases:
  "backup_one p cur = cur \<or>
   (\<exists>t. cur p = Some t \<and> cur (p @ ''.orig'') = None \<and> backup_one p cur = cur(p @ ''.orig'' \<mapsto> t))"
  by (auto simp: backup_one_def Let_def split: option.splits)

lemma backup_one_backed_up:
  assumes "backed_up tr cur"
  shows "backed_up tr (backup_one p cur)"
  using backup_one_cases [of p cur]
proof
  assume "\<exists>t. cur p = Some t \<and> cur (p @ ''.orig'') = None \<and> backup_one p cur = cur(p @ ''.orig'' \<mapsto> t)"
  then obtain t where t: "cur p = Some t" "cur (p @ ''.orig'') = None" "backup_one p cur = cur(p @ ''.orig'' \<mapsto> t)"
    by blast
  have keep: "backup_one p cur q = Some u" if "cur q = Some u" for q u using that t by (cases "q = p @ ''.orig''") auto
  show ?thesis
    unfolding backed_up_def
  proof (intro conjI allI impI)
    fix q u
    assume "tr q = Some u"
    then show "backup_one p cur q = Some u" by (intro keep backed_upD(1) [OF assms])
  next
    fix q u
    assume q: "tr q = None \<and> backup_one p cur q = Some u"
    show "\<exists>p'. q = p' @ ''.orig'' \<and> backup_one p cur p' = Some u"
    proof (cases "q = p @ ''.orig''")
      case True
      then have "u = t" using q t(3) by simp
      with True keep [OF t(1)] show ?thesis by blast
    next
      case False
      then have "cur q = Some u" using q t(3) by simp
      then obtain p' where "q = p' @ ''.orig''" "cur p' = Some u" using backed_upD(2) [OF assms] q by blast
      with keep show ?thesis by blast
    qed
  qed
qed (simp add: assms)

lemma backup_one_keeps: "cur q = Some t \<Longrightarrow> backup_one p cur q = Some t"
  by (auto simp: backup_one_def Let_def split: option.splits)

lemma backup_one_has:
  assumes "backed_up tr cur" "tr p = Some t" "tr (p @ ''.orig'') = None"
  shows "backup_one p cur (p @ ''.orig'') = Some t"
proof -
  have p: "cur p = Some t" using assms(1,2) by (simp add: backed_up_def)
  show ?thesis
  proof (cases "cur (p @ ''.orig'')")
    case (Some t')
    then have "cur p = Some t'" using backed_upD(2) [OF assms(1,3)] by auto
    then show ?thesis using p Some by (simp add: backup_one_def)
  qed (simp add: backup_one_def p)
qed

lemma backup_fold:
  assumes "backed_up tr cur"
  shows "backed_up tr (backup_originals raw cur) \<and> (\<forall>q t. cur q = Some t \<longrightarrow> backup_originals raw cur q = Some t) \<and>
     (\<forall>line \<in> set raw. \<forall>p t. match_old_path line = Some p \<and> tr (rstrip_cr p) = Some t \<and> tr (rstrip_cr p @ ''.orig'') = None \<longrightarrow>
        backup_originals raw cur (rstrip_cr p @ ''.orig'') = Some t)"
  using assms
proof (induction raw arbitrary: cur)
  case Nil
  then show ?case by (simp add: backup_originals_def)
next
  case (Cons line raw)
  let ?cur = "case match_old_path line of None \<Rightarrow> cur | Some p \<Rightarrow> backup_one (rstrip_cr p) cur"
  have s: "backup_originals (line # raw) cur = backup_originals raw ?cur" by (simp add: backup_originals_def)
  have b: "backed_up tr ?cur" using Cons.prems by (auto intro: backup_one_backed_up split: option.splits)
  have k: "cur q = Some t \<Longrightarrow> ?cur q = Some t" for q t by (auto simp: backup_one_keeps split: option.splits)
  have h: "?cur (rstrip_cr p @ ''.orig'') = Some t"
    if "match_old_path line = Some p" "tr (rstrip_cr p) = Some t" "tr (rstrip_cr p @ ''.orig'') = None" for p t
    using backup_one_has [OF Cons.prems that(2,3)] that(1) by simp
  note ih = Cons.IH [OF b]
  show ?case
    unfolding s
  proof (intro conjI allI ballI impI)
    show "backed_up tr (backup_originals raw ?cur)" using ih by (rule conjunct1)
  next
    fix q t
    assume "cur q = Some t"
    then show "backup_originals raw ?cur q = Some t" using ih k by blast
  next
    fix l p t
    assume "l \<in> set (line # raw)"
      and p: "match_old_path l = Some p \<and> tr (rstrip_cr p) = Some t \<and> tr (rstrip_cr p @ ''.orig'') = None"
    then consider "l = line" | "l \<in> set raw" by auto
    then show "backup_originals raw ?cur (rstrip_cr p @ ''.orig'') = Some t"
    proof cases
      case 1
      then show ?thesis using h p ih by blast
    next
      case 2
      then show ?thesis using p ih by blast
    qed
  qed
qed

section \<open>Properties\<close>

text \<open>C36: the diff scanner reads back every rendered unified diff, with either line ending: the hunks in order with
  their files and added lines, and as forbidden texts exactly the deleted and context lines. Body lines that look like
  file or hunk headers are no exception.\<close>

theorem parse_rendered_patch:
  assumes "list_all (\<lambda>fd. path_ok (fst fd)) fds" and "eol = [] \<or> eol = [CHR 0x0D]"
    and "\<forall>l \<in> set (concat (map render_file fds)). l = [] \<or> last l \<noteq> CHR 0x0D"
  shows "parse_hunks (map (\<lambda>l. l @ eol) (concat (map render_file fds))) =
     (number 0 (concat (map (\<lambda>(p, hs). map (\<lambda>h. (Some p, adds (dlines h))) hs) fds)),
      rev (concat (map (\<lambda>(p, hs). concat (map (\<lambda>h. keeps (dlines h)) hs)) fds)))"
proof -
  have "map rstrip_cr (map (\<lambda>l. l @ eol) (concat (map render_file fds))) = concat (map render_file fds)"
    unfolding map_map comp_def by (rule map_idI) (use rstrip_cr_eol [OF _ assms(2)] assms(3) in blast)
  then show ?thesis
    using scan_render_files [OF assms(1), of "[]" None "[]" "[]"] by (auto simp: parse_hunks_def)
qed

theorem parse_rendered_patch_witness:
  "let h = \<lparr>old_start = 1, new_start = 1, heading = '''', dlines = [Del ''-- a/old'', Add ''++ b/new'', Ctx ''@@ -1 +1 @@'']\<rparr> in
   parse_hunks (map (\<lambda>l. l @ [CHR 0x0D]) (render_file (''dir/x.c'', [h]))) =
     ([\<lparr>ordinal = 1, target = Some ''dir/x.c'', added = [''++ b/new'']\<rparr>], [py_strip ''@@ -1 +1 @@'', py_strip ''-- a/old''])"
proof -
  let ?h = "\<lparr>old_start = 1, new_start = 1, heading = '''', dlines = [Del ''-- a/old'', Add ''++ b/new'', Ctx ''@@ -1 +1 @@'']\<rparr>"
  have "list_all (\<lambda>fd. path_ok (fst fd)) [(''dir/x.c'', [?h])]" by code_simp
  moreover have "\<forall>l \<in> set (concat (map render_file [(''dir/x.c'', [?h])])). l = [] \<or> last l \<noteq> CHR 0x0D" by code_simp
  ultimately show ?thesis using parse_rendered_patch [of "[(''dir/x.c'', [?h])]" "[CHR 0x0D]"] by simp
qed

text \<open>When every hunk of a patch has a marker, the verdict is "applied" exactly if every hunk's marker is in that
  hunk's own file, "not applied" exactly if none is, and exit status 1 in between; the \<open>patch\<close> command is not consulted.\<close>

theorem is_applied_verdict:
  assumes "parse_hunks raw = (hunks, forbidden)" "hunks \<noteq> []"
    and "\<forall>h \<in> set hunks. target h \<noteq> None \<and> hunk_marker forbidden h \<noteq> None"
  shows "is_applied cmd raw tr =
     (let found = (\<lambda>h. marker_present_in_target tr h (the (hunk_marker forbidden h))) in
      if \<forall>h \<in> set hunks. found h then Inr True
      else if \<forall>h \<in> set hunks. \<not> found h then Inr False
      else Inl (SystemExit 1))"
proof -
  let ?found = "\<lambda>h. marker_present_in_target tr h (the (hunk_marker forbidden h))"
  have w: "filter (\<lambda>(h, m). m \<noteq> None) (map (\<lambda>h. (h, hunk_marker forbidden h)) hunks)
      = map (\<lambda>h. (h, hunk_marker forbidden h)) hunks"
    "filter (\<lambda>(h, m). m = None) (map (\<lambda>h. (h, hunk_marker forbidden h)) hunks) = []"
    using assms(3) by (simp_all add: filter_id_conv filter_empty_conv)
  have f: "filter (\<lambda>(h, m). marker_present_in_target tr h (the m)) (map (\<lambda>h. (h, hunk_marker forbidden h)) hunks) = [] \<longleftrightarrow> (\<forall>h \<in> set hunks. \<not> ?found h)"
    "filter (\<lambda>(h, m). \<not> marker_present_in_target tr h (the m)) (map (\<lambda>h. (h, hunk_marker forbidden h)) hunks) = [] \<longleftrightarrow> (\<forall>h \<in> set hunks. ?found h)"
    by (simp_all add: filter_empty_conv)
  have t: "\<not> (\<exists>h \<in> set hunks. target h = None)" using assms(3) by blast
  have ne: "\<not> ((\<forall>h \<in> set hunks. ?found h) \<and> (\<forall>h \<in> set hunks. \<not> ?found h))" using assms(2) by (cases hunks) auto
  have e: "map (\<lambda>h. (h, hunk_marker forbidden h)) hunks \<noteq> []" using assms(2) by simp
  show ?thesis
    unfolding is_applied_def assms(1) prod.case Let_def w f
    using ne by (simp only: assms(2) t e if_False simp_thms) (simp add: assms(2) split: if_split)
qed


text \<open>The backup step overwrites nothing, an existing backup included, adds only backups, and leaves for every
  existing file named by a header of the patch a backup with the text the file had before, unless one was there already.\<close>

theorem backups_preserve_originals:
  "(\<forall>q t. tr q = Some t \<longrightarrow> backup_originals raw tr q = Some t) \<and>
   (\<forall>q t. tr q = None \<and> backup_originals raw tr q = Some t \<longrightarrow> (\<exists>p. q = p @ ''.orig'' \<and> backup_originals raw tr p = Some t)) \<and>
   (\<forall>line \<in> set raw. \<forall>p t. match_old_path line = Some p \<and> tr (rstrip_cr p) = Some t \<and> tr (rstrip_cr p @ ''.orig'') = None \<longrightarrow>
      backup_originals raw tr (rstrip_cr p @ ''.orig'') = Some t)"
proof -
  have "backed_up tr tr" by (auto simp: backed_up_def)
  from backup_fold [OF this, of raw] show ?thesis unfolding backed_up_def by blast
qed


text \<open>A one-hunk patch of a one-line file, and a command that applies it.\<close>

definition demo_raw :: "string list" where
  "demo_raw = [''--- a/x.c'', ''+++ b/x.c'', ''@@ -1 +1 @@'', ''-old line'', ''+new line'']"

definition demo_cmd :: patch_cmd where
  "demo_cmd = \<lparr>dry_run = (\<lambda>_. (0, '''')), real_run = (\<lambda>tr. (0, False, tr(''x.c'' \<mapsto> ''new line'')))\<rparr>"

lemma demo_parse: "parse_hunks demo_raw = ([\<lparr>ordinal = 1, target = Some ''x.c'', added = [''new line'']\<rparr>], [''old line''])"
  by code_simp

lemma demo_marker: "hunk_marker [''old line''] \<lparr>ordinal = 1, target = Some ''x.c'', added = [''new line'']\<rparr> = Some ''new line''"
  by code_simp

theorem is_applied_verdict_witness:
  "is_applied demo_cmd demo_raw [''x.c'' \<mapsto> ''old line''] = Inr False \<and>
   is_applied demo_cmd demo_raw [''x.c'' \<mapsto> ''new line''] = Inr True"
proof -
  have n: "\<not> py_in ''new line'' ''old line''" "py_in ''new line'' ''new line''" by code_simp+
  show ?thesis
    using is_applied_verdict [OF demo_parse, of demo_cmd "[''x.c'' \<mapsto> ''old line'']"]
      is_applied_verdict [OF demo_parse, of demo_cmd "[''x.c'' \<mapsto> ''new line'']"] n demo_marker
    by (simp add: marker_present_in_target_def)
qed


theorem backups_preserve_originals_witness:
  "backup_originals demo_raw [''x.c'' \<mapsto> ''old line''] (''x.c'' @ ''.orig'') = Some ''old line'' \<and>
   backup_originals demo_raw [''x.c'' \<mapsto> ''new'', ''x.c.orig'' \<mapsto> ''old line''] ''x.c.orig'' = Some ''old line''"
proof -
  have m: "''--- a/x.c'' \<in> set demo_raw" "match_old_path ''--- a/x.c'' = Some ''x.c''" "rstrip_cr ''x.c'' = ''x.c''" by code_simp+
  show ?thesis
    using backups_preserve_originals [of "[''x.c'' \<mapsto> ''old line'']" demo_raw]
      backups_preserve_originals [of "[''x.c'' \<mapsto> ''new'', ''x.c.orig'' \<mapsto> ''old line'']" demo_raw] m
    by fastforce
qed

end
