(* ===== verification/Polling_Client.thy ===== *)
theory Polling_Client
  imports Modbus_Tcp "HOL-Library.Product_Lexorder"
begin

text \<open>
  The two-threaded polling client of \<open>api_tests/37_test_cache_server_deinit_hang.py\<close>: its shared
  statistics, the sender and the drainer as interleaved steps, \<open>stop\<close>, and the feed-rate guards the
  test decides its outcome with. A step is one pass of a thread up to its next blocking call or back to
  its loop condition; the clock that stamps the events never runs backwards. What \<open>sendall\<close> and
  \<open>recv\<close> do is chosen by the environment.
\<close>

section \<open>Constants\<close>

definition GUEST_RECV_TIMEOUT_S :: time where "GUEST_RECV_TIMEOUT_S = 1/10"
definition CLOSE_GAP_MAX_S :: time where "CLOSE_GAP_MAX_S = GUEST_RECV_TIMEOUT_S / 2"
definition SEND_INTERVAL_S :: time where "SEND_INTERVAL_S = 1/50"
definition MAX_OUTSTANDING :: nat where "MAX_OUTSTANDING = 1024"
definition SEND_LOG_MAX :: nat where "SEND_LOG_MAX = 60000"

section \<open>Shared state\<close>

text \<open>Why a thread stopped; the messages carry the response or send count and the exception.\<close>

datatype cause =
    ConnectFailed exn
  | SendStalled nat
  | PeerClosedSend nat exn
  | SendFailed nat exn
  | PeerClosedRecv nat exn
  | RecvFailed nat exn

record poll_stats =
  first_response :: bool
  responses :: nat
  ps_error :: "cause option"
  closed_by_peer :: bool
  connection_ended_at :: "time option"
  last_response_at :: "time option"
  response_times :: "time list"
  drainer_ended_at :: "time option"
  drainer_closed_by_peer :: bool
  sends :: nat
  send_times :: "time list"
  send_log_truncated :: bool
  throttled_ticks :: nat

definition new_stats :: poll_stats where
  "new_stats = \<lparr>first_response = False, responses = 0, ps_error = None, closed_by_peer = False,
     connection_ended_at = None, last_response_at = None, response_times = [], drainer_ended_at = None,
     drainer_closed_by_peer = False, sends = 0, send_times = [], send_log_truncated = False, throttled_ticks = 0\<rparr>"

text \<open>The sender is at its loop condition, in \<open>sendall\<close>, or has ended; the drainer is at the loop condition of
  \<open>_recv_frame_bytes\<close>, in \<open>recv\<close>, or has ended, with the part of a frame it is reading.\<close>

datatype sender_at = SLoop | SSend bytes | SGone
datatype part = Header | Payload
datatype drainer_at = DLoop | DRecv | DGone

record pclient =
  stats :: poll_stats
  stop_event :: bool
  dead :: bool
  connected :: bool
  sender :: sender_at
  drainer :: drainer_at
  d_part :: part
  d_need :: nat
  d_buf :: bytes
  tid :: int
  next_send :: time
  clock :: time

definition new_client :: "time \<Rightarrow> pclient" where
  "new_client t = \<lparr>stats = new_stats, stop_event = False, dead = False, connected = False, sender = SGone, drainer = DGone,
     d_part = Header, d_need = 8, d_buf = [], tid = 1, next_send = t, clock = t\<rparr>"

text \<open>\<open>start\<close>: the outcome of \<open>connect\<close> and the clock when the sender begins.\<close>

definition poll_start :: "exn option \<Rightarrow> time \<Rightarrow> pclient \<Rightarrow> unit res \<times> pclient" where
  "poll_start conn t c =
     (case conn of
        Some e \<Rightarrow>
          if is_OSError e then (Inr (), c\<lparr>stats := (stats c)\<lparr>ps_error := Some (ConnectFailed e)\<rparr>, dead := True\<rparr>)
          else (Inl e, c)
      | None \<Rightarrow> (Inr (), c\<lparr>connected := True, drainer := DLoop, sender := SLoop, next_send := t, clock := t\<rparr>))"

definition is_alive :: "pclient \<Rightarrow> bool" where
  "is_alive c \<longleftrightarrow> drainer c \<noteq> DGone"

section \<open>Recording an ending\<close>

definition note_cause :: "cause \<Rightarrow> pclient \<Rightarrow> pclient" where
  "note_cause m c = (if ps_error (stats c) = None then c\<lparr>stats := (stats c)\<lparr>ps_error := Some m\<rparr>\<rparr> else c)"

definition end_connection :: "time \<Rightarrow> cause \<Rightarrow> pclient \<Rightarrow> pclient" where
  "end_connection now m c =
     (let c = (if connection_ended_at (stats c) = None then c\<lparr>stats := (stats c)\<lparr>connection_ended_at := Some now\<rparr>\<rparr> else c) in
      (note_cause m c)\<lparr>dead := True\<rparr>)"

definition note_peer_close :: "time \<Rightarrow> cause \<Rightarrow> pclient \<Rightarrow> pclient" where
  "note_peer_close now m c = end_connection now m (c\<lparr>stats := (stats c)\<lparr>closed_by_peer := True\<rparr>\<rparr>)"

definition drainer_end :: "time \<Rightarrow> cause \<Rightarrow> bool \<Rightarrow> pclient \<Rightarrow> pclient" where
  "drainer_end now m peer_closed c =
     (let c = (if drainer_ended_at (stats c) = None
               then c\<lparr>stats := (stats c)\<lparr>drainer_ended_at := Some now, drainer_closed_by_peer := peer_closed\<rparr>\<rparr> else c) in
      if peer_closed then note_peer_close now m c else end_connection now m c)"

section \<open>The sender\<close>

definition schedule :: "time \<Rightarrow> time \<Rightarrow> time" where
  "schedule now nxt =
     (let nxt = nxt + SEND_INTERVAL_S in if nxt < now then now + SEND_INTERVAL_S else nxt)"

text \<open>From the loop condition to the next sleep, skipped tick or \<open>sendall\<close>; \<open>t\<close> is the clock at the delay, \<open>now\<close>
  the clock at the schedule. The length of a sleep is \<open>next_send - t\<close>.\<close>

definition sender_loop :: "time \<Rightarrow> time \<Rightarrow> pclient \<Rightarrow> pclient" where
  "sender_loop t now c =
     (if stop_event c \<or> dead c then c\<lparr>sender := SGone\<rparr>
      else if next_send c - t > 0 then c
      else
        (let c = c\<lparr>next_send := schedule now (next_send c)\<rparr>; st = stats c in
         if int (sends st) - int (responses st) \<ge> int MAX_OUTSTANDING
         then c\<lparr>stats := st\<lparr>throttled_ticks := throttled_ticks st + 1\<rparr>\<rparr>
         else
           (case make_mbap_request (tid c) 1 3 0 1 of
              Inl e \<Rightarrow> c\<lparr>sender := SGone\<rparr>
            | Inr req \<Rightarrow> c\<lparr>sender := SSend req\<rparr>)))"

text \<open>What follows \<open>sendall\<close>; an exception outside \<open>OSError\<close> ends the thread.\<close>

definition sender_sent :: "exn option \<Rightarrow> time \<Rightarrow> pclient \<Rightarrow> pclient" where
  "sender_sent out now c =
     (let st = stats c in
      case out of
        None \<Rightarrow>
          c\<lparr>sender := SLoop, tid := (tid c mod 65535) + 1,
            stats := (let st = st\<lparr>sends := sends st + 1\<rparr> in
              if length (send_times st) < SEND_LOG_MAX then st\<lparr>send_times := send_times st @ [now]\<rparr>
              else st\<lparr>send_log_truncated := True\<rparr>)\<rparr>
      | Some e \<Rightarrow>
          (let c' = c\<lparr>sender := SGone\<rparr> in
           if e = TimeoutError then note_cause (SendStalled (sends st)) c'
           else if e = ConnectionError then
             (if stop_event c then c' else note_peer_close now (PeerClosedSend (responses st) e) c')
           else if is_OSError e then
             (if stop_event c then c' else end_connection now (SendFailed (responses st) e) c')
           else c'))"

section \<open>The drainer\<close>

text \<open>The exception handlers of \<open>_drain_loop\<close>.\<close>

definition drain_exn :: "exn \<Rightarrow> time \<Rightarrow> pclient \<Rightarrow> pclient" where
  "drain_exn e now c =
     (let c' = c\<lparr>drainer := DGone\<rparr>; n = responses (stats c) in
      if e = ConnectionError then
        (if stop_event c then c' else drainer_end now (PeerClosedRecv n e) True c')
      else if is_OSError e \<or> e = ValueError \<or> e = StructError then
        (if stop_event c then c' else drainer_end now (RecvFailed n e) False c')
      else c')"

definition frame_done :: "time \<Rightarrow> pclient \<Rightarrow> pclient" where
  "frame_done now c =
     c\<lparr>drainer := DLoop, d_part := Header, d_need := 8, d_buf := [],
       stats := (let st = (stats c)\<lparr>last_response_at := Some now\<rparr>;
                     st = (if length (response_times st) < SEND_LOG_MAX
                           then st\<lparr>response_times := response_times st @ [now]\<rparr> else st) in
                 st\<lparr>responses := responses st + 1, first_response := True\<rparr>)\<rparr>"

definition header_done :: "bytes \<Rightarrow> time \<Rightarrow> pclient \<Rightarrow> pclient" where
  "header_done header now c =
     (let len = unpack_H (header ! 4) (header ! 5) in
      if \<not> (2 \<le> len \<and> len \<le> 253) then drain_exn ValueError now c
      else
        (let remaining = len - 2 in
         if remaining > 0 then c\<lparr>drainer := DLoop, d_part := Payload, d_need := nat remaining, d_buf := []\<rparr>
         else frame_done now c))"

text \<open>The loop condition of \<open>_recv_frame_bytes\<close>, and what follows its \<open>recv\<close>. The environment's chunk is cut
  to the length asked for.\<close>

definition drainer_loop :: "pclient \<Rightarrow> pclient" where
  "drainer_loop c = (if stop_event c then c\<lparr>drainer := DGone\<rparr> else c\<lparr>drainer := DRecv\<rparr>)"

definition drainer_recv :: "recv256 \<Rightarrow> time \<Rightarrow> pclient \<Rightarrow> pclient" where
  "drainer_recv out now c =
     (case out of
        SockTimeout \<Rightarrow> (if dead c then c\<lparr>drainer := DGone\<rparr> else c\<lparr>drainer := DLoop\<rparr>)
      | SockFail e \<Rightarrow> drain_exn e now c
      | Chunk chunk \<Rightarrow>
          (let chunk = take (d_need c - length (d_buf c)) chunk in
           if chunk = [] then drain_exn ConnectionError now c
           else
             (let buf = d_buf c @ chunk in
              if length buf < d_need c then c\<lparr>drainer := DLoop, d_buf := buf\<rparr>
              else if d_part c = Header then header_done buf now c
              else frame_done now c)))"

section \<open>Stopping\<close>

definition set_stop :: "pclient \<Rightarrow> pclient" where
  "set_stop c = c\<lparr>stop_event := True\<rparr>"

text \<open>\<open>stop\<close> after its joins: the names of the threads that outlived them, and the closed socket.\<close>

definition stop_finish :: "pclient \<Rightarrow> string list \<times> pclient" where
  "stop_finish c =
     ((if sender c \<noteq> SGone then [''sender''] else []) @ (if drainer c \<noteq> DGone then [''drainer''] else []),
      c\<lparr>connected := False\<rparr>)"

section \<open>Interleavings\<close>

inductive pstep :: "pclient \<Rightarrow> pclient \<Rightarrow> bool" where
  p_sender_loop: "sender c = SLoop \<Longrightarrow> clock c \<le> t \<Longrightarrow> t \<le> now \<Longrightarrow> pstep c ((sender_loop t now c)\<lparr>clock := now\<rparr>)"
| p_sender_sent: "sender c = SSend req \<Longrightarrow> clock c \<le> now \<Longrightarrow> pstep c ((sender_sent out now c)\<lparr>clock := now\<rparr>)"
| p_drainer_loop: "drainer c = DLoop \<Longrightarrow> pstep c (drainer_loop c)"
| p_drainer_recv: "drainer c = DRecv \<Longrightarrow> clock c \<le> now \<Longrightarrow> pstep c ((drainer_recv out now c)\<lparr>clock := now\<rparr>)"
| p_stop: "pstep c (set_stop c)"

inductive reached :: "pclient \<Rightarrow> bool" where
  r_start: "poll_start None t (new_client t0) = (r, c) \<Longrightarrow> reached c"
| r_step: "reached c \<Longrightarrow> pstep c c' \<Longrightarrow> reached c'"

section \<open>Measuring the send gaps\<close>

record gap_state =
  prev_send :: time
  drained_since :: "time option"
  outstanding :: nat
  longest :: time
  longest_drained :: time
  n_sends :: nat

text \<open>An event is its time and whether it is a send. The sort is by time, sends first, and stable.\<close>

type_synonym event = "time \<times> bool"

definition gap_event :: "time \<Rightarrow> event \<Rightarrow> gap_state \<Rightarrow> gap_state" where
  "gap_event t0 ev g =
     (case ev of (ts, is_send) \<Rightarrow>
        if is_send then
          (let g = (if ts > t0 then
                      (let g = g\<lparr>longest := max (longest g) (ts - prev_send g)\<rparr> in
                       (case drained_since g of
                          None \<Rightarrow> g
                        | Some d \<Rightarrow> g\<lparr>longest_drained := max (longest_drained g) (ts - d)\<rparr>)\<lparr>n_sends := n_sends g + 1\<rparr>)
                    else g) in
           g\<lparr>prev_send := ts, outstanding := outstanding g + 1, drained_since := None\<rparr>)
        else
          (let g = g\<lparr>outstanding := outstanding g - 1\<rparr> in
           if outstanding g = 0 \<and> drained_since g = None then g\<lparr>drained_since := Some ts\<rparr> else g))"

definition gap_events :: "time list \<Rightarrow> time list \<Rightarrow> time \<Rightarrow> event list" where
  "gap_events sts rts t1 =
     sort_key (\<lambda>ev. (fst ev, if snd ev then 0 :: nat else 1))
       (map (\<lambda>ts. (ts, True)) (filter (\<lambda>ts. ts \<le> t1) sts) @ map (\<lambda>ts. (ts, False)) (filter (\<lambda>ts. ts \<le> t1) rts))"

definition longest_send_gap :: "time list \<Rightarrow> time list \<Rightarrow> time \<Rightarrow> time \<Rightarrow> nat \<times> time \<times> time" where
  "longest_send_gap sts rts t0 t1 =
     (let g = fold (gap_event t0) (gap_events sts rts t1)
                \<lparr>prev_send = t0, drained_since = None, outstanding = 0, longest = 0, longest_drained = 0, n_sends = 0\<rparr> in
      (n_sends g, max (longest g) (t1 - prev_send g),
       case drained_since g of None \<Rightarrow> longest_drained g | Some d \<Rightarrow> max (longest_drained g) (t1 - d)))"

section \<open>The guards\<close>

datatype verdict = Pass | Skipped | Failed

definition close_gap :: "poll_stats \<Rightarrow> time option" where
  "close_gap st =
     (case (drainer_ended_at st, last_response_at st) of (Some d, Some l) \<Rightarrow> Some (d - l) | _ \<Rightarrow> None)"

definition feed_end :: "poll_stats \<Rightarrow> time \<Rightarrow> time" where
  "feed_end st t1 =
     min t1 (case connection_ended_at st of None \<Rightarrow> t1 | Some t \<Rightarrow> if t = 0 then t1 else t)"

text \<open>The assertions and skips of step 13, once the drainer has had its time to see the teardown.\<close>

definition feed_guards :: "poll_stats \<Rightarrow> time \<Rightarrow> time \<Rightarrow> verdict" where
  "feed_guards st t0 t1 =
     (let t_feed_end = feed_end st t1 in
      if \<not> t_feed_end > t0 then Failed
      else if drainer_ended_at st \<noteq> None \<and> \<not> drainer_closed_by_peer st then Failed
      else
        (case close_gap st of
           None \<Rightarrow> Skipped
         | Some gap \<Rightarrow>
             if \<not> drainer_closed_by_peer st then Skipped
             else if gap \<ge> CLOSE_GAP_MAX_S then Skipped
             else if send_log_truncated st then Pass
             else
               (case longest_send_gap (send_times st) (response_times st) t0 t_feed_end of (_, _, drained) \<Rightarrow>
                  if drained \<ge> GUEST_RECV_TIMEOUT_S then Skipped else Pass)))"

section \<open>Lemmas on endings\<close>

lemmas ending_defs = drain_exn_def drainer_end_def note_peer_close_def end_connection_def note_cause_def Let_def

text \<open>Everything but the record of the ending.\<close>

definition same_traffic :: "pclient \<Rightarrow> pclient \<Rightarrow> bool" where
  "same_traffic a b \<longleftrightarrow>
     first_response (stats b) = first_response (stats a) \<and> responses (stats b) = responses (stats a) \<and>
     last_response_at (stats b) = last_response_at (stats a) \<and> response_times (stats b) = response_times (stats a) \<and>
     sends (stats b) = sends (stats a) \<and> send_times (stats b) = send_times (stats a) \<and>
     send_log_truncated (stats b) = send_log_truncated (stats a) \<and> stop_event b = stop_event a \<and>
     d_part b = d_part a \<and> d_need b = d_need a \<and> d_buf b = d_buf a \<and> tid b = tid a \<and> next_send b = next_send a"

text \<open>The record of the ending, which the first observer fixes.\<close>

definition same_ending :: "pclient \<Rightarrow> pclient \<Rightarrow> bool" where
  "same_ending a b \<longleftrightarrow>
     closed_by_peer (stats b) = closed_by_peer (stats a) \<and> connection_ended_at (stats b) = connection_ended_at (stats a) \<and>
     drainer_ended_at (stats b) = drainer_ended_at (stats a) \<and>
     drainer_closed_by_peer (stats b) = drainer_closed_by_peer (stats a) \<and> dead b = dead a"

lemma end_connection_facts:
  "same_traffic c (end_connection now m c)" "sender (end_connection now m c) = sender c"
  "drainer (end_connection now m c) = drainer c" "dead (end_connection now m c)"
  "ps_error (stats (end_connection now m c)) \<noteq> None"
  "connection_ended_at (stats (end_connection now m c)) =
     (case connection_ended_at (stats c) of None \<Rightarrow> Some now | Some t \<Rightarrow> Some t)"
  "closed_by_peer (stats (end_connection now m c)) = closed_by_peer (stats c)"
  "drainer_ended_at (stats (end_connection now m c)) = drainer_ended_at (stats c)"
  "drainer_closed_by_peer (stats (end_connection now m c)) = drainer_closed_by_peer (stats c)"
  by (auto simp: ending_defs same_traffic_def split: option.splits)

lemma same_traffic_trans: "same_traffic a b \<Longrightarrow> same_traffic b c \<Longrightarrow> same_traffic a c"
  by (simp add: same_traffic_def)

lemma note_peer_close_facts:
  "same_traffic c (note_peer_close now m c)" "sender (note_peer_close now m c) = sender c"
  "drainer (note_peer_close now m c) = drainer c" "dead (note_peer_close now m c)"
  "ps_error (stats (note_peer_close now m c)) \<noteq> None"
  "connection_ended_at (stats (note_peer_close now m c)) =
     (case connection_ended_at (stats c) of None \<Rightarrow> Some now | Some t \<Rightarrow> Some t)"
  "closed_by_peer (stats (note_peer_close now m c))"
  "drainer_ended_at (stats (note_peer_close now m c)) = drainer_ended_at (stats c)"
  "drainer_closed_by_peer (stats (note_peer_close now m c)) = drainer_closed_by_peer (stats c)"
proof -
  let ?c = "c\<lparr>stats := (stats c)\<lparr>closed_by_peer := True\<rparr>\<rparr>"
  have "same_traffic c ?c" by (simp add: same_traffic_def)
  then show "same_traffic c (note_peer_close now m c)"
    unfolding note_peer_close_def by (rule same_traffic_trans) (rule end_connection_facts)
qed (simp_all add: note_peer_close_def end_connection_facts)

definition drainer_mark :: "time \<Rightarrow> bool \<Rightarrow> pclient \<Rightarrow> pclient" where
  "drainer_mark now peer c =
     (if drainer_ended_at (stats c) = None
      then c\<lparr>stats := (stats c)\<lparr>drainer_ended_at := Some now, drainer_closed_by_peer := peer\<rparr>\<rparr> else c)"

lemma drainer_end_eq:
  "drainer_end now m peer c =
     (if peer then note_peer_close now m (drainer_mark now peer c) else end_connection now m (drainer_mark now peer c))"
  by (simp add: drainer_end_def drainer_mark_def)

lemma drainer_mark_facts:
  "same_traffic c (drainer_mark now peer c)" "sender (drainer_mark now peer c) = sender c"
  "drainer (drainer_mark now peer c) = drainer c" "dead (drainer_mark now peer c) = dead c"
  "connection_ended_at (stats (drainer_mark now peer c)) = connection_ended_at (stats c)"
  "closed_by_peer (stats (drainer_mark now peer c)) = closed_by_peer (stats c)"
  "drainer_ended_at (stats c) = None \<Longrightarrow> drainer_ended_at (stats (drainer_mark now peer c)) = Some now"
  "drainer_ended_at (stats c) = None \<Longrightarrow> drainer_closed_by_peer (stats (drainer_mark now peer c)) = peer"
  by (simp_all add: drainer_mark_def same_traffic_def)

lemma drainer_end_traffic: "same_traffic c (drainer_end now m peer c)"
  using end_connection_facts(1) note_peer_close_facts(1) drainer_mark_facts(1) same_traffic_trans
  by (metis drainer_end_eq)

lemma drainer_end_threads:
  "sender (drainer_end now m peer c) = sender c" "drainer (drainer_end now m peer c) = drainer c"
  by (simp_all add: drainer_end_eq end_connection_facts note_peer_close_facts drainer_mark_facts)

lemma gone_traffic [simp]: "same_traffic c (c\<lparr>drainer := DGone\<rparr>)" "same_traffic c (c\<lparr>sender := SGone\<rparr>)"
  by (simp_all add: same_traffic_def)

lemma drain_exn_facts:
  "same_traffic c (drain_exn e now c)" "sender (drain_exn e now c) = sender c" "drainer (drain_exn e now c) = DGone"
proof -
  let ?c = "c\<lparr>drainer := DGone\<rparr>"
  have "same_traffic c (drainer_end now m peer ?c)" for m peer
    by (rule same_traffic_trans [OF gone_traffic(1) drainer_end_traffic])
  then show "same_traffic c (drain_exn e now c)" by (simp add: drain_exn_def Let_def)
qed (simp_all add: drain_exn_def Let_def drainer_end_threads)

lemma note_cause_facts:
  "same_traffic c (note_cause m c)" "same_ending c (note_cause m c)" "sender (note_cause m c) = sender c"
  "drainer (note_cause m c) = drainer c" "ps_error (stats (note_cause m c)) \<noteq> None"
  by (simp_all add: note_cause_def same_traffic_def same_ending_def)

lemma sender_sent_fails:
  "same_traffic c (sender_sent (Some e) now c)" "sender (sender_sent (Some e) now c) = SGone"
  "drainer (sender_sent (Some e) now c) = drainer c"
proof -
  have "same_traffic c (f (c\<lparr>sender := SGone\<rparr>))" if "\<And>c. same_traffic c (f c)" for f
    by (rule same_traffic_trans [OF gone_traffic(2) that])
  then show "same_traffic c (sender_sent (Some e) now c)"
    by (simp add: sender_sent_def Let_def note_cause_facts(1) note_peer_close_facts(1) end_connection_facts(1))
qed (simp_all add: sender_sent_def Let_def note_cause_facts note_peer_close_facts end_connection_facts)

section \<open>Invariants\<close>

definition stats_ok :: "pclient \<Rightarrow> bool" where
  "stats_ok c \<longleftrightarrow> (let st = stats c in
     length (send_times st) = min (sends st) SEND_LOG_MAX \<and> (send_log_truncated st \<longleftrightarrow> SEND_LOG_MAX < sends st) \<and>
     length (response_times st) = min (responses st) SEND_LOG_MAX \<and>
     sorted (send_times st) \<and> sorted (response_times st) \<and>
     (\<forall>t \<in> set (send_times st) \<union> set (response_times st) \<union> set_option (last_response_at st). t \<le> clock c) \<and>
     (first_response st \<longleftrightarrow> 0 < responses st) \<and> (last_response_at st = None \<longleftrightarrow> responses st = 0))"

definition threads_ok :: "pclient \<Rightarrow> bool" where
  "threads_ok c \<longleftrightarrow> 1 \<le> tid c \<and> tid c \<le> 65535 \<and> length (d_buf c) < d_need c \<and> (d_part c = Header \<longrightarrow> d_need c = 8) \<and>
     int (sends (stats c)) - int (responses (stats c)) \<le> int MAX_OUTSTANDING \<and>
     ((\<exists>req. sender c = SSend req) \<longrightarrow> int (sends (stats c)) - int (responses (stats c)) < int MAX_OUTSTANDING) \<and>
     next_send c \<le> clock c + SEND_INTERVAL_S"

definition ending_ok :: "pclient \<Rightarrow> bool" where
  "ending_ok c \<longleftrightarrow> (let st = stats c in
     (closed_by_peer st \<longrightarrow> dead c) \<and> (connection_ended_at st \<noteq> None \<longleftrightarrow> dead c) \<and> (dead c \<longrightarrow> ps_error st \<noteq> None) \<and>
     (drainer_ended_at st \<noteq> None \<longrightarrow> dead c \<and> drainer c = DGone) \<and>
     (drainer_closed_by_peer st \<longrightarrow> closed_by_peer st \<and> drainer_ended_at st \<noteq> None) \<and>
     (\<forall>d l. drainer_ended_at st = Some d \<and> last_response_at st = Some l \<longrightarrow> l \<le> d) \<and>
     (\<forall>d \<in> set_option (drainer_ended_at st) \<union> set_option (connection_ended_at st). d \<le> clock c))"

lemma stats_ok_stamps:
  "stats_ok c \<Longrightarrow>
   \<forall>t \<in> set (send_times (stats c)) \<union> set (response_times (stats c)) \<union> set_option (last_response_at (stats c)). t \<le> clock c"
  by (simp add: stats_ok_def Let_def)

lemma stats_ok_later:
  assumes "stats_ok c" "same_traffic c c'" "clock c \<le> now"
  shows "stats_ok (c'\<lparr>clock := now\<rparr>)"
proof -
  have "\<forall>t \<in> set (send_times (stats c)) \<union> set (response_times (stats c)) \<union> set_option (last_response_at (stats c)). t \<le> now"
    using stats_ok_stamps [OF assms(1)] assms(3) by (meson order_trans)
  then show ?thesis using assms(1,2) by (simp add: stats_ok_def same_traffic_def Let_def)
qed

lemma threads_ok_later:
  assumes "threads_ok c" "same_traffic c c'" "sender c' = sender c \<or> sender c' = SGone" "clock c \<le> now"
  shows "threads_ok (c'\<lparr>clock := now\<rparr>)"
  using assms unfolding threads_ok_def same_traffic_def by auto

lemma sorted_snoc: "sorted xs \<Longrightarrow> (\<forall>x \<in> set xs. x \<le> (y :: rat)) \<Longrightarrow> sorted (xs @ [y])"
  by (simp add: sorted_append)

lemma frame_done_stats:
  assumes "stats_ok c" "clock c \<le> now"
  shows "stats_ok ((frame_done now c)\<lparr>clock := now\<rparr>)"
  using assms unfolding stats_ok_def frame_done_def Let_def
  by (auto simp: sorted_append min_def not_less intro: order_trans)

lemma sent_stats:
  assumes "stats_ok c" "clock c \<le> now"
  shows "stats_ok ((sender_sent None now c)\<lparr>clock := now\<rparr>)"
  using assms unfolding stats_ok_def sender_sent_def Let_def
  by (auto simp: sorted_append min_def not_less intro: order_trans)


lemma ending_okI:
  assumes "closed_by_peer (stats c) \<longrightarrow> dead c" "connection_ended_at (stats c) \<noteq> None \<longleftrightarrow> dead c"
    "dead c \<longrightarrow> ps_error (stats c) \<noteq> None"
    "drainer_ended_at (stats c) \<noteq> None \<longrightarrow> dead c \<and> drainer c = DGone"
    "drainer_closed_by_peer (stats c) \<longrightarrow> closed_by_peer (stats c) \<and> drainer_ended_at (stats c) \<noteq> None"
    "\<And>d l. drainer_ended_at (stats c) = Some d \<Longrightarrow> last_response_at (stats c) = Some l \<Longrightarrow> l \<le> d"
    "\<And>d. drainer_ended_at (stats c) = Some d \<Longrightarrow> d \<le> now" "\<And>d. connection_ended_at (stats c) = Some d \<Longrightarrow> d \<le> now"
  shows "ending_ok (c\<lparr>clock := now\<rparr>)"
  unfolding ending_ok_def Let_def using assms by auto

lemma ending_okD:
  assumes "ending_ok c"
  shows "closed_by_peer (stats c) \<longrightarrow> dead c" "connection_ended_at (stats c) \<noteq> None \<longleftrightarrow> dead c"
    "dead c \<longrightarrow> ps_error (stats c) \<noteq> None"
    "drainer_ended_at (stats c) \<noteq> None \<longrightarrow> dead c \<and> drainer c = DGone"
    "drainer_closed_by_peer (stats c) \<longrightarrow> closed_by_peer (stats c) \<and> drainer_ended_at (stats c) \<noteq> None"
    "drainer_ended_at (stats c) = Some d \<Longrightarrow> last_response_at (stats c) = Some l \<Longrightarrow> l \<le> d"
    "drainer_ended_at (stats c) = Some d \<Longrightarrow> d \<le> clock c" "connection_ended_at (stats c) = Some d \<Longrightarrow> d \<le> clock c"
  using assms unfolding ending_ok_def Let_def by auto

lemma ending_later:
  assumes e: "ending_ok c" and s: "same_ending c c'" and "ps_error (stats c) \<noteq> None \<longrightarrow> ps_error (stats c') \<noteq> None"
    and d: "drainer_ended_at (stats c) = None \<or> (drainer c' = drainer c \<and> last_response_at (stats c') = last_response_at (stats c))"
    and "clock c \<le> now"
  shows "ending_ok (c'\<lparr>clock := now\<rparr>)"
proof (rule ending_okI)
  fix x
  show "drainer_ended_at (stats c') = Some x \<Longrightarrow> x \<le> now" "connection_ended_at (stats c') = Some x \<Longrightarrow> x \<le> now"
    using ending_okD(7,8) [OF e] s assms(5) unfolding same_ending_def by (metis order_trans)+
next
  fix x l
  show "drainer_ended_at (stats c') = Some x \<Longrightarrow> last_response_at (stats c') = Some l \<Longrightarrow> l \<le> x"
    using ending_okD(6) [OF e] s d by (auto simp: same_ending_def)
qed (use ending_okD(1-5) [OF e] s assms(3) d in \<open>auto simp: same_ending_def\<close>)

lemma end_connection_ending:
  assumes e: "ending_ok c" and now: "clock c \<le> now"
    and x: "x = end_connection now m c \<or> x = note_peer_close now m c"
  shows "ending_ok (x\<lparr>clock := now\<rparr>)"
proof -
  have f: "same_traffic c x" "drainer x = drainer c" "dead x" "ps_error (stats x) \<noteq> None"
    "connection_ended_at (stats x) = (case connection_ended_at (stats c) of None \<Rightarrow> Some now | Some t \<Rightarrow> Some t)"
    "closed_by_peer (stats c) \<longrightarrow> closed_by_peer (stats x)" "drainer_ended_at (stats x) = drainer_ended_at (stats c)"
    "drainer_closed_by_peer (stats x) = drainer_closed_by_peer (stats c)"
    using x by (elim disjE; simp add: end_connection_facts note_peer_close_facts del: not_None_eq)+
  show ?thesis
  proof (rule ending_okI)
    fix t
    show "drainer_ended_at (stats x) = Some t \<Longrightarrow> t \<le> now" "connection_ended_at (stats x) = Some t \<Longrightarrow> t \<le> now"
      using ending_okD(7,8) [OF e] f(5,7) now by (auto split: option.splits intro: order_trans)
  next
    fix t l
    show "drainer_ended_at (stats x) = Some t \<Longrightarrow> last_response_at (stats x) = Some l \<Longrightarrow> l \<le> t"
      using ending_okD(6) [OF e] f(1,7) by (auto simp: same_traffic_def)
  qed (use ending_okD(1-5) [OF e] f in \<open>auto split: option.splits\<close>)
qed

lemma drain_exn_ending:
  assumes e: "ending_ok c" and s: "stats_ok c" and d: "drainer c = DRecv" and now: "clock c \<le> now"
  shows "ending_ok ((drain_exn ex now c)\<lparr>clock := now\<rparr>)"
proof -
  have none: "drainer_ended_at (stats c) = None" using ending_okD(4) [OF e] d by auto
  then have not_peer: "\<not> drainer_closed_by_peer (stats c)" using ending_okD(5) [OF e] by auto
  let ?c = "c\<lparr>drainer := DGone\<rparr>"
  have quiet: "ending_ok (?c\<lparr>clock := now\<rparr>)"
    by (rule ending_later [OF e _ _ _ now]) (simp_all add: same_ending_def none)
  have "ending_ok ((drainer_end now m peer ?c)\<lparr>clock := now\<rparr>)" for m peer
  proof -
    let ?x = "drainer_end now m peer ?c" and ?m = "drainer_mark now peer ?c"
    have mk: "drainer_ended_at (stats ?m) = Some now" "drainer_closed_by_peer (stats ?m) = peer"
      using drainer_mark_facts(7,8) [of ?c] none by simp_all
    have f: "drainer ?x = DGone" "dead ?x" "ps_error (stats ?x) \<noteq> None"
      "connection_ended_at (stats ?x) = (case connection_ended_at (stats c) of None \<Rightarrow> Some now | Some t \<Rightarrow> Some t)"
      "peer \<longrightarrow> closed_by_peer (stats ?x)" "drainer_ended_at (stats ?x) = Some now"
      "drainer_closed_by_peer (stats ?x) = peer"
      using mk by (cases peer;
          simp add: drainer_end_eq end_connection_facts note_peer_close_facts drainer_mark_facts del: not_None_eq)+
    have l: "last_response_at (stats ?x) = last_response_at (stats c)"
      using drainer_end_traffic [of ?c now m peer] by (simp add: same_traffic_def)
    show ?thesis
    proof (rule ending_okI)
      fix t
      show "drainer_ended_at (stats ?x) = Some t \<Longrightarrow> t \<le> now" "connection_ended_at (stats ?x) = Some t \<Longrightarrow> t \<le> now"
        using ending_okD(8) [OF e] f(4,6) now by (auto split: option.splits intro: order_trans)
    next
      fix t l
      show "drainer_ended_at (stats ?x) = Some t \<Longrightarrow> last_response_at (stats ?x) = Some l \<Longrightarrow> l \<le> t"
        using stats_ok_stamps [OF s] l f(6) now by (auto intro: order_trans)
    qed (use f in \<open>auto split: option.splits\<close>)
  qed
  with quiet show ?thesis by (simp add: drain_exn_def Let_def)
qed


definition pinv :: "pclient \<Rightarrow> bool" where
  "pinv c \<longleftrightarrow> stats_ok c \<and> threads_ok c \<and> ending_ok c"

lemma request_built: "1 \<le> i \<Longrightarrow> i \<le> 65535 \<Longrightarrow> \<exists>req. make_mbap_request i 1 3 0 1 = Inr req"
  by (simp add: make_mbap_request_eq in_H_def is_byte_def)

lemma schedule_bounds:
  assumes "nxt \<le> now"
  shows "now \<le> schedule now nxt \<or> schedule now nxt = nxt + SEND_INTERVAL_S" "schedule now nxt \<le> now + SEND_INTERVAL_S"
    "now \<le> schedule now nxt"
  using assms by (auto simp: schedule_def Let_def SEND_INTERVAL_S_def)

lemma sender_loop_cases:
  assumes "threads_ok c"
  obtains (quit) "sender_loop t now c = c\<lparr>sender := SGone\<rparr>"
    | (sleep) "sender_loop t now c = c" "t < next_send c"
    | (skip) "next_send c \<le> t"
        "sender_loop t now c = c\<lparr>next_send := schedule now (next_send c), stats := (stats c)\<lparr>throttled_ticks := throttled_ticks (stats c) + 1\<rparr>\<rparr>"
    | (send) req where "next_send c \<le> t" "int (sends (stats c)) - int (responses (stats c)) < int MAX_OUTSTANDING"
        "sender_loop t now c = c\<lparr>next_send := schedule now (next_send c), sender := SSend req\<rparr>"
        "make_mbap_request (tid c) 1 3 0 1 = Inr req"
proof -
  obtain req where r: "make_mbap_request (tid c) 1 3 0 1 = Inr req"
    using request_built assms by (auto simp: threads_ok_def)
  consider "stop_event c \<or> dead c" | "\<not> (stop_event c \<or> dead c)" "t < next_send c"
    | "\<not> (stop_event c \<or> dead c)" "next_send c \<le> t" "int (sends (stats c)) - int (responses (stats c)) \<ge> int MAX_OUTSTANDING"
    | "\<not> (stop_event c \<or> dead c)" "next_send c \<le> t" "int (sends (stats c)) - int (responses (stats c)) < int MAX_OUTSTANDING"
    by linarith
  then show ?thesis
  proof cases
    case 1
    show ?thesis by (rule quit) (use 1 in \<open>simp add: sender_loop_def\<close>)
  next
    case 2
    show ?thesis by (rule sleep) (use 2 in \<open>simp_all add: sender_loop_def\<close>)
  next
    case 3
    show ?thesis by (rule skip) (use 3 in \<open>simp_all add: sender_loop_def Let_def\<close>)
  next
    case 4
    show ?thesis by (rule send [OF 4(2,3) _ r]) (use 4 r in \<open>simp add: sender_loop_def Let_def\<close>)
  qed
qed

lemma sender_loop_pinv:
  assumes "pinv c" "sender c = SLoop" "clock c \<le> t" "t \<le> now"
  shows "pinv ((sender_loop t now c)\<lparr>clock := now\<rparr>)"
proof -
  let ?c = "sender_loop t now c"
  have i: "stats_ok c" "threads_ok c" "ending_ok c" and now: "clock c \<le> now" using assms by (auto simp: pinv_def)
  let ?d = "?c\<lparr>next_send := next_send c\<rparr>"
  from i(2) have "same_traffic c ?d \<and> same_ending c ?c \<and> drainer ?c = drainer c \<and> ps_error (stats ?c) = ps_error (stats c)"
    by (cases rule: sender_loop_cases [of c t now]) (simp_all add: same_traffic_def same_ending_def)
  then have f: "same_traffic c ?d" "same_ending c ?c" "drainer ?c = drainer c" "ps_error (stats ?c) = ps_error (stats c)"
    by simp_all
  have "stats_ok (?d\<lparr>clock := now\<rparr>)" by (rule stats_ok_later [OF i(1) f(1) now])
  then have "stats_ok (?c\<lparr>clock := now\<rparr>)" by (simp add: stats_ok_def)
  moreover have "ending_ok (?c\<lparr>clock := now\<rparr>)"
    by (rule ending_later [OF i(3) f(2) _ _ now]) (use f in \<open>auto simp: same_traffic_def\<close>)
  moreover have "threads_ok (?c\<lparr>clock := now\<rparr>)"
    using i(2)
  proof (cases rule: sender_loop_cases [of c t now])
    case (send req)
    then show ?thesis
      using i(2) assms(4) schedule_bounds(2) [of "next_send c" now] by (simp add: threads_ok_def)
  next
    case skip
    then show ?thesis
      using i(2) assms(2,4) schedule_bounds(2) [of "next_send c" now] by (simp add: threads_ok_def)
  qed (use i(2) now in \<open>auto simp: threads_ok_def\<close>)
  ultimately show ?thesis by (simp add: pinv_def)
qed

lemma tid_next: "1 \<le> (t mod 65535) + 1 \<and> (t mod 65535) + 1 \<le> (65535 :: int)"
  by (simp add: pos_mod_bound le_less_trans)

lemma sender_sent_pinv:
  assumes "pinv c" "sender c = SSend req" "clock c \<le> now"
  shows "pinv ((sender_sent out now c)\<lparr>clock := now\<rparr>)"
proof (cases out)
  case None
  have i: "stats_ok c" "threads_ok c" "ending_ok c" using assms by (auto simp: pinv_def)
  let ?c = "sender_sent None now c"
  have "ending_ok (?c\<lparr>clock := now\<rparr>)"
    by (rule ending_later [OF i(3) _ _ _ assms(3)]) (simp_all add: sender_sent_def Let_def same_ending_def)
  moreover have "threads_ok (?c\<lparr>clock := now\<rparr>)"
    using i(2) assms(2,3) tid_next [of "tid c"] by (auto simp: threads_ok_def sender_sent_def Let_def)
  ultimately show ?thesis using sent_stats [OF i(1) assms(3)] None by (simp add: pinv_def)
next
  case (Some e)
  have i: "stats_ok c" "threads_ok c" "ending_ok c" using assms by (auto simp: pinv_def)
  let ?c = "sender_sent (Some e) now c" and ?g = "c\<lparr>sender := SGone\<rparr>"
  have s: "stats_ok (?c\<lparr>clock := now\<rparr>)" by (rule stats_ok_later [OF i(1) sender_sent_fails(1) assms(3)])
  have t: "threads_ok (?c\<lparr>clock := now\<rparr>)"
    by (rule threads_ok_later [OF i(2) sender_sent_fails(1) _ assms(3)]) (simp add: sender_sent_fails)
  have g: "ending_ok ?g" using i(3) by (simp add: ending_ok_def)
  have quiet: "ending_ok (?g\<lparr>clock := now\<rparr>)"
    by (rule ending_later [OF i(3) _ _ _ assms(3)]) (simp_all add: same_ending_def)
  have "ending_ok ((note_cause m ?g)\<lparr>clock := now\<rparr>)" for m
    by (rule ending_later [OF g note_cause_facts(2)])
      (use note_cause_facts [where c = ?g and m = m] assms(3) in \<open>auto simp: same_traffic_def\<close>)
  moreover have "ending_ok ((end_connection now m ?g)\<lparr>clock := now\<rparr>)" "ending_ok ((note_peer_close now m ?g)\<lparr>clock := now\<rparr>)" for m
    using end_connection_ending [OF g, of now "end_connection now m ?g" m]
      end_connection_ending [OF g, of now "note_peer_close now m ?g" m] assms(3) by simp_all
  ultimately have "ending_ok (?c\<lparr>clock := now\<rparr>)" using quiet by (simp add: sender_sent_def Let_def)
  with s t Some show ?thesis by (simp add: pinv_def)
qed

lemma frame_done_pinv:
  assumes "pinv c" "drainer c = DRecv" "clock c \<le> now"
  shows "pinv ((frame_done now c)\<lparr>clock := now\<rparr>)"
proof -
  have i: "stats_ok c" "threads_ok c" "ending_ok c" using assms by (auto simp: pinv_def)
  have none: "drainer_ended_at (stats c) = None" using ending_okD(4) [OF i(3)] assms(2) by auto
  have "ending_ok ((frame_done now c)\<lparr>clock := now\<rparr>)"
    by (rule ending_later [OF i(3) _ _ _ assms(3)]) (simp_all add: frame_done_def Let_def same_ending_def none)
  moreover have "threads_ok ((frame_done now c)\<lparr>clock := now\<rparr>)"
    using i(2) assms(3) by (auto simp: threads_ok_def frame_done_def Let_def)
  ultimately show ?thesis using frame_done_stats [OF i(1) assms(3)] by (simp add: pinv_def)
qed

lemma drain_exn_pinv:
  assumes "pinv c" "drainer c = DRecv" "clock c \<le> now"
  shows "pinv ((drain_exn e now c)\<lparr>clock := now\<rparr>)"
  using assms stats_ok_later [OF _ drain_exn_facts(1)] threads_ok_later [OF _ drain_exn_facts(1)] drain_exn_ending
  by (simp add: pinv_def drain_exn_facts)

lemma drain_on_pinv:
  assumes "pinv c" "drainer c \<noteq> DGone" "clock c \<le> now" "length b < n" "p = Header \<longrightarrow> n = 8"
  shows "pinv (c\<lparr>drainer := d, d_part := p, d_need := n, d_buf := b, clock := now\<rparr>)"
proof -
  have i: "stats_ok c" "threads_ok c" "ending_ok c" using assms by (auto simp: pinv_def)
  let ?c = "c\<lparr>drainer := d, d_part := p, d_need := n, d_buf := b\<rparr>"
  have none: "drainer_ended_at (stats c) = None" using ending_okD(4) [OF i(3)] assms(2) by auto
  have "ending_ok (?c\<lparr>clock := now\<rparr>)"
    by (rule ending_later [OF i(3) _ _ _ assms(3)]) (simp_all add: same_ending_def none)
  moreover have "stats_ok (?c\<lparr>clock := now\<rparr>)"
    using stats_ok_later [OF i(1), of c now] assms(3) by (simp add: stats_ok_def same_traffic_def)
  moreover have "threads_ok (?c\<lparr>clock := now\<rparr>)" using i(2) assms(3-5) by (auto simp: threads_ok_def)
  ultimately show ?thesis by (simp add: pinv_def)
qed


lemma drainer_recv_pinv:
  assumes "pinv c" "drainer c = DRecv" "clock c \<le> now"
  shows "pinv ((drainer_recv out now c)\<lparr>clock := now\<rparr>)"
proof -
  have t: "length (d_buf c) < d_need c" "d_part c = Header \<longrightarrow> d_need c = 8"
    using assms(1) by (simp_all add: pinv_def threads_ok_def)
  have on: "pinv (c\<lparr>drainer := d, clock := now\<rparr>)" for d
    using drain_on_pinv [OF assms(1) _ assms(3) t, of d] assms(2) by simp
  have exn: "pinv ((drain_exn e now c)\<lparr>clock := now\<rparr>)" for e by (rule drain_exn_pinv [OF assms])
  show ?thesis
  proof (cases out)
    case (Chunk chunk)
    let ?k = "take (d_need c - length (d_buf c)) chunk" and ?b = "d_buf c @ take (d_need c - length (d_buf c)) chunk"
    have more: "pinv (c\<lparr>drainer := DLoop, d_buf := ?b, clock := now\<rparr>)" if "length ?b < d_need c"
      using drain_on_pinv [OF assms(1) _ assms(3) that t(2), of DLoop] assms(2) by simp
    have header: "pinv ((header_done h now c)\<lparr>clock := now\<rparr>)" for h
    proof -
      have "pinv (c\<lparr>drainer := DLoop, d_part := Payload, d_need := n, d_buf := [], clock := now\<rparr>)" if "0 < n" for n
        using drain_on_pinv [OF assms(1) _ assms(3), of "[]" n Payload DLoop] assms(2) that by simp
      then show ?thesis using exn frame_done_pinv [OF assms] by (simp add: header_done_def Let_def)
    qed
    show ?thesis
      unfolding drainer_recv_def Chunk Let_def recv256.case
      using exn more header frame_done_pinv [OF assms] by (simp split: if_split)
  qed (use on exn in \<open>simp_all add: drainer_recv_def\<close>)
qed

lemma drainer_loop_pinv: "pinv c \<Longrightarrow> drainer c = DLoop \<Longrightarrow> pinv (drainer_loop c)"
proof -
  assume p: "pinv c" and d: "drainer c = DLoop"
  have "pinv (c\<lparr>drainer := x, clock := clock c\<rparr>)" for x
    using drain_on_pinv [OF p, of "clock c" "d_buf c" "d_need c" "d_part c" x] p d by (simp add: pinv_def threads_ok_def)
  then show "pinv (drainer_loop c)" by (simp add: drainer_loop_def)
qed

lemma start_pinv: "poll_start None t (new_client t0) = (r, c) \<Longrightarrow> pinv c"
  by (auto simp: poll_start_def new_client_def new_stats_def pinv_def stats_ok_def threads_ok_def ending_ok_def
      SEND_INTERVAL_S_def MAX_OUTSTANDING_def)

lemma pstep_pinv: "pstep c c' \<Longrightarrow> pinv c \<Longrightarrow> pinv c'"
proof (induction rule: pstep.induct)
  case (p_stop c)
  then show ?case by (simp add: set_stop_def pinv_def stats_ok_def threads_ok_def ending_ok_def)
qed (blast intro: sender_loop_pinv sender_sent_pinv drainer_loop_pinv drainer_recv_pinv)+

lemma reached_pinv: "reached c \<Longrightarrow> pinv c"
  by (induction rule: reached.induct) (blast intro: start_pinv pstep_pinv)+


subsection \<open>Stopping\<close>

lemma drain_exn_stopped: "stop_event c \<Longrightarrow> same_ending c (drain_exn e now c)"
  by (simp add: drain_exn_def Let_def same_ending_def)

lemma same_ending_refl [simp]: "same_ending c c"
  by (simp add: same_ending_def)

lemma pstep_stopped:
  assumes "pstep c c'" "stop_event c" "pinv c"
  shows "stop_event c' \<and> same_ending c c'"
  using assms
proof (induction rule: pstep.induct)
  case (p_sender_loop c t now)
  then show ?case by (simp add: sender_loop_def same_ending_def)
next
  case (p_sender_sent c req now out)
  then show ?case
    using note_cause_facts(1,2) [where c = "c\<lparr>sender := SGone\<rparr>"]
    by (cases out) (auto simp: sender_sent_def Let_def same_ending_def same_traffic_def)
next
  case (p_drainer_recv c now out)
  have e: "same_ending c (drain_exn e now c) \<and> stop_event (drain_exn e now c)" for e
    using drain_exn_stopped p_drainer_recv.prems(1) drain_exn_facts(1) [of c e now] by (simp add: same_traffic_def)
  have f: "same_ending c (frame_done now c) \<and> stop_event (frame_done now c)"
    using p_drainer_recv.prems(1) by (simp add: frame_done_def Let_def same_ending_def)
  have h: "same_ending c (header_done b now c) \<and> stop_event (header_done b now c)" for b
    using e f p_drainer_recv.prems(1) by (simp add: header_done_def Let_def) (simp add: same_ending_def)
  show ?case
    using e f h p_drainer_recv.prems(1)
    by (cases out) (auto simp: drainer_recv_def Let_def same_ending_def split: if_splits)
qed (simp_all add: drainer_loop_def set_stop_def same_ending_def)

subsection \<open>Gaps\<close>

abbreviation gap0 :: "time \<Rightarrow> gap_state" where
  "gap0 t0 \<equiv> \<lparr>prev_send = t0, drained_since = None, outstanding = 0, longest = 0, longest_drained = 0, n_sends = 0\<rparr>"

lemma gap_events_set: "set (gap_events sts rts t1) = {(ts, True) | ts. ts \<in> set sts \<and> ts \<le> t1} \<union> {(ts, False) | ts. ts \<in> set rts \<and> ts \<le> t1}"
  by (auto simp: gap_events_def)

lemma gap_events_sorted: "sorted (map fst (gap_events sts rts t1))"
proof -
  let ?k = "\<lambda>ev :: event. (fst ev, if snd ev then 0 :: nat else 1)"
  have "sorted (map ?k (gap_events sts rts t1))" by (simp add: gap_events_def)
  then have "sorted_wrt (\<lambda>a b. ?k a \<le> ?k b) (gap_events sts rts t1)" by (simp add: sorted_map)
  then have "sorted_wrt (\<lambda>a b. fst a \<le> fst b) (gap_events sts rts t1)"
    by (rule sorted_wrt_mono_rel [rotated]) (auto simp: less_eq_prod_def)
  then show ?thesis by (simp add: sorted_map)
qed

lemma gap_send:
  "gap_event t0 (ts, True) g =
     g\<lparr>prev_send := ts, outstanding := outstanding g + 1, drained_since := None,
       longest := (if ts > t0 then max (longest g) (ts - prev_send g) else longest g),
       longest_drained := (if ts > t0 then (case drained_since g of None \<Rightarrow> longest_drained g
          | Some d \<Rightarrow> max (longest_drained g) (ts - d)) else longest_drained g),
       n_sends := (if ts > t0 then n_sends g + 1 else n_sends g)\<rparr>"
  by (cases g) (auto simp: gap_event_def Let_def split: option.splits)

lemma gap_response:
  "gap_event t0 (ts, False) g =
     g\<lparr>outstanding := outstanding g - 1,
       drained_since := (if outstanding g - 1 = 0 \<and> drained_since g = None then Some ts else drained_since g)\<rparr>"
  by (cases g) (auto simp: gap_event_def Let_def)

lemma gap_n_sends:
  "n_sends (fold (gap_event t0) evs g) = n_sends g + length (filter (\<lambda>(ts, s). s \<and> t0 < ts) evs)"
proof (induction evs arbitrary: g)
  case (Cons ev evs)
  then show ?case by (cases ev; cases "snd ev") (auto simp: gap_send gap_response)
qed simp

text \<open>Once a send has been seen, the pipeline never counts as drained from before the last send.\<close>

lemma gap_drained_le:
  assumes "sorted (map fst evs)" "\<forall>ev \<in> set evs. prev_send g \<le> fst ev"
    and "\<forall>d. drained_since g = Some d \<longrightarrow> prev_send g \<le> d" "longest_drained g \<le> longest g"
  shows "let g' = fold (gap_event t0) evs g in
     (\<forall>d. drained_since g' = Some d \<longrightarrow> prev_send g' \<le> d) \<and> longest_drained g' \<le> longest g'"
  using assms
proof (induction evs arbitrary: g)
  case (Cons ev evs)
  obtain ts s where ev: "ev = (ts, s)" by (cases ev)
  have l: "prev_send g \<le> ts" using Cons.prems(2) ev by simp
  have m: "max (longest_drained g) (ts - d) \<le> max (longest g) (ts - prev_send g)" if "drained_since g = Some d" for d
    using Cons.prems(3,4) that by (intro max.mono) auto
  show ?case
  proof (cases s)
    case True
    have "longest_drained (gap_event t0 (ts, True) g) \<le> longest (gap_event t0 (ts, True) g)"
      using m Cons.prems(4) by (auto simp: gap_send max.coboundedI1 split: option.split)
    then show ?thesis
      using Cons.IH [of "gap_event t0 (ts, True) g"] Cons.prems(1) ev True by (simp add: gap_send)
  next
    case False
    then show ?thesis
      using Cons.IH [of "gap_event t0 (ts, False) g"] Cons.prems ev l by (simp add: gap_response)
  qed
qed simp

lemma gap_responses_only:
  assumes "\<forall>ev \<in> set evs. \<not> snd ev"
  shows "prev_send (fold (gap_event t0) evs g) = prev_send g \<and> longest (fold (gap_event t0) evs g) = longest g \<and>
     longest_drained (fold (gap_event t0) evs g) = longest_drained g"
  using assms
proof (induction evs arbitrary: g)
  case (Cons ev evs)
  then show ?case by (cases ev) (auto simp: gap_response)
qed simp

text \<open>No silence inside the measured window is longer than the all-gaps figure.\<close>

definition covers :: "time \<Rightarrow> time set \<Rightarrow> gap_state \<Rightarrow> bool" where
  "covers t0 S g \<longleftrightarrow> (S = {} \<longrightarrow> prev_send g = t0) \<and> (S \<noteq> {} \<longrightarrow> prev_send g \<in> S \<and> (\<forall>s \<in> S. s \<le> prev_send g)) \<and>
     (\<forall>a b. t0 \<le> a \<and> a < b \<and> b \<le> prev_send g \<and> (\<forall>s \<in> S. \<not> (a < s \<and> s < b)) \<longrightarrow> b - a \<le> longest g)"

lemma covers_send:
  assumes "covers t0 S g" "\<forall>s \<in> S. s \<le> ts"
  shows "covers t0 (insert ts S) (gap_event t0 (ts, True) g)"
  unfolding covers_def
proof (intro conjI allI impI)
  fix a b
  assume h: "t0 \<le> a \<and> a < b \<and> b \<le> prev_send (gap_event t0 (ts, True) g) \<and> (\<forall>s \<in> insert ts S. \<not> (a < s \<and> s < b))"
  then have b: "b \<le> ts" "t0 < ts" by (auto simp: gap_send)
  have "b - a \<le> max (longest g) (ts - prev_send g)"
  proof (cases "b \<le> prev_send g")
    case True
    then have "b - a \<le> longest g" using assms(1) h by (auto simp: covers_def)
    then show ?thesis by simp
  next
    case False
    have "prev_send g \<le> a"
    proof (cases "S = {}")
      case True
      then show ?thesis using assms(1) h by (simp add: covers_def)
    next
      case nonempty: False
      then have "prev_send g \<in> S" using assms(1) by (simp add: covers_def)
      then show ?thesis using h False by force
    qed
    then show ?thesis using b by simp
  qed
  then show "b - a \<le> longest (gap_event t0 (ts, True) g)" using b by (simp add: gap_send)
qed (use assms(2) in \<open>auto simp: gap_send\<close>)

lemma covers_fold:
  assumes "covers t0 S g" "sorted (map fst evs)" "\<forall>ev \<in> set evs. \<forall>s \<in> S. s \<le> fst ev"
  shows "covers t0 (S \<union> fst ` {ev \<in> set evs. snd ev}) (fold (gap_event t0) evs g)"
  using assms
proof (induction evs arbitrary: S g)
  case (Cons ev evs)
  obtain ts s where ev: "ev = (ts, s)" by (cases ev)
  show ?case
  proof (cases s)
    case True
    have "covers t0 (insert ts S) (gap_event t0 (ts, True) g)"
      using Cons.prems ev by (intro covers_send) auto
    from Cons.IH [OF this] Cons.prems ev True have "covers t0 (insert ts S \<union> fst ` {ev \<in> set evs. snd ev}) (fold (gap_event t0) evs (gap_event t0 (ts, True) g))"
      by auto
    moreover have "{x \<in> set (ev # evs). snd x} = insert ev {x \<in> set evs. snd x}" using ev True by auto
    then have "insert ts S \<union> fst ` {x \<in> set evs. snd x} = S \<union> fst ` {x \<in> set (ev # evs). snd x}"
      using ev by simp
    ultimately show ?thesis using ev True by simp
  next
    case False
    have "covers t0 S (gap_event t0 (ts, False) g)" using Cons.prems(1) by (simp add: covers_def gap_response)
    from Cons.IH [OF this] Cons.prems ev have "covers t0 (S \<union> fst ` {ev \<in> set evs. snd ev}) (fold (gap_event t0) evs (gap_event t0 (ts, False) g))"
      by auto
    moreover have "{ev' \<in> set (ev # evs). snd ev'} = {ev' \<in> set evs. snd ev'}" using ev False by auto
    ultimately show ?thesis using ev False by simp
  qed
qed simp


lemma gap_split_first_send:
  assumes "sorted (map fst evs)" "(ts, True) \<in> set evs"
  obtains pre ts0 rest where "evs = pre @ (ts0, True) # rest" "\<forall>ev \<in> set pre. \<not> snd ev" "ts0 \<le> ts" "\<forall>ev \<in> set rest. ts0 \<le> fst ev"
proof -
  have "\<exists>ev \<in> set evs. snd ev" using assms(2) by force
  then obtain pre ev rest where s: "evs = pre @ ev # rest" "snd ev" "\<forall>x \<in> set pre. \<not> snd x"
    by (auto elim!: split_list_first_propE)
  obtain ts0 where ev: "ev = (ts0, True)" using s(2) by (cases ev) auto
  have rest: "\<forall>x \<in> set rest. ts0 \<le> fst x" using assms(1) s(1) ev by (auto simp: sorted_append)
  moreover have "ts0 \<le> ts" using assms(2) s ev rest by force
  ultimately show thesis using that s ev by blast
qed

section \<open>Running a schedule\<close>

datatype act = DoSenderLoop time time | DoSent "exn option" time | DoDrainerLoop | DoRecv recv256 time | DoStop

fun perform :: "act \<Rightarrow> pclient \<Rightarrow> pclient option" where
  "perform (DoSenderLoop t now) c =
     (if sender c = SLoop \<and> clock c \<le> t \<and> t \<le> now then Some ((sender_loop t now c)\<lparr>clock := now\<rparr>) else None)"
| "perform (DoSent out now) c =
     (case sender c of SSend req \<Rightarrow> if clock c \<le> now then Some ((sender_sent out now c)\<lparr>clock := now\<rparr>) else None | _ \<Rightarrow> None)"
| "perform DoDrainerLoop c = (if drainer c = DLoop then Some (drainer_loop c) else None)"
| "perform (DoRecv out now) c =
     (if drainer c = DRecv \<and> clock c \<le> now then Some ((drainer_recv out now c)\<lparr>clock := now\<rparr>) else None)"
| "perform DoStop c = Some (set_stop c)"

fun perform_all :: "act list \<Rightarrow> pclient \<Rightarrow> pclient option" where
  "perform_all [] c = Some c"
| "perform_all (a # as) c = (case perform a c of None \<Rightarrow> None | Some c' \<Rightarrow> perform_all as c')"

lemma perform_pstep: "perform a c = Some c' \<Longrightarrow> pstep c c'"
  by (cases a) (auto intro: pstep.intros split: if_splits sender_at.splits)

lemma perform_all_steps: "perform_all as c = Some c' \<Longrightarrow> pstep\<^sup>*\<^sup>* c c'"
  by (induction as arbitrary: c) (auto split: option.splits dest: perform_pstep intro: converse_rtranclp_into_rtranclp)

lemma reached_steps: "pstep\<^sup>*\<^sup>* c c' \<Longrightarrow> reached c \<Longrightarrow> reached c'"
  by (induction rule: rtranclp_induct) (auto intro: r_step)

definition demo_start :: pclient where "demo_start = snd (poll_start None 0 (new_client 0))"

lemma demo_reached: "reached demo_start"
  by (rule r_start [of 0 0 "fst (poll_start None 0 (new_client 0))"]) (simp add: demo_start_def)

text \<open>A request answered in two parts around a read timeout, then a reset the sender meets first, a late second
  response, and the close as the drainer sees it.\<close>

definition demo_acts :: "act list" where
  "demo_acts =
     [DoSenderLoop 0 0, DoSent None (1/100), DoDrainerLoop, DoRecv (Chunk [0, 1, 0, 0, 0, 5, 1]) (2/100), DoDrainerLoop,
      DoRecv SockTimeout 1, DoDrainerLoop, DoRecv (Chunk [3, 2, 0, 0]) 1, DoDrainerLoop, DoRecv (Chunk [2, 0, 0]) 1,
      DoSenderLoop 1 1, DoDrainerLoop, DoSent (Some ConnectionError) 2,
      DoRecv (Chunk [0, 2, 0, 0, 0, 2, 1, 3]) 3, DoDrainerLoop, DoRecv (Chunk []) (301/100)]"

lemmas demo_simps = demo_acts_def demo_start_def poll_start_def new_client_def new_stats_def sender_loop_def sender_sent_def
  schedule_def SEND_INTERVAL_S_def MAX_OUTSTANDING_def SEND_LOG_MAX_def make_mbap_request_eq in_H_def is_byte_def
  drainer_loop_def drainer_recv_def header_done_def frame_done_def drain_exn_def drainer_end_def note_peer_close_def
  end_connection_def note_cause_def unpack_H_def Let_def

lemma demo_run:
  "map_option (\<lambda>c. (sends (stats c), responses (stats c), connection_ended_at (stats c), last_response_at (stats c),
       drainer_ended_at (stats c), drainer_closed_by_peer (stats c)))
     (perform_all demo_acts demo_start) = Some (1, 2, Some 2, Some 3, Some (301/100), True)"
  by (simp add: demo_simps)

text \<open>The cross-thread difference that guard B must not use can be negative.\<close>

lemma cross_thread_gap_negative:
  "\<exists>c e l. reached c \<and> closed_by_peer (stats c) \<and> connection_ended_at (stats c) = Some e \<and> last_response_at (stats c) = Some l \<and> e - l < 0"
proof -
  obtain c where c: "perform_all demo_acts demo_start = Some c" "connection_ended_at (stats c) = Some 2"
    "last_response_at (stats c) = Some 3" "drainer_closed_by_peer (stats c)"
    using demo_run by auto
  then have r: "reached c" using reached_steps perform_all_steps demo_reached by blast
  then have "closed_by_peer (stats c)" using ending_okD(5) [of c] reached_pinv c(4) by (simp add: pinv_def)
  with r c(2,3) show ?thesis by fastforce
qed

section \<open>Properties\<close>



text \<open>Once the test has asked the client to stop, nothing that happens afterwards (its own shutdown of the socket
  included) changes what the client says about the ending of the connection.\<close>

theorem stop_forges_no_evidence:
  assumes "reached c" "stop_event c" "pstep\<^sup>*\<^sup>* c c'"
  shows "closed_by_peer (stats c') = closed_by_peer (stats c) \<and> connection_ended_at (stats c') = connection_ended_at (stats c) \<and>
     drainer_ended_at (stats c') = drainer_ended_at (stats c) \<and>
     drainer_closed_by_peer (stats c') = drainer_closed_by_peer (stats c)"
proof -
  have "reached c' \<and> stop_event c' \<and> same_ending c c'"
    using assms(3)
  proof (induction rule: rtranclp_induct)
    case base
    show ?case using assms by simp
  next
    case (step y z)
    then have r: "reached y" "stop_event y" "same_ending c y" by auto
    then have "same_ending y z" "stop_event z" using pstep_stopped [OF step.hyps(2)] reached_pinv by auto
    then show ?case using r step.hyps(2) r_step by (auto simp: same_ending_def)
  qed
  then show ?thesis by (simp add: same_ending_def)
qed

theorem stop_forges_no_evidence_witness:
  "\<exists>c c'. reached c \<and> stop_event c \<and> perform_all [DoDrainerLoop] demo_start \<noteq> None \<and>
     perform_all [DoRecv (Chunk []) 5] c = Some c' \<and> drainer_ended_at (stats c') = None \<and> \<not> closed_by_peer (stats c')"
proof -
  let ?c = "the (perform_all [DoDrainerLoop, DoStop] demo_start)" and ?c' = "the (perform_all [DoDrainerLoop, DoStop, DoRecv (Chunk []) 5] demo_start)"
  have s: "perform_all [DoDrainerLoop, DoStop] demo_start = Some ?c" "perform_all [DoRecv (Chunk []) 5] ?c = Some ?c'"
    by (simp_all add: demo_start_def poll_start_def new_client_def drainer_loop_def set_stop_def drainer_recv_def)
  have f: "stop_event ?c" "drainer_ended_at (stats ?c) = None" "\<not> closed_by_peer (stats ?c)"
    by (simp_all add: demo_start_def poll_start_def new_client_def new_stats_def drainer_loop_def set_stop_def)
  have r: "reached ?c" using reached_steps [OF perform_all_steps [OF s(1)] demo_reached] .
  have "drainer_ended_at (stats ?c') = None \<and> \<not> closed_by_peer (stats ?c')"
    using stop_forges_no_evidence [OF r f(1) perform_all_steps [OF s(2)]] f by simp
  then show ?thesis using r f(1) s by (intro exI [of _ ?c] exI [of _ ?c']) (simp add: demo_start_def poll_start_def)
qed

text \<open>The gap measurement. It counts the sends of the window; no silence inside the window is longer than the
  all-gaps figure; and when a send is logged at or before the window's start, the figure for the drained intervals
  does not exceed the all-gaps figure.\<close>

theorem longest_send_gap_sound:
  assumes "longest_send_gap sts rts t0 t1 = (n, gap, drained)" "t0 < t1"
  shows "n = length (filter (\<lambda>ts. t0 < ts \<and> ts \<le> t1) sts) \<and>
     (\<forall>a b. t0 \<le> a \<and> a < b \<and> b \<le> t1 \<and> (\<forall>s \<in> set sts. \<not> (a < s \<and> s < b)) \<longrightarrow> b - a \<le> gap) \<and>
     ((\<exists>s \<in> set sts. s \<le> t0) \<longrightarrow> drained \<le> gap)"
proof (intro conjI allI impI)
  let ?evs = "gap_events sts rts t1"
  let ?g = "fold (gap_event t0) ?evs (gap0 t0)"
  have r: "n = n_sends ?g" "gap = max (longest ?g) (t1 - prev_send ?g)"
    "drained = (case drained_since ?g of None \<Rightarrow> longest_drained ?g | Some d \<Rightarrow> max (longest_drained ?g) (t1 - d))"
    using assms(1) by (simp_all add: longest_send_gap_def Let_def)
  have "length (filter (\<lambda>(ts, s). s \<and> t0 < ts) ?evs) = length (filter (\<lambda>ts. t0 < ts \<and> ts \<le> t1) sts)"
    by (simp add: gap_events_def filter_sort filter_map comp_def conj_commute)
  then show "n = length (filter (\<lambda>ts. t0 < ts \<and> ts \<le> t1) sts)" using gap_n_sends [of t0 ?evs "gap0 t0"] r(1) by simp
  fix a b
  assume h: "t0 \<le> a \<and> a < b \<and> b \<le> t1 \<and> (\<forall>s \<in> set sts. \<not> (a < s \<and> s < b))"
  let ?S = "fst ` {ev \<in> set ?evs. snd ev}"
  have "covers t0 {} (gap0 t0)" by (simp add: covers_def)
  from covers_fold [OF this gap_events_sorted] have c: "covers t0 ?S ?g" by simp
  have S: "\<forall>s \<in> ?S. s \<in> set sts" by (auto simp: gap_events_set)
  show "b - a \<le> gap"
  proof (cases "b \<le> prev_send ?g")
    case True
    then have "b - a \<le> longest ?g" using c h S unfolding covers_def by blast
    then show ?thesis using r(2) by simp
  next
    case False
    have "prev_send ?g \<le> a"
    proof (cases "?S = {}")
      case True
      then show ?thesis using c h by (simp add: covers_def)
    next
      case nonempty: False
      then have "prev_send ?g \<in> set sts" using c S unfolding covers_def by blast
      then show ?thesis using h False by force
    qed
    then have "b - a \<le> t1 - prev_send ?g" using h by (auto intro: diff_mono)
    then show ?thesis using r(2) by (simp add: le_max_iff_disj)
  qed
next
  let ?evs = "gap_events sts rts t1"
  let ?g = "fold (gap_event t0) ?evs (gap0 t0)"
  have r: "gap = max (longest ?g) (t1 - prev_send ?g)"
    "drained = (case drained_since ?g of None \<Rightarrow> longest_drained ?g | Some d \<Rightarrow> max (longest_drained ?g) (t1 - d))"
    using assms(1) by (simp_all add: longest_send_gap_def Let_def)
  assume "\<exists>s \<in> set sts. s \<le> t0"
  then obtain s where s: "s \<in> set sts" "s \<le> t0" by blast
  then have "(s, True) \<in> set ?evs" using assms(2) by (auto simp: gap_events_set)
  from gap_split_first_send [OF gap_events_sorted this] obtain pre ts0 rest
    where e: "?evs = pre @ (ts0, True) # rest" "\<forall>ev \<in> set pre. \<not> snd ev" "ts0 \<le> s" "\<forall>ev \<in> set rest. ts0 \<le> fst ev" .
  let ?h = "gap_event t0 (ts0, True) (fold (gap_event t0) pre (gap0 t0))"
  have sr: "sorted (map fst rest)" using gap_events_sorted [of sts rts t1] e(1) by (simp add: sorted_append)
  have h: "prev_send ?h = ts0" "drained_since ?h = None" "longest_drained ?h \<le> longest ?h"
    using gap_responses_only [OF e(2), of t0 "gap0 t0"] e(3) s(2) by (simp_all add: gap_send)
  have g: "?g = fold (gap_event t0) rest ?h" using e(1) by simp
  have "(\<forall>d. drained_since ?g = Some d \<longrightarrow> prev_send ?g \<le> d) \<and> longest_drained ?g \<le> longest ?g"
    using gap_drained_le [OF sr, of ?h t0] h e(4) g by (simp add: Let_def)
  then show "drained \<le> gap" unfolding r by (auto split: option.split intro: max.mono max.coboundedI1)
qed


theorem longest_send_gap_sound_witness:
  "\<exists>n gap drained. longest_send_gap [1, 2, 5] [3/2, 3] 1 6 = (n, gap, drained) \<and> n = 2 \<and> drained \<le> gap \<and> 3 \<le> gap"
proof -
  obtain n gap drained where l: "longest_send_gap [1, 2, 5] [3/2, 3] 1 6 = (n, gap, drained)" by (metis prod_cases3)
  have t: "(1 :: time) < 6" by simp
  note s = longest_send_gap_sound [OF l t]
  have "5 - 2 \<le> gap" by (rule s [THEN conjunct2, THEN conjunct1, rule_format]) simp
  then have "n = 2 \<and> drained \<le> gap \<and> 3 \<le> gap" using s by simp
  with l show ?thesis by blast
qed

text \<open>The feed-rate guards pass a run of the client only if the drainer itself saw the firmware close the
  connection, after at least one response, less than half the guest's receive timeout after the last one; and, when
  the send log is complete, only if the client never left a drained guest without a request for that timeout.\<close>

theorem feed_guards_pass:
  assumes "reached c" "feed_guards (stats c) t0 t1 = Pass"
  shows "drainer_closed_by_peer (stats c) \<and> closed_by_peer (stats c) \<and> 0 < responses (stats c) \<and>
     (\<exists>d l. drainer_ended_at (stats c) = Some d \<and> last_response_at (stats c) = Some l \<and> l \<le> d \<and> d - l < 1/20) \<and>
     t0 < feed_end (stats c) t1 \<and>
     (sends (stats c) \<le> 60000 \<longrightarrow> snd (snd (longest_send_gap (send_times (stats c)) (response_times (stats c)) t0 (feed_end (stats c) t1))) < 1/10)"
proof -
  have i: "stats_ok c" "ending_ok c" using reached_pinv [OF assms(1)] by (auto simp: pinv_def)
  obtain d l where dl: "drainer_ended_at (stats c) = Some d" "last_response_at (stats c) = Some l" "d - l < 1/20"
    "drainer_closed_by_peer (stats c)" "t0 < feed_end (stats c) t1"
    "send_log_truncated (stats c) \<or> snd (snd (longest_send_gap (send_times (stats c)) (response_times (stats c)) t0 (feed_end (stats c) t1))) < 1/10"
    using assms(2)
    by (auto simp: feed_guards_def Let_def close_gap_def CLOSE_GAP_MAX_S_def GUEST_RECV_TIMEOUT_S_def
        split: if_splits option.splits prod.splits)
  have "0 < responses (stats c)" "send_log_truncated (stats c) \<longleftrightarrow> 60000 < sends (stats c)"
    using i(1) dl(2) by (auto simp: stats_ok_def Let_def SEND_LOG_MAX_def)
  then show ?thesis using dl ending_okD(5,6) [OF i(2)] by auto
qed

theorem feed_guards_pass_witness:
  "\<exists>c. reached c \<and> feed_guards (stats c) (3/200) (1/25) = Pass \<and> 0 < responses (stats c)"
proof -
  let ?acts = "[DoSenderLoop 0 0, DoSent None (1/100), DoDrainerLoop, DoRecv (Chunk [0, 1, 0, 0, 0, 2, 1, 3]) (1/50),
    DoDrainerLoop, DoRecv (Chunk []) (3/100)]"
  have "map_option (\<lambda>c. feed_guards (stats c) (3/200) (1/25)) (perform_all ?acts demo_start) = Some Pass"
    by (simp add: demo_simps feed_guards_def feed_end_def close_gap_def CLOSE_GAP_MAX_S_def GUEST_RECV_TIMEOUT_S_def
        longest_send_gap_def gap_events_def gap_event_def)
  then obtain c where c: "perform_all ?acts demo_start = Some c" "feed_guards (stats c) (3/200) (1/25) = Pass" by auto
  have r: "reached c" using reached_steps [OF perform_all_steps [OF c(1)] demo_reached] .
  from feed_guards_pass [OF r c(2)] r c show ?thesis by blast
qed

end
