(* ===== verification/Self_Unit.thy ===== *)
theory Self_Unit
  imports Modbus_Tcp Py_Text
begin

text \<open>
  The decoders of \<open>api_tests/43_test_device_self_unit_e2e.py\<close> for the device's own registers: the
  read at unit 0xFF on a fresh socket, the two string layouts, the register payload and the
  numeric firmware version. Composed with the Modbus TCP exchange of \<open>modbus_helpers.py\<close>.
\<close>

section \<open>Reading\<close>

definition SELF_UNIT_ID :: int where "SELF_UNIT_ID = 0xFF"

text \<open>The arguments are what \<open>connect\<close> raises and the traffic of the fresh socket, whose scope ends with the call:
  \<open>finally\<close> closes it on every path.\<close>

definition read_self_regs ::
  "exn option \<Rightarrow> tsock \<Rightarrow> int \<Rightarrow> int \<Rightarrow> int \<Rightarrow> (int \<times> int \<times> int \<times> bytes) res \<times> tsock" where
  "read_self_regs conn sock fc start cnt =
     (case make_mbap_request 0x0042 SELF_UNIT_ID fc start cnt of
        Inl e \<Rightarrow> (Inl e, sock)
      | Inr req \<Rightarrow>
          (case conn of
             Some e \<Rightarrow> (Inl e, sock)
           | None \<Rightarrow> send_and_receive sock req))"

section \<open>Decoding\<close>

definition latin1 :: "int \<Rightarrow> char" where
  "latin1 v = char_of (nat v)"

definition rstrip_nul :: "string \<Rightarrow> string" where
  "rstrip_nul s = rev (dropWhile (\<lambda>c. c = CHR 0x00) (rev s))"

fun mem8_bytes :: "int list \<Rightarrow> string res" where
  "mem8_bytes [] = Inr []"
| "mem8_bytes (v # vs) =
     (if drop_bit 8 v \<noteq> 0 then Inl AssertionError
      else rbind (mem8_bytes vs) (\<lambda>raw. Inr (latin1 (v AND 0xFF) # raw)))"

definition decode_mem8 :: "int list \<Rightarrow> string res" where
  "decode_mem8 vs = rbind (mem8_bytes vs) (\<lambda>raw. Inr (rstrip_nul raw))"

definition decode_git_string :: "int list \<Rightarrow> string" where
  "decode_git_string vs = rstrip_nul (concat (map (\<lambda>v. [latin1 (v AND 0xFF), latin1 (drop_bit 8 v AND 0xFF)]) vs))"

definition regs_from_payload :: "bytes \<Rightarrow> int list res" where
  "regs_from_payload payload =
     (if \<not> length payload \<ge> 1 then Inl AssertionError
      else
        (let byte_count = unat (payload ! 0) in
         if \<not> length payload \<ge> 1 + byte_count then Inl AssertionError
         else Inr (map (\<lambda>i. unpack_H (payload ! (1 + i * 2)) (payload ! (1 + i * 2 + 1))) [0..<byte_count div 2])))"

section \<open>Firmware version\<close>

definition lead_uint :: "string \<Rightarrow> int" where
  "lead_uint s =
     (let digits = takeWhile is_digit s in
      if digits \<noteq> [] then (case py_int digits of Some v \<Rightarrow> v | None \<Rightarrow> 0) else 0)"

text \<open>\<open>s.split(sep, 1)[1]\<close> for a separator that occurs.\<close>

fun after_first :: "string \<Rightarrow> string \<Rightarrow> string" where
  "after_first sep [] = []"
| "after_first sep (c # s) = (if py_startswith (c # s) sep then drop (length sep) (c # s) else after_first sep s)"

definition pack_version :: "int \<Rightarrow> int \<Rightarrow> int \<Rightarrow> int \<Rightarrow> int" where
  "pack_version major minor patch enc =
     (push_bit 24 (major AND 0xFF) OR push_bit 16 (minor AND 0xFF)) OR push_bit 8 (patch AND 0xFF) OR (enc AND 0xFF)"

definition expected_numeric_version :: "string \<Rightarrow> int \<times> int \<times> int \<times> int \<times> int" where
  "expected_numeric_version firmware =
     (let parts = py_split (CHR ''.'') firmware;
          major = (if length parts > 0 then lead_uint (parts ! 0) else 0);
          minor = (if length parts > 1 then lead_uint (parts ! 1) else 0);
          patch = (if length parts > 2 then lead_uint (parts ! 2) else 0);
          suffix = (if py_in ''+wb'' firmware then lead_uint (after_first ''+wb'' firmware)
                    else if py_in ''-rc'' firmware then - lead_uint (after_first ''-rc'' firmware)
                    else 0);
          enc = (if suffix \<ge> 0 then suffix + 128 else - 1 - suffix) in
      (major, minor, patch, suffix, pack_version major minor patch enc))"

section \<open>Lemmas\<close>

lemma rstrip_nul_append: "(s = [] \<or> last s \<noteq> CHR 0x00) \<Longrightarrow> rstrip_nul (s @ replicate n (CHR 0x00)) = s"
proof -
  assume s: "s = [] \<or> last s \<noteq> CHR 0x00"
  have "dropWhile (\<lambda>c. c = CHR 0x00) (replicate n (CHR 0x00) @ t) = dropWhile (\<lambda>c. c = CHR 0x00) t" for t
    by (induction n) simp_all
  then show ?thesis using s by (cases s rule: rev_cases) (simp_all add: rstrip_nul_def rev_replicate)
qed

lemma latin1_code: "latin1 (of_char c) = c"
proof -
  have "nat (of_char c) = (of_char c :: nat)" by (metis nat_int of_nat_of_char)
  then show ?thesis by (simp add: latin1_def)
qed

lemma code_bounds: "0 \<le> (of_char c :: int)" "(of_char c :: int) < 256"
proof -
  have "int (of_char c) = of_char c" by (simp add: of_nat_of_char)
  moreover have "(of_char c :: nat) < 256" by (rule nat_of_char_less_256)
  ultimately show "0 \<le> (of_char c :: int)" "(of_char c :: int) < 256" by linarith+
qed

lemma and_FF_int: "(v :: int) AND 0xFF = v mod 256"
  using take_bit_eq_mask [of 8 v] take_bit_eq_mod [of 8 v] by (simp add: mask_eq_exp_minus_1)

lemma drop_bit_8_int: "drop_bit 8 (v :: int) = v div 256"
  by (simp add: drop_bit_eq_div)

text \<open>A firmware release, and the string it is published under.\<close>

datatype fw_release = Rc nat | Final | Wb nat

fun release_text :: "fw_release \<Rightarrow> string" where
  "release_text (Rc n) = ''-rc'' @ str_nat n"
| "release_text Final = []"
| "release_text (Wb n) = ''+wb'' @ str_nat n"

definition firmware_text :: "nat \<Rightarrow> nat \<Rightarrow> nat \<Rightarrow> fw_release \<Rightarrow> string" where
  "firmware_text a b c r = str_nat a @ ''.'' @ str_nat b @ ''.'' @ str_nat c @ release_text r"

fun suffix_of :: "fw_release \<Rightarrow> int" where
  "suffix_of (Rc n) = - int n"
| "suffix_of Final = 0"
| "suffix_of (Wb n) = int n"

text \<open>The order of releases: candidates by number, the final one, builds by number.\<close>

fun rank :: "fw_release \<Rightarrow> int" where
  "rank (Rc n) = int n - 1"
| "rank Final = 128"
| "rank (Wb n) = int n + 128"

fun release_ok :: "fw_release \<Rightarrow> bool" where
  "release_ok (Rc n) \<longleftrightarrow> 1 \<le> n \<and> n \<le> 128"
| "release_ok Final \<longleftrightarrow> True"
| "release_ok (Wb n) \<longleftrightarrow> 1 \<le> n \<and> n \<le> 127"

lemma or_as_add: "0 \<le> y \<Longrightarrow> y < 2 ^ n \<Longrightarrow> push_bit n x OR y = x * 2 ^ n + (y :: int)"
proof -
  assume "0 \<le> y" "y < 2 ^ n"
  then have "take_bit n y = y" by (simp add: take_bit_eq_mod)
  then have "push_bit n x OR y = concat_bit n y x" by (simp add: concat_bit_def or.commute)
  then show ?thesis using \<open>take_bit n y = y\<close> by (simp add: concat_bit_eq push_bit_eq_mult)
qed

lemma pack_version_value:
  "pack_version a b c e = (a mod 256) * 2 ^ 24 + (b mod 256) * 2 ^ 16 + (c mod 256) * 2 ^ 8 + e mod 256"
proof -
  have m: "0 \<le> x mod 256" "x mod 256 < 256" for x :: int by simp_all
  have 1: "push_bit 8 (c mod 256) OR e mod 256 = (c mod 256) * 2 ^ 8 + e mod 256"
    using m [of e] by (intro or_as_add) simp_all
  have 2: "push_bit 16 (b mod 256) OR ((c mod 256) * 2 ^ 8 + e mod 256) = (b mod 256) * 2 ^ 16 + ((c mod 256) * 2 ^ 8 + e mod 256)"
    using m [of c] m [of e] by (intro or_as_add) simp_all
  have 3: "push_bit 24 (a mod 256) OR ((b mod 256) * 2 ^ 16 + ((c mod 256) * 2 ^ 8 + e mod 256))
      = (a mod 256) * 2 ^ 24 + ((b mod 256) * 2 ^ 16 + ((c mod 256) * 2 ^ 8 + e mod 256))"
    using m [of b] m [of c] m [of e] by (intro or_as_add) simp_all
  show ?thesis unfolding pack_version_def and_FF_int or.assoc 1 2 3 by simp
qed

lemma version_bounds: "0 \<le> pack_version a b c e" "pack_version a b c e < 2 ^ 32"
proof -
  have m: "0 \<le> x mod 256" "x mod 256 < 256" for x :: int by simp_all
  show "0 \<le> pack_version a b c e" "pack_version a b c e < 2 ^ 32"
    unfolding pack_version_value using m [of a] m [of b] m [of c] m [of e] by simp_all
qed

lemma lead_uint_str_nat: "t = [] \<or> \<not> is_digit (hd t) \<Longrightarrow> lead_uint (str_nat n @ t) = int n"
proof -
  assume t: "t = [] \<or> \<not> is_digit (hd t)"
  have d: "list_all is_digit (str_nat n)" "str_nat n \<noteq> []" using str_nat_digits by auto
  then have "takeWhile is_digit (str_nat n @ t) = str_nat n"
    using t by (cases t) (auto simp: list_all_iff takeWhile_append2 takeWhile_eq_all_conv)
  moreover have "py_int (str_nat n) = Some (int n)" using py_int_py_str [of "int n"] by (simp add: py_str_def)
  ultimately show ?thesis using d(2) by (simp add: lead_uint_def)
qed

lemma digits_char: "c \<in> set (str_nat n) \<Longrightarrow> is_digit c"
  using str_nat_digits [of n] by (auto simp: list_all_iff)

lemma release_text_head: "release_text r = [] \<or> \<not> is_digit (hd (release_text r))"
  by (cases r) (simp_all add: is_digit_def)

lemma release_text_no_dot: "CHR ''.'' \<notin> set (release_text r)" "CHR ''.'' \<notin> set (str_nat n)"
proof -
  have "\<not> is_digit (CHR ''.'')" by (simp add: is_digit_def)
  then show n: "CHR ''.'' \<notin> set (str_nat n)" for n using digits_char by blast
  show "CHR ''.'' \<notin> set (release_text r)" using n by (cases r) simp_all
qed


lemma py_in_skip: "sep \<noteq> [] \<Longrightarrow> hd sep \<notin> set p \<Longrightarrow> py_in sep (p @ s) = py_in sep s"
proof (induction p)
  case (Cons c p)
  then have "\<not> py_startswith (c # p @ s) sep" by (cases sep) (auto simp: py_startswith_def)
  with Cons show ?case by simp
qed simp

lemma py_in_absent: "sep \<noteq> [] \<Longrightarrow> hd sep \<notin> set s \<Longrightarrow> \<not> py_in sep s"
  using py_in_skip [of sep s "[]"] by simp

lemma after_first_skip: "sep \<noteq> [] \<Longrightarrow> hd sep \<notin> set p \<Longrightarrow> after_first sep (p @ s) = after_first sep s"
proof (induction p)
  case (Cons c p)
  then have "\<not> py_startswith (c # p @ s) sep" by (cases sep) (auto simp: py_startswith_def)
  with Cons show ?case by simp
qed simp

lemma py_in_prefix: "py_in sep (sep @ s)"
proof (cases "sep @ s")
  case (Cons c t)
  have "py_startswith (sep @ s) sep" by (simp add: py_startswith_def)
  then show ?thesis unfolding Cons by simp
qed simp

lemma after_first_prefix: "sep \<noteq> [] \<Longrightarrow> after_first sep (sep @ s) = s"
  by (cases sep) (simp_all add: py_startswith_def)

lemma numeric_version_text:
  assumes "release_ok r"
  shows "expected_numeric_version (firmware_text a b c r) =
     (int a, int b, int c, suffix_of r, pack_version (int a) (int b) (int c) (rank r))"
proof -
  let ?p = "str_nat a @ ''.'' @ str_nat b @ ''.'' @ str_nat c"
  have f: "firmware_text a b c r = ?p @ release_text r" by (simp add: firmware_text_def)
  have parts: "py_split (CHR ''.'') (firmware_text a b c r) = [str_nat a, str_nat b, str_nat c @ release_text r]"
    using release_text_no_dot by (simp add: firmware_text_def py_split_append py_split_no_sep)
  have "\<not> is_digit (CHR ''+'')" "\<not> is_digit (CHR ''-'')" by (simp_all add: is_digit_def)
  then have n: "CHR ''+'' \<notin> set (str_nat k)" "CHR ''-'' \<notin> set (str_nat k)" for k using digits_char by blast+
  have s: "CHR ''+'' \<notin> set ?p" "CHR ''-'' \<notin> set ?p" using n by simp_all
  have lead: "lead_uint (str_nat k) = int k" "lead_uint (str_nat k @ release_text r) = int k" for k
    using lead_uint_str_nat [of "[]" k] lead_uint_str_nat [OF release_text_head] by simp_all
  have wb: "py_in ''+wb'' (firmware_text a b c r) = (\<exists>n. r = Wb n)"
  proof (cases r)
    case (Rc k)
    then have "CHR ''+'' \<notin> set (firmware_text a b c r)" unfolding f using s(1) n by simp
    then show ?thesis using py_in_absent [of "''+wb''" "firmware_text a b c r"] Rc by simp
  next
    case Final
    then have "CHR ''+'' \<notin> set (firmware_text a b c r)" unfolding f using s(1) by simp
    then show ?thesis using py_in_absent [of "''+wb''" "firmware_text a b c r"] Final by simp
  next
    case (Wb k)
    then show ?thesis unfolding f using py_in_skip [of "''+wb''" ?p] s py_in_prefix [of "''+wb''" "str_nat k"] by simp
  qed
  have rc: "py_in ''-rc'' (firmware_text a b c (Rc k))" for k
    unfolding firmware_text_def using py_in_skip [of "''-rc''" ?p] s py_in_prefix [of "''-rc''"] by simp
  have final: "\<not> py_in ''-rc'' (firmware_text a b c Final)"
    unfolding firmware_text_def using py_in_absent [of "''-rc''" ?p] s by simp
  have after: "after_first ''+wb'' (firmware_text a b c (Wb k)) = str_nat k" "after_first ''-rc'' (firmware_text a b c (Rc k)) = str_nat k" for k
    unfolding firmware_text_def
    using after_first_skip [of "''+wb''" ?p] after_first_skip [of "''-rc''" ?p] s after_first_prefix [of "''+wb''"]
      after_first_prefix [of "''-rc''"] by simp_all
  show ?thesis
    unfolding expected_numeric_version_def parts Let_def
    using assms wb rc final after lead by (cases r) simp_all
qed

lemma lex_digits:
  assumes "0 \<le> x" "x < B" "0 \<le> y" "y < (B :: int)"
  shows "a * B + x < b * B + y \<longleftrightarrow> a < b \<or> (a = b \<and> x < y)"
proof -
  have "a * B + x < b * B + y" if "a < b"
  proof -
    have "(a + 1) * B \<le> b * B" using that assms by (intro mult_right_mono) auto
    then show ?thesis using assms by (simp add: algebra_simps)
  qed
  moreover have "\<not> a * B + x < b * B + y" if "b < a"
  proof -
    have "(b + 1) * B \<le> a * B" using that assms by (intro mult_right_mono) auto
    then show ?thesis using assms by (simp add: algebra_simps)
  qed
  ultimately show ?thesis by (metis add_less_cancel_left linorder_neqE_linordered_idom)
qed

lemma rank_byte: "release_ok r \<Longrightarrow> 0 \<le> rank r \<and> rank r < 256"
  by (cases r) auto

section \<open>Properties\<close>

text \<open>The numeric firmware version. For a published version string it is computed from exactly the numbers in the
  string, fits 32 bits, and orders versions the way releases follow each other: by major, minor and patch number, then
  release candidates by number, then the final release, then numbered builds.\<close>

theorem numeric_version_orders_releases:
  assumes "a < 256" "b < 256" "c < 256" "a' < 256" "b' < 256" "c' < 256" "release_ok r" "release_ok r'"
  shows "\<exists>v v'. expected_numeric_version (firmware_text a b c r) = (int a, int b, int c, suffix_of r, v) \<and>
     expected_numeric_version (firmware_text a' b' c' r') = (int a', int b', int c', suffix_of r', v') \<and>
     0 \<le> v \<and> v < 2 ^ 32 \<and>
     (v < v' \<longleftrightarrow> a < a' \<or> a = a' \<and> (b < b' \<or> b = b' \<and> (c < c' \<or> c = c' \<and> rank r < rank r')))"
proof -
  have m: "int k mod 256 = int k" if "k < 256" for k using that by simp
  have k: "rank r mod 256 = rank r" "rank r' mod 256 = rank r'" using rank_byte assms(7,8) by simp_all
  let ?v = "\<lambda>a b c r. ((int a * 256 + int b) * 256 + int c) * 256 + rank r"
  have v: "pack_version (int a) (int b) (int c) (rank r) = ?v a b c r" "pack_version (int a') (int b') (int c') (rank r') = ?v a' b' c' r'"
    unfolding pack_version_value using assms k by (simp_all add: m algebra_simps)
  have "?v a b c r < ?v a' b' c' r' \<longleftrightarrow> a < a' \<or> a = a' \<and> (b < b' \<or> b = b' \<and> (c < c' \<or> c = c' \<and> rank r < rank r'))"
    using rank_byte [OF assms(7)] rank_byte [OF assms(8)] assms(1-6)
    by (subst lex_digits; (subst lex_digits)?; (subst lex_digits)?) auto
  then show ?thesis
    using numeric_version_text assms(7,8) v version_bounds [of "int a" "int b" "int c" "rank r"] by auto
qed

theorem numeric_version_orders_releases_witness:
  "\<exists>v v'. expected_numeric_version (firmware_text 1 4 0 (Rc 2)) = (1, 4, 0, -2, v) \<and>
     expected_numeric_version (firmware_text 1 4 0 Final) = (1, 4, 0, 0, v') \<and> v < v'"
  using numeric_version_orders_releases [of 1 4 0 1 4 0 "Rc 2" Final] by auto

text \<open>A candidate numbered 0 is not told apart from the final release.\<close>

lemma rc0_is_final:
  "expected_numeric_version (''1.4.0-rc0'') = expected_numeric_version (''1.4.0'')"
  by code_simp


text \<open>The layouts the device packs its strings in, padded with NULs.\<close>

definition mem8_regs :: "string \<Rightarrow> nat \<Rightarrow> int list" where
  "mem8_regs s n = map of_char s @ replicate n 0"

fun git_regs :: "string \<Rightarrow> int list" where
  "git_regs (a # b # s) = (of_char b * 256 + of_char a) # git_regs s"
| "git_regs [a] = [of_char a]"
| "git_regs [] = []"

lemma mem8_char: "drop_bit 8 (of_char c :: int) = 0" "latin1 (of_char c AND 0xFF) = c"
  using code_bounds [of c] by (simp_all add: drop_bit_8_int and_FF_int latin1_code)

lemma latin1_0: "latin1 0 = CHR 0x00"
  by (simp add: latin1_def char_of_def)

lemma mem8_bytes_append: "mem8_bytes (map of_char s @ replicate n 0) = Inr (s @ replicate n (CHR 0x00))"
proof (induction s)
  case Nil
  show ?case by (induction n) (simp_all add: rbind_def latin1_0)
qed (simp add: rbind_def mem8_char)

lemma git_pair:
  "latin1 ((of_char b * 256 + of_char a) AND 0xFF) = a" "latin1 (drop_bit 8 (of_char b * 256 + of_char a) AND 0xFF) = b"
proof -
  have "(of_char b * 256 + of_char a) mod 256 = (of_char a :: int)" "(of_char b * 256 + of_char a) div 256 = (of_char b :: int)"
    "(of_char b :: int) mod 256 = of_char b"
    using code_bounds [of a] code_bounds [of b] by simp_all
  then show "latin1 ((of_char b * 256 + of_char a) AND 0xFF) = a" "latin1 (drop_bit 8 (of_char b * 256 + of_char a) AND 0xFF) = b"
    by (simp_all add: and_FF_int drop_bit_8_int latin1_code)
qed

lemma git_single: "latin1 (of_char a AND 0xFF) = a" "latin1 (drop_bit 8 (of_char a) AND 0xFF) = CHR 0x00"
  using mem8_char by (simp_all add: latin1_0)

definition git_chars :: "int list \<Rightarrow> string" where
  "git_chars vs = concat (map (\<lambda>v. [latin1 (v AND 0xFF), latin1 (drop_bit 8 v AND 0xFF)]) vs)"

lemma git_chars_regs: "\<exists>k. git_chars (git_regs s @ replicate n 0) = s @ replicate k (CHR 0x00)"
proof (induction s rule: git_regs.induct)
  case (1 a b s)
  then show ?case by (auto simp: git_chars_def git_pair)
next
  case (2 a)
  have "git_chars (replicate n 0) = replicate (2 * n) (CHR 0x00)"
    by (induction n) (simp_all add: git_chars_def latin1_0)
  then have "git_chars (git_regs [a] @ replicate n 0) = [a] @ replicate (Suc (2 * n)) (CHR 0x00)"
    by (simp add: git_chars_def git_single)
  then show ?case by blast
next
  case 3
  have "git_chars (replicate n 0) = replicate (2 * n) (CHR 0x00)"
    by (induction n) (simp_all add: git_chars_def latin1_0)
  then show ?case by auto
qed

lemma payload_registers:
  assumes "list_all in_H vs" "length vs \<le> 127"
  shows "regs_from_payload (word_of_nat (2 * length vs) # be_bytes vs @ rest) = Inr vs"
proof -
  have l: "unat (word_of_nat (2 * length vs) :: byte) = 2 * length vs"
    using assms(2) by (simp del: of_nat_mult add: unat_of_nat)
  have nth: "be_bytes vs ! (2 * i) = word_of_int (vs ! i div 256) \<and> be_bytes vs ! (2 * i + 1) = word_of_int (vs ! i mod 256)"
    if "i < length vs" for i
    using that
  proof (induction vs arbitrary: i)
    case (Cons v vs)
    then show ?case by (cases i) (auto simp: be_bytes_def)
  qed simp
  have "map (\<lambda>i. unpack_H ((be_bytes vs @ rest) ! (i * 2)) ((be_bytes vs @ rest) ! Suc (i * 2))) [0..<length vs] = vs"
  proof (rule nth_equalityI)
    fix i
    assume "i < length (map (\<lambda>i. unpack_H ((be_bytes vs @ rest) ! (i * 2)) ((be_bytes vs @ rest) ! Suc (i * 2))) [0..<length vs])"
    then have i: "i < length vs" by simp
    then have "in_H (vs ! i)" using assms(1) by (simp add: list_all_length)
    then show "map (\<lambda>i. unpack_H ((be_bytes vs @ rest) ! (i * 2)) ((be_bytes vs @ rest) ! Suc (i * 2))) [0..<length vs] ! i = vs ! i"
      using i nth [OF i] by (simp add: nth_append mult.commute [of _ 2] unpack_H_div_mod in_H_def)
  qed simp
  then show ?thesis unfolding regs_from_payload_def Let_def by (simp only: nth_Cons_0 l) simp
qed

text \<open>Reading a string field of the device: over any segmentation of the TCP stream, the request for the field's
  registers followed by the decoding of the answer yields the string the device packed, in either layout.\<close>

theorem self_string_read:
  assumes "s = [] \<or> last s \<noteq> CHR 0x00" and "regs = mem8_regs s n \<or> regs = git_regs s @ replicate n 0"
    and "length regs \<le> 127" and "is_byte fc" "in_H start" "in_H cnt"
    and "calm (rxq sock)" "tx_oracle sock = []"
    and "stream (rxq sock) = mbap_frame 0x42 0xFF fc (word_of_nat (2 * length regs) # be_bytes regs) @ tail"
  shows "\<exists>payload sock'. read_self_regs None sock fc start cnt = (Inr (0x42, 0xFF, fc, payload), sock') \<and>
     txd sock' = txd sock @ [mbap_frame 0x42 0xFF fc (be16_bytes start @ be16_bytes cnt)] \<and>
     regs_from_payload payload = Inr regs \<and>
     (regs = mem8_regs s n \<longrightarrow> decode_mem8 regs = Inr s) \<and>
     (regs = git_regs s @ replicate n 0 \<longrightarrow> decode_git_string regs = s)"
proof -
  let ?payload = "word_of_nat (2 * length regs) # be_bytes regs" and ?req = "mbap_frame 0x42 0xFF fc (be16_bytes start @ be16_bytes cnt)"
  have r: "make_mbap_request 0x42 SELF_UNIT_ID fc start cnt = Inr ?req"
    using assms(4-6) by (simp add: make_mbap_request_eq SELF_UNIT_ID_def in_H_def is_byte_def)
  obtain q where q: "send_and_receive sock ?req = (Inr (0x42, 0xFF, fc, ?payload), sock\<lparr>txd := txd sock @ [?req], rxq := q\<rparr>)"
    using exchange_in_sync [of "0x42" "0xFF" fc ?payload sock tail ?req] assms(3,4,7-9)
    by (auto simp: in_H_def is_byte_def)
  have "in_H (of_char b * 256 + of_char a)" "in_H (of_char a)" for a b
    using code_bounds [of a] code_bounds [of b] by (auto simp: in_H_def)
  then have "list_all in_H (git_regs s)" "list_all in_H (map of_char s)" for s
    by (induction s rule: git_regs.induct) (auto simp: list_all_iff)
  then have "list_all in_H regs" using assms(2) by (auto simp: mem8_regs_def list_all_iff in_H_def)
  from payload_registers [OF this assms(3), of "[]"] have p: "regs_from_payload ?payload = Inr regs" by simp
  have m: "decode_mem8 (mem8_regs s n) = Inr s"
    using assms(1) by (simp add: decode_mem8_def mem8_regs_def mem8_bytes_append rbind_def rstrip_nul_append)
  obtain k where "git_chars (git_regs s @ replicate n 0) = s @ replicate k (CHR 0x00)" using git_chars_regs by blast
  then have g: "decode_git_string (git_regs s @ replicate n 0) = s"
    unfolding decode_git_string_def git_chars_def using rstrip_nul_append [OF assms(1), of k] by simp
  show ?thesis using r q p m g by (auto simp: read_self_regs_def)
qed

theorem self_string_read_witness:
  "\<exists>payload sock'. read_self_regs None
       \<lparr>rxq = [Data [0, 0x42, 0], Data [0, 0, 9, 0xFF, 3, 6, 0, 77, 0, 71, 0, 69]], txd = [], tx_oracle = []\<rparr> 3 200 3
       = (Inr (0x42, 0xFF, 3, payload), sock') \<and>
     rbind (regs_from_payload payload) decode_mem8 = Inr ''MGE''"
proof -
  let ?s = "\<lparr>rxq = [Data [0, 0x42, 0], Data [0, 0, 9, 0xFF, 3, 6, 0, 77, 0, 71, 0, 69]], txd = [], tx_oracle = []\<rparr> :: tsock"
  have 1: "''MGE'' = [] \<or> last ''MGE'' \<noteq> CHR 0x00" "length (mem8_regs ''MGE'' 0) \<le> 127" by (simp_all add: mem8_regs_def)
  have 2: "stream (rxq ?s) = mbap_frame 0x42 0xFF 3 (word_of_nat (2 * length (mem8_regs ''MGE'' 0)) # be_bytes (mem8_regs ''MGE'' 0)) @ []"
    by (simp add: stream_def mbap_frame_def be16_bytes_def mem8_regs_def be_bytes_def)
  have 3: "is_byte 3" "in_H 200" "in_H 3" "calm (rxq ?s)" "tx_oracle ?s = []"
    by (simp_all add: is_byte_def in_H_def calm_def)
  show ?thesis using self_string_read [OF 1(1) disjI1 [OF refl] 1(2) 3 2] by (auto simp: rbind_def)
qed

end
