(* ===== verification/Bridge_Admission.thy ===== *)
theory Bridge_Admission
  imports Deadline_Loop
begin

text \<open>
  How the bridge tests of \<open>api_tests/conftest.py\<close> obtain a connection: \<open>_poll_tcp_connect\<close> and
  \<open>_connect_ready_bridge\<close>, which keeps the first connection that is neither closed nor reset
  while it is held. Each attempt takes its clock readings and what the socket calls do from the
  environment; the sockets are numbered by attempt.
\<close>

section \<open>Polling connect\<close>

text \<open>\<open>connect\<close> returns (\<open>None\<close>) or raises; the handler catches the subclasses of \<open>OSError\<close>.\<close>

definition poll_connect_pass :: "exn option \<Rightarrow> nat \<Rightarrow> (nat, bool res) flow" where
  "poll_connect_pass conn n =
     (case conn of
        None \<Rightarrow> Stop (Inr True)
      | Some e \<Rightarrow> if is_OSError e then Next (Suc n) else Stop (Inl e))"

definition poll_tcp_connect :: "time \<Rightarrow> time \<Rightarrow> (time \<times> exn option) list \<Rightarrow> bool res option" where
  "poll_tcp_connect now timeout ps =
     (case deadline_loop (\<lambda>_. True) (now + timeout) poll_connect_pass ps 0 of
        None \<Rightarrow> None
      | Some (Stopped r, _) \<Rightarrow> Some r
      | Some (Expired _, _) \<Rightarrow> Some (Inr False)
      | Some (Done _, _) \<Rightarrow> Some (Inr False))"

section \<open>Admission\<close>

text \<open>One attempt: the clock at its start, what \<open>connect\<close> raises, what the peek returns or raises, and the clock
  before the back-off.\<close>

record attempt =
  at_start :: time
  at_conn :: "exn option"
  at_peek :: "bytes res"
  at_nap :: time

datatype bact =
    Connect nat rat
  | Peek nat rat
  | Unblock nat
  | CloseSock nat
  | Nap rat

text \<open>The two try blocks: whether the connection is rejected, or the exception neither handler catches.\<close>

definition judge_attempt :: "attempt \<Rightarrow> bool res" where
  "judge_attempt a =
     (case at_conn a of
        Some e \<Rightarrow> if is_OSError e then Inr True else Inl e
      | None \<Rightarrow>
          (case at_peek a of
             Inr b \<Rightarrow> Inr (b = [])
           | Inl e \<Rightarrow> if e = TimeoutError then Inr False else if is_OSError e then Inr True else Inl e))"

definition attempt_acts :: "time \<Rightarrow> time \<Rightarrow> nat \<Rightarrow> attempt \<Rightarrow> bact list" where
  "attempt_acts hold remaining k a =
     Connect k (min 3 remaining) # (if at_conn a = None then [Peek k hold] else [])"

fun admit_loop :: "time \<Rightarrow> time \<Rightarrow> time \<Rightarrow> nat \<Rightarrow> attempt list \<Rightarrow> (nat res \<times> bact list) option" where
  "admit_loop deadline hold backoff k [] = None"
| "admit_loop deadline hold backoff k (a # rest) =
     (let remaining = deadline - at_start a in
      if remaining < hold then Some (Inl TimeoutError, [])
      else
        (let tr = attempt_acts hold remaining k a in
         case judge_attempt a of
           Inl e \<Rightarrow> Some (Inl e, tr)
         | Inr False \<Rightarrow> Some (Inr k, tr @ [Unblock k])
         | Inr True \<Rightarrow>
             (let nap = min backoff (deadline - at_nap a) in
              if nap \<le> 0 then Some (Inl TimeoutError, tr @ [CloseSock k])
              else
                (case admit_loop deadline hold (min (backoff * 2) 1) (Suc k) rest of
                   None \<Rightarrow> None
                 | Some (r, tr') \<Rightarrow> Some (r, tr @ [CloseSock k, Nap nap] @ tr')))))"

definition connect_ready_bridge :: "time \<Rightarrow> time \<Rightarrow> time \<Rightarrow> attempt list \<Rightarrow> (nat res \<times> bact list) option" where
  "connect_ready_bridge start hold timeout ps =
     (if timeout \<le> hold then Some (Inl ValueError, [])
      else admit_loop (start + timeout) hold (1/5) 0 ps)"

declare admit_loop.simps [simp del]

section \<open>Lemmas\<close>

lemma judge_admits:
  "judge_attempt a = Inr False \<longleftrightarrow>
     at_conn a = None \<and> ((\<exists>b. at_peek a = Inr b \<and> b \<noteq> []) \<or> at_peek a = Inl TimeoutError)"
  by (auto simp: judge_attempt_def split: option.splits sum.splits if_splits)

lemma admit_loop_cases:
  assumes "admit_loop d h b k (a # rest) = Some (r, tr)"
  obtains (late) "d - at_start a < h" "r = Inl TimeoutError" "tr = []"
  | (raised) e where "h \<le> d - at_start a" "judge_attempt a = Inl e" "r = Inl e" "tr = attempt_acts h (d - at_start a) k a"
  | (admitted) "h \<le> d - at_start a" "judge_attempt a = Inr False" "r = Inr k"
      "tr = attempt_acts h (d - at_start a) k a @ [Unblock k]"
  | (over) "h \<le> d - at_start a" "judge_attempt a = Inr True" "min b (d - at_nap a) \<le> 0" "r = Inl TimeoutError"
      "tr = attempt_acts h (d - at_start a) k a @ [CloseSock k]"
  | (again) tr' where "h \<le> d - at_start a" "judge_attempt a = Inr True" "0 < min b (d - at_nap a)"
      "admit_loop d h (min (b * 2) 1) (Suc k) rest = Some (r, tr')"
      "tr = attempt_acts h (d - at_start a) k a @ [CloseSock k, Nap (min b (d - at_nap a))] @ tr'"
  using assms
  by (cases "judge_attempt a"; cases "projr (judge_attempt a)")
    (auto simp: admit_loop.simps Let_def not_less not_le split: if_splits option.splits)

text \<open>The sockets the trace opens, closes and hands over.\<close>

definition opened :: "bact list \<Rightarrow> nat list" where
  "opened tr = concat (map (\<lambda>a. case a of Connect k _ \<Rightarrow> [k] | _ \<Rightarrow> []) tr)"

definition closed_in :: "bact list \<Rightarrow> nat list" where
  "closed_in tr = concat (map (\<lambda>a. case a of CloseSock k \<Rightarrow> [k] | _ \<Rightarrow> []) tr)"

lemma opened_simps [simp]:
  "opened [] = []" "opened (a # tr) = (case a of Connect k _ \<Rightarrow> [k] | _ \<Rightarrow> []) @ opened tr"
  "opened (tr @ tr') = opened tr @ opened tr'"
  by (simp_all add: opened_def)

lemma closed_in_simps [simp]:
  "closed_in [] = []" "closed_in (a # tr) = (case a of CloseSock k \<Rightarrow> [k] | _ \<Rightarrow> []) @ closed_in tr"
  "closed_in (tr @ tr') = closed_in tr @ closed_in tr'"
  by (simp_all add: closed_in_def)

lemma attempt_acts_sockets [simp]:
  "opened (attempt_acts h r k a) = [k]" "closed_in (attempt_acts h r k a) = []"
  by (simp_all add: attempt_acts_def)

lemma upt_from: "k \<le> n \<Longrightarrow> [k..<Suc n] = k # [Suc k..<Suc n]"
  by (simp add: upt_rec)

lemma admit_loop_returned:
  assumes "admit_loop d h b k ps = Some (Inr n, tr)"
  shows "k \<le> n \<and> n - k < length ps \<and> judge_attempt (ps ! (n - k)) = Inr False \<and> h \<le> d - at_start (ps ! (n - k)) \<and>
     (\<forall>i < n - k. judge_attempt (ps ! i) = Inr True) \<and> opened tr = [k..<Suc n] \<and> closed_in tr = [k..<n] \<and>
     last tr = Unblock n \<and> (\<forall>i r. Peek i r \<in> set tr \<longrightarrow> r = h) \<and> Peek n h \<in> set tr"
  using assms
proof (induction ps arbitrary: b k tr)
  case (Cons a rest)
  from Cons.prems show ?case
  proof (cases rule: admit_loop_cases)
    case admitted
    then show ?thesis by (auto simp: attempt_acts_def judge_admits)
  next
    case (again tr')
    note IH = Cons.IH [OF again(4)]
    have k: "Suc k \<le> n" using IH by (rule conjunct1)
    then have s: "n - k = Suc (n - Suc k)" by simp
    obtain sk: "opened tr' = [Suc k..<Suc n]" "closed_in tr' = [Suc k..<n]" "last tr' = Unblock n"
      and i: "n - Suc k < length rest" "judge_attempt (rest ! (n - Suc k)) = Inr False" "h \<le> d - at_start (rest ! (n - Suc k))"
      and j: "\<forall>i < n - Suc k. judge_attempt (rest ! i) = Inr True"
      and p: "\<forall>i r. Peek i r \<in> set tr' \<longrightarrow> r = h" "Peek n h \<in> set tr'"
      using IH by blast
    have "tr' \<noteq> []" using p(2) by (cases tr') simp_all
    then have l: "last tr = Unblock n" using sk(3) again(5) by simp
    have "judge_attempt ((a # rest) ! i) = Inr True" if "i < n - k" for i
      using that j again(2) s by (cases i) simp_all
    moreover have "[k..<n] = k # [Suc k..<n]" using k by (simp add: upt_rec)
    moreover have "[k..<Suc n] = k # [Suc k..<Suc n]" using k by (intro upt_from) simp
    ultimately have "opened tr = [k..<Suc n]" "closed_in tr = [k..<n]" "\<forall>i < n - k. judge_attempt ((a # rest) ! i) = Inr True"
      using sk(1,2) again(5) by (simp_all del: upt_Suc)
    moreover have "r = h" if "Peek i r \<in> set tr" for i r
      using that p(1) again(5) by (auto simp: attempt_acts_def split: if_splits)
    ultimately show ?thesis using k s l i p(2) again(5) by simp
  qed simp_all
qed (simp add: admit_loop.simps)

text \<open>The clock of the attempts: an attempt takes no negative time, and the next one starts after the back-off.\<close>

fun backed_off :: "time \<Rightarrow> time \<Rightarrow> attempt list \<Rightarrow> bool" where
  "backed_off d b (a # a' # rest) \<longleftrightarrow>
     at_start a \<le> at_nap a \<and> at_nap a + min b (d - at_nap a) \<le> at_start a' \<and> backed_off d (min (b * 2) 1) (a' # rest)"
| "backed_off d b ps \<longleftrightarrow> True"

fun naps :: "rat \<Rightarrow> nat \<Rightarrow> rat" where
  "naps b 0 = 0"
| "naps b (Suc n) = b + naps (min (b * 2) 1) n"

lemma naps_1: "naps 1 n = of_nat n"
proof (induction n)
  case (Suc n)
  then show ?case by simp
qed simp

lemma naps_nonneg: "0 < b \<Longrightarrow> 0 \<le> naps b n"
proof (induction n arbitrary: b)
  case (Suc n)
  then have "0 \<le> naps (min (b * 2) 1) n" by simp
  then show ?case using Suc.prems by simp
qed simp

lemma backed_off_step:
  assumes "backed_off d b (a # a' # rest)"
  shows "at_start a \<le> at_nap a" "at_nap a + min b (d - at_nap a) \<le> at_start a'" "backed_off d (min (b * 2) 1) (a' # rest)"
  using assms by simp_all

lemma naps_default: "naps (1/5) (Suc (Suc (Suc n))) = 7/5 + of_nat n"
  by (simp add: naps_1)

lemma next_attempt_after_full_nap:
  fixes d h b :: rat
  assumes "u + min b (d - u) \<le> v" "v \<le> d - h" "0 < h" "s \<le> u"
  shows "s + b \<le> v"
  using assms by (cases "b \<le> d - u") (simp_all add: min_def)

text \<open>Every attempt but the last is followed by a full back-off, within the budget.\<close>

lemma admit_loop_attempts:
  assumes "admit_loop d h b k ps = Some (r, tr)" and "backed_off d b ps" and "0 < h"
  shows "opened tr = [] \<or> at_start (hd ps) + naps b (length (opened tr) - 1) \<le> d - h"
  using assms(1,2)
proof (induction ps arbitrary: b k tr)
  case (Cons a rest)
  from Cons.prems(1) show ?case
  proof (cases rule: admit_loop_cases)
    case (again tr')
    show ?thesis
    proof (cases "opened tr' = []")
      case False
      then obtain a' qs where rest: "rest = a' # qs" using again(4) by (cases rest) (simp_all add: admit_loop.simps)
      note step = backed_off_step [OF Cons.prems(2) [unfolded rest]]
      have IH: "at_start a' + naps (min (b * 2) 1) (length (opened tr') - 1) \<le> d - h"
        using Cons.IH [OF again(4)] step(3) False rest by simp
      obtain m where m: "length (opened tr') = Suc m" using False by (cases "opened tr'") auto
      have "0 < min (b * 2) 1" using again(3) by simp
      from naps_nonneg [OF this, of "length (opened tr') - 1"] have "at_start a' \<le> d - h" using IH by linarith
      from next_attempt_after_full_nap [OF step(2) this assms(3) step(1)]
      show ?thesis using IH again(5) m by simp
    next
      case True
      then show ?thesis using again by simp
    qed
  qed auto
qed (simp add: admit_loop.simps)

lemma admit_loop_pending:
  assumes "admit_loop d h b k ps = None" and "backed_off d b ps" and "0 < h" "ps \<noteq> []" "0 < b"
  shows "at_start (hd ps) + naps b (length ps - 1) \<le> d - h"
  using assms(1,2,4,5)
proof (induction ps arbitrary: b k)
  case (Cons a rest)
  have again: "h \<le> d - at_start a" "0 < min b (d - at_nap a)" "admit_loop d h (min (b * 2) 1) (Suc k) rest = None"
    using Cons.prems(1) by (auto simp: admit_loop.simps Let_def not_less not_le split: sum.splits bool.splits if_splits option.splits)
  show ?case
  proof (cases rest)
    case Nil
    then show ?thesis using again(1) by simp
  next
    case rest: (Cons a' qs)
    note step = backed_off_step [OF Cons.prems(2) [unfolded rest]]
    have b: "0 < min (b * 2) 1" using Cons.prems(4) by simp
    have IH: "at_start a' + naps (min (b * 2) 1) (length qs) \<le> d - h"
      using Cons.IH [OF again(3)] step(3) b rest by simp
    from naps_nonneg [OF b, of "length qs"] have "at_start a' \<le> d - h" using IH by linarith
    from next_attempt_after_full_nap [OF step(2) this assms(3) step(1)]
    show ?thesis using IH rest by simp
  qed
qed simp

lemma judge_raises: "judge_attempt a = Inl e \<Longrightarrow> \<not> is_OSError e"
  by (auto simp: judge_attempt_def split: option.splits sum.splits if_splits)

lemma admit_loop_gave_up:
  assumes "admit_loop d h b k ps = Some (Inl e, tr)"
  shows "(e = TimeoutError \<and> closed_in tr = opened tr) \<or> \<not> is_OSError e \<and> opened tr = closed_in tr @ [k + length (closed_in tr)]"
  using assms
proof (induction ps arbitrary: b k tr)
  case (Cons a rest)
  from Cons.prems show ?case
  proof (cases rule: admit_loop_cases)
    case (again tr')
    then show ?thesis using Cons.IH [OF again(4)] by auto
  qed (auto dest: judge_raises)
qed (simp add: admit_loop.simps)

text \<open>The socket calls keep to their timeouts: \<open>connect\<close> to the clamped one, the peek to the hold.\<close>

definition in_time :: "time \<Rightarrow> time \<Rightarrow> attempt \<Rightarrow> bool" where
  "in_time d h a \<longleftrightarrow> at_nap a \<le> at_start a + min 3 (d - at_start a) + (if at_conn a = None then h else 0)"

section \<open>Properties\<close>



text \<open>The admission ends, with a bounded number of connections. Whatever the attempts meet, the call returns or raises
  once enough attempts were made, and it makes at most as many as full back-offs fit between its start and the last moment
  an attempt may begin: 17 for the default budget.\<close>

theorem admission_bounded:
  assumes "0 < hold" "hold < timeout" "backed_off (start + timeout) (1/5) ps" "start \<le> at_start (hd ps)"
    and "4 \<le> length ps" "timeout - hold + 13/5 < of_nat (length ps)"
  shows "\<exists>r tr. connect_ready_bridge start hold timeout ps = Some (r, tr) \<and>
     (length (opened tr) < 4 \<or> of_nat (length (opened tr)) \<le> timeout - hold + 13/5) \<and>
     (timeout = 15 \<and> hold = 1/2 \<longrightarrow> length (opened tr) \<le> 17)"
proof -
  have ge4: "naps (1/5) (m - 1) = of_nat m - 13/5" if "4 \<le> m" for m
  proof -
    define n where "n = m - 4"
    have "m = Suc (Suc (Suc (Suc n)))" using that by (simp add: n_def)
    then show ?thesis using naps_default [of n] by simp
  qed
  let ?l = "admit_loop (start + timeout) hold (1/5) 0 ps"
  have "?l \<noteq> None"
  proof
    assume n: "?l = None"
    have "ps \<noteq> []" using assms(5) by auto
    from admit_loop_pending [OF n assms(3,1) this] have "at_start (hd ps) + naps (1/5) (length ps - 1) \<le> start + timeout - hold"
      by simp
    then show False using assms(4,6) ge4 [OF assms(5)] by linarith
  qed
  then obtain r tr where l: "?l = Some (r, tr)" by auto
  have a: "of_nat (length (opened tr)) \<le> timeout - hold + 13/5" if m: "4 \<le> length (opened tr)"
  proof -
    have "opened tr \<noteq> []" using m by auto
    then have "at_start (hd ps) + naps (1/5) (length (opened tr) - 1) \<le> start + timeout - hold"
      using admit_loop_attempts [OF l assms(3,1)] by simp
    then show ?thesis using assms(4) ge4 [OF m] by linarith
  qed
  have "length (opened tr) \<le> 17" if "timeout = 15" "hold = 1/2"
  proof (rule ccontr)
    assume "\<not> length (opened tr) \<le> 17"
    then have "18 \<le> length (opened tr)" by simp
    moreover from this have "(18 :: rat) \<le> of_nat (length (opened tr))" by (metis of_nat_le_iff of_nat_numeral)
    ultimately show False using a that by simp
  qed
  moreover have "length (opened tr) < 4 \<or> of_nat (length (opened tr)) \<le> timeout - hold + 13/5"
    using a by (cases "4 \<le> length (opened tr)") simp_all
  ultimately show ?thesis using l assms(2) by (simp add: connect_ready_bridge_def)
qed

definition refused_at :: "time \<Rightarrow> attempt" where
  "refused_at t = \<lparr>at_start = t, at_conn = Some ConnectionError, at_peek = Inr [], at_nap = t\<rparr>"

theorem admission_bounded_witness:
  "\<exists>r tr. connect_ready_bridge 0 (1/2) 3 (map refused_at [0, 1/5, 3/5, 7/5, 12/5, 3]) = Some (r, tr) \<and> length (opened tr) \<le> 5"
proof -
  have b: "backed_off (0 + 3) (1/5) (map refused_at [0, 1/5, 3/5, 7/5, 12/5, 3])"
    by (simp add: refused_at_def min_def)
  have h: "(0 :: rat) \<le> at_start (hd (map refused_at [0, 1/5, 3/5, 7/5, 12/5, 3]))"
    "(3 - 1/2 + 13/5 :: rat) < of_nat (length (map refused_at [0, 1/5, 3/5, 7/5, 12/5, 3]))"
    by (simp_all add: refused_at_def)
  obtain r tr where "connect_ready_bridge 0 (1/2) 3 (map refused_at [0, 1/5, 3/5, 7/5, 12/5, 3]) = Some (r, tr)"
    and "length (opened tr) < 4 \<or> of_nat (length (opened tr)) \<le> (3 - 1/2 + 13/5 :: rat)"
    using admission_bounded [OF _ _ b h(1) _ h(2)] by auto
  moreover have "length (opened tr) \<le> 5" if "of_nat (length (opened tr)) \<le> (3 - 1/2 + 13/5 :: rat)"
  proof (rule ccontr)
    assume "\<not> length (opened tr) \<le> 5"
    then have "6 \<le> length (opened tr)" by simp
    then have "(6 :: rat) \<le> of_nat (length (opened tr))" by (metis of_nat_le_iff of_nat_numeral)
    then show False using that by simp
  qed
  ultimately show ?thesis by fastforce
qed

end
