(* ===== verification/Echo_Bridge.thy ===== *)
theory Echo_Bridge
  imports Bridge_Admission Modbus_Tcp
begin

text \<open>
  The two ends of a transparent bridge in the tests: the UART echo thread and the TCP echo
  server of \<open>api_tests/25_test_transparent_tcp_e2e.py\<close> and \<open>32_test_transparent_sniffer.py\<close>, the
  echo collector, and the round trip of \<open>42_test_sniffer_cache_overlays_e2e.py\<close>, which composes
  the admission of \<^theory_text>\<open>Bridge_Admission\<close> with a deadline-bounded receive.
\<close>

section \<open>The echo loop\<close>

text \<open>One pass: the stop flag, what \<open>recv(256)\<close> gives, and how \<open>sendall\<close> fails, with the number of bytes already
  written when it does.\<close>

record echo_pass =
  ep_stop :: bool
  ep_recv :: "bytes res"
  ep_send :: "(exn \<times> nat) option"

text \<open>The bytes written back and the number of bytes counted as echoed. A timeout of either call continues the loop,
  another socket error ends it, anything else leaves it as an exception.\<close>

fun echo_loop :: "echo_pass list \<Rightarrow> bytes \<Rightarrow> int \<Rightarrow> (bytes \<times> int \<times> unit res) option" where
  "echo_loop [] out n = None"
| "echo_loop (p # ps) out n =
     (if ep_stop p then Some (out, n, Inr ())
      else
        (case ep_recv p of
           Inl e \<Rightarrow>
             if e = TimeoutError then echo_loop ps out n
             else if is_OSError e then Some (out, n, Inr ())
             else Some (out, n, Inl e)
         | Inr data \<Rightarrow>
             if data = [] then Some (out, n, Inr ())
             else
               (case ep_send p of
                  None \<Rightarrow> echo_loop ps (out @ data) (n + int (length data))
                | Some (e, k) \<Rightarrow>
                    if e = TimeoutError then echo_loop ps (out @ take k data) n
                    else if is_OSError e then Some (out @ take k data, n, Inr ())
                    else Some (out @ take k data, n, Inl e))))"

section \<open>The UART echo thread\<close>

record uart_echo =
  ue_connected :: bool
  bytes_echoed :: int
  ue_out :: bytes
  ue_open :: bool
  ue_stop :: bool

definition new_uart_echo :: uart_echo where
  "new_uart_echo = \<lparr>ue_connected = False, bytes_echoed = 0, ue_out = [], ue_open = False, ue_stop = False\<rparr>"

definition uart_echo_run :: "exn option \<Rightarrow> echo_pass list \<Rightarrow> uart_echo \<Rightarrow> (uart_echo \<times> unit res) option" where
  "uart_echo_run conn ps t =
     (let t = t\<lparr>ue_open := True\<rparr> in
      case conn of
        Some e \<Rightarrow> Some (t, if is_OSError e then Inr () else Inl e)
      | None \<Rightarrow>
          (let t = t\<lparr>ue_connected := True\<rparr> in
           case echo_loop ps (ue_out t) (bytes_echoed t) of
             None \<Rightarrow> None
           | Some (out, n, Inl e) \<Rightarrow> Some (t\<lparr>ue_out := out, bytes_echoed := n\<rparr>, Inl e)
           | Some (out, n, Inr _) \<Rightarrow> Some (t\<lparr>ue_out := out, bytes_echoed := n, ue_open := False\<rparr>, Inr ())))"

definition uart_echo_stop :: "uart_echo \<Rightarrow> uart_echo" where
  "uart_echo_stop t = t\<lparr>ue_stop := True, ue_open := False\<rparr>"

text \<open>\<open>wait_connected\<close>: the flag's value at each poll.\<close>

definition wait_echo_connected :: "time \<Rightarrow> (time \<times> bool) list \<Rightarrow> bool option" where
  "wait_echo_connected deadline ps =
     (case deadline_loop (\<lambda>_. True) deadline (\<lambda>c (_ :: unit). if c then Stop True else Next ()) ps () of
        None \<Rightarrow> None
      | Some (Stopped r, _) \<Rightarrow> Some r
      | Some (_, _) \<Rightarrow> Some False)"

section \<open>The TCP echo server\<close>

record echo_server =
  srv_open :: bool
  cli_open :: bool
  es_ready :: bool
  es_accepted :: bool
  es_out :: bytes

definition new_echo_server :: echo_server where
  "new_echo_server = \<lparr>srv_open = False, cli_open = False, es_ready = False, es_accepted = False, es_out = []\<rparr>"

text \<open>The accept loop: the stop flag and what \<open>accept\<close> raises; the result is whether a client was accepted.\<close>

fun accept_loop :: "(bool \<times> exn option) list \<Rightarrow> bool res option" where
  "accept_loop [] = None"
| "accept_loop ((stop, acc) # ps) =
     (if stop then Some (Inr False)
      else
        (case acc of
           None \<Rightarrow> Some (Inr True)
         | Some e \<Rightarrow> if e = TimeoutError then accept_loop ps else Some (Inl e)))"

definition close_both :: "echo_server \<Rightarrow> echo_server" where
  "close_both s = s\<lparr>cli_open := False, srv_open := False\<rparr>"

definition tcp_echo_run ::
  "exn option \<Rightarrow> (bool \<times> exn option) list \<Rightarrow> echo_pass list \<Rightarrow> echo_server \<Rightarrow> (echo_server \<times> unit res) option" where
  "tcp_echo_run bind_exn accs ps s =
     (let s = s\<lparr>srv_open := True\<rparr> in
      case bind_exn of
        Some e \<Rightarrow> Some (s, Inl e)
      | None \<Rightarrow>
          (let s = s\<lparr>es_ready := True\<rparr> in
           case accept_loop accs of
             None \<Rightarrow> None
           | Some (Inl e) \<Rightarrow> Some (close_both s, Inl e)
           | Some (Inr False) \<Rightarrow> Some (close_both s, Inr ())
           | Some (Inr True) \<Rightarrow>
               (let s = s\<lparr>es_accepted := True, cli_open := True\<rparr> in
                case echo_loop ps (es_out s) 0 of
                  None \<Rightarrow> None
                | Some (out, _, r) \<Rightarrow> Some (close_both (s\<lparr>es_out := out\<rparr>), r))))"

section \<open>Collecting the echo\<close>

definition collect_echo :: "nat \<Rightarrow> time \<Rightarrow> (time \<times> recv256) list \<Rightarrow> bytes res option" where
  "collect_echo expected_len deadline ps =
     (case deadline_loop (\<lambda>r. int (length r) < int expected_len) deadline pdu_pass ps [] of
        None \<Rightarrow> None
      | Some (Stopped r, _) \<Rightarrow> Some r
      | Some (Expired received, _) \<Rightarrow> Some (Inr received)
      | Some (Done received, _) \<Rightarrow> Some (Inr received))"

text \<open>\<open>_roundtrip_once\<close>: the admission, the send, the receive, and the close in every case; the trace is that of the
  sockets.\<close>

definition roundtrip_once ::
  "time \<Rightarrow> attempt list \<Rightarrow> bytes \<Rightarrow> time \<Rightarrow> exn option \<Rightarrow> time \<Rightarrow> (time \<times> recv256) list \<Rightarrow> (bytes res \<times> bact list) option" where
  "roundtrip_once start atts payload timeout snd_exn now ps =
     (case connect_ready_bridge start (1/2) timeout atts of
        None \<Rightarrow> None
      | Some (Inl e, tr) \<Rightarrow> Some (Inl e, tr)
      | Some (Inr k, tr) \<Rightarrow>
          (case snd_exn of
             Some e \<Rightarrow> Some (Inl e, tr @ [CloseSock k])
           | None \<Rightarrow>
               (case collect_echo (length payload) (now + timeout) ps of
                  None \<Rightarrow> None
                | Some r \<Rightarrow> Some (r, tr @ [CloseSock k]))))"

section \<open>Lemmas\<close>

text \<open>What a pass hands to the loop, and the passes on which both calls work.\<close>

definition taken :: "echo_pass \<Rightarrow> bytes" where
  "taken p = (case ep_recv p of Inr data \<Rightarrow> data | Inl _ \<Rightarrow> [])"

definition smooth :: "echo_pass \<Rightarrow> bool" where
  "smooth p \<longleftrightarrow> \<not> ep_stop p \<and> ep_send p = None \<and> ep_recv p \<noteq> Inr [] \<and> (\<forall>e. ep_recv p = Inl e \<longrightarrow> e = TimeoutError)"

definition leaves :: "echo_pass \<Rightarrow> bool" where
  "leaves p \<longleftrightarrow> ep_stop p \<or> ep_recv p = Inr [] \<or> (\<exists>e. ep_recv p = Inl e \<and> is_OSError e \<and> e \<noteq> TimeoutError)"

lemma echo_loop_smooth:
  assumes "list_all smooth ps" "leaves p"
  shows "echo_loop (ps @ p # qs) out n =
    Some (out @ concat (map taken ps), n + int (length (concat (map taken ps))), Inr ())"
  using assms(1)
proof (induction ps arbitrary: out n)
  case Nil
  then show ?case using assms(2) by (auto simp: leaves_def split: sum.split)
next
  case (Cons q ps)
  then show ?case by (cases "ep_recv q") (auto simp: smooth_def taken_def)
qed

text \<open>Whatever happens, the output is the input with the tails of failed sends missing, and the count is of whole chunks
  only.\<close>

lemma echo_loop_output:
  assumes "echo_loop ps out n = Some (out', n', r)"
  shows "\<exists>ws. out' = out @ concat ws \<and> length ws \<le> length ps \<and>
     (\<forall>i < length ws. \<exists>k. ws ! i = take k (taken (ps ! i))) \<and> n \<le> n' \<and> n' - n \<le> int (length out') - int (length out)"
  using assms
proof (induction ps arbitrary: out n)
  case (Cons p ps)
  have stop: ?case if "out' = out @ take k (taken p)" "n' = n" for k
    using that by (intro exI [of _ "[take k (taken p)]"]) auto
  have go: ?case if g: "echo_loop ps (out @ take k (taken p)) m = Some (out', n', r)" "n \<le> m" "m - n \<le> int (length (take k (taken p)))" for k m
  proof -
    obtain ws where ws: "out' = (out @ take k (taken p)) @ concat ws" "length ws \<le> length ps"
      "\<forall>i < length ws. \<exists>k. ws ! i = take k (taken (ps ! i))" "m \<le> n'" "n' - m \<le> int (length out') - int (length (out @ take k (taken p)))"
      using Cons.IH [OF g(1)] by blast
    have "\<exists>j. (take k (taken p) # ws) ! i = take j (taken ((p # ps) ! i))" if "i < length (take k (taken p) # ws)" for i
      using that ws(3) by (cases i) auto
    then show ?thesis using ws g(2,3) by (intro exI [of _ "take k (taken p) # ws"]) auto
  qed
  show ?case
  proof (cases "ep_stop p")
    case False
    show ?thesis
    proof (cases "ep_recv p")
      case (Inl e)
      then show ?thesis using Cons.prems False stop [of 0] go [of 0 n] by (auto split: if_splits)
    next
      case (Inr data)
      then have t: "taken p = data" by (simp add: taken_def)
      show ?thesis
      proof (cases "ep_send p")
        case None
        then show ?thesis using Cons.prems False Inr t stop [of 0] go [of "length data" "n + int (length data)"] by (auto split: if_splits)
      next
        case (Some ek)
        then show ?thesis using Cons.prems False Inr t stop [of 0] stop [of "snd ek"] go [of "snd ek" n]
          by (cases ek) (auto split: if_splits)
      qed
    qed
  qed (use Cons.prems stop [of 0] in auto)
qed simp

text \<open>The collector returns what arrived before the pass that ended it.\<close>

lemma collect_echo_loop:
  assumes "deadline_loop (\<lambda>r. int (length r) < k) d pdu_pass ps r0 = Some (out, rest)"
  shows "\<exists>pre. list_all (quiet_pass d) pre \<and>
    (case out of
       Done r \<Rightarrow> r = r0 @ arrived pre \<and> ps = pre @ rest \<and> k \<le> int (length r)
     | Expired r \<Rightarrow> r = r0 @ arrived pre \<and> (\<exists>t p. ps = pre @ (t, p) # rest \<and> d \<le> t)
     | Stopped (Inr r) \<Rightarrow> r = r0 @ arrived pre \<and> (\<exists>t. ps = pre @ (t, Chunk []) # rest \<and> t < d)
     | Stopped (Inl e) \<Rightarrow> \<exists>t. ps = pre @ (t, SockFail e) # rest \<and> t < d)"
  using assms
proof (induction ps arbitrary: r0)
  case Nil
  then show ?case by (cases "int (length r0) < k") (auto simp: loop_simps intro!: exI [of _ "[]"])
next
  case (Cons q ps)
  obtain t p where q: "q = (t, p)" by (cases q)
  show ?case
  proof (cases "int (length r0) < k \<and> t < d")
    case False
    then show ?thesis using Cons.prems q
      by (cases "int (length r0) < k") (auto simp: loop_simps not_less intro!: exI [of _ "[]"])
  next
    case True
    show ?thesis
    proof (cases "pdu_pass p r0")
      case (Stop x)
      then have "out = Stopped x" "rest = ps" using Cons.prems True q by (auto simp: loop_simps)
      then show ?thesis using Stop q True by (cases p) (auto split: if_splits intro!: exI [of _ "[]"])
    next
      case (Next r1)
      then have l: "deadline_loop (\<lambda>r. int (length r) < k) d pdu_pass ps r1 = Some (out, rest)"
        using Cons.prems True q by (simp add: loop_simps)
      have r1: "r1 @ arrived xs = r0 @ arrived (q # xs)" "quiet_pass d q" for xs
        using Next q True by (cases p; auto split: if_splits)+
      obtain pre where "list_all (quiet_pass d) pre" "case out of
         Done r \<Rightarrow> r = r1 @ arrived pre \<and> ps = pre @ rest \<and> k \<le> int (length r)
       | Expired r \<Rightarrow> r = r1 @ arrived pre \<and> (\<exists>t p. ps = pre @ (t, p) # rest \<and> d \<le> t)
       | Stopped (Inr r) \<Rightarrow> r = r1 @ arrived pre \<and> (\<exists>t. ps = pre @ (t, Chunk []) # rest \<and> t < d)
       | Stopped (Inl e) \<Rightarrow> \<exists>t. ps = pre @ (t, SockFail e) # rest \<and> t < d"
        using Cons.IH [OF l] by blast
      then show ?thesis using r1 by (intro exI [of _ "q # pre"]) (auto split: outcome.splits sum.splits)
    qed
  qed
qed

lemma collect_echo_all:
  assumes "list_all (quiet_pass d) ps" "length (arrived ps) = n"
  shows "collect_echo n d ps = Some (Inr (arrived ps))"
proof -
  obtain r' rest where "deadline_loop (\<lambda>r. int (length r) < int n) d pdu_pass ps [] = Some (Done r', rest)"
    "int n \<le> int (length r')" "[] @ arrived ps = r' @ arrived rest"
    using loop_collects [OF assms(1), of "int n" "[]" pdu_pass] assms(2) by auto
  moreover have "length (arrived rest) = 0" using calculation(2) arg_cong [OF calculation(3), of length] assms(2) by simp
  then have "r' = arrived ps" using calculation(3) by simp
  ultimately show ?thesis by (simp add: collect_echo_def)
qed

section \<open>Properties\<close>

text \<open>C17: the round trip through a transparent bridge. If the bridge admits the connection and carries the bytes of either
  direction in order, however it cuts them, then the echo thread writes back and counts exactly the payload, the client
  returns exactly the payload, and every socket the client opened is closed.\<close>

theorem transparent_roundtrip:
  assumes admitted: "connect_ready_bridge start (1/2) timeout atts = Some (Inr k, tr)"
    and serial_side: "list_all smooth ups" "leaves q" "concat (map taken ups) = payload"
    and tcp_side: "list_all (quiet_pass (now + timeout)) ps" "arrived ps = concat (map taken ups)"
  shows "\<exists>t tr'. uart_echo_run None (ups @ q # later) new_uart_echo = Some (t, Inr ()) \<and>
     ue_out t = payload \<and> bytes_echoed t = int (length payload) \<and> \<not> ue_open t \<and>
     roundtrip_once start atts payload timeout None now ps = Some (Inr payload, tr') \<and> closed_in tr' = opened tr'"
proof -
  have "echo_loop (ups @ q # later) [] 0 = Some (payload, int (length payload), Inr ())"
    using echo_loop_smooth [OF serial_side(1,2), of later "[]" 0] serial_side(3) by simp
  moreover have "collect_echo (length payload) (now + timeout) ps = Some (Inr payload)"
    using collect_echo_all [OF tcp_side(1)] tcp_side(2) serial_side(3) by simp
  moreover have "closed_in tr @ [k] = opened tr"
    using admit_loop_returned [of "start + timeout" "1/2" "1/5" 0 atts k tr] admitted
    by (auto simp: connect_ready_bridge_def split: if_splits)
  ultimately show ?thesis
    using admitted by (simp add: uart_echo_run_def new_uart_echo_def roundtrip_once_def)
qed

theorem transparent_roundtrip_witness:
  "\<exists>t tr'. uart_echo_run None
       [\<lparr>ep_stop = False, ep_recv = Inl TimeoutError, ep_send = None\<rparr>, \<lparr>ep_stop = False, ep_recv = Inr [1, 2], ep_send = None\<rparr>,
        \<lparr>ep_stop = False, ep_recv = Inr [3], ep_send = None\<rparr>, \<lparr>ep_stop = True, ep_recv = Inr [], ep_send = None\<rparr>] new_uart_echo =
       Some (t, Inr ()) \<and> ue_out t = [1, 2, 3] \<and>
     roundtrip_once 0 [\<lparr>at_start = 0, at_conn = None, at_peek = Inl TimeoutError, at_nap = 1/2\<rparr>] [1, 2, 3] 8 None 1
       [(2, Chunk [1]), (3, SockTimeout), (4, Chunk [2, 3])] = Some (Inr [1, 2, 3], tr')"
proof -
  have "connect_ready_bridge 0 (1/2) 8 [\<lparr>at_start = 0, at_conn = None, at_peek = Inl TimeoutError, at_nap = 1/2\<rparr>] =
    Some (Inr 0, [Connect 0 3, Peek 0 (1/2), Unblock 0])"
    by (simp add: connect_ready_bridge_def admit_loop.simps judge_attempt_def attempt_acts_def)
  from transparent_roundtrip [OF this, of
      "[\<lparr>ep_stop = False, ep_recv = Inl TimeoutError, ep_send = None\<rparr>, \<lparr>ep_stop = False, ep_recv = Inr [1, 2], ep_send = None\<rparr>,
        \<lparr>ep_stop = False, ep_recv = Inr [3], ep_send = None\<rparr>]"
      "\<lparr>ep_stop = True, ep_recv = Inr [], ep_send = None\<rparr>" "[1, 2, 3]" 1 "[(2, Chunk [1]), (3, SockTimeout), (4, Chunk [2, 3])]" "[]"]
  show ?thesis by (auto simp: smooth_def leaves_def taken_def)
qed

text \<open>What a collected echo proves. The call ends once the clock reaches its deadline. It returns exactly the bytes that
  arrived before it stopped, and it stopped because the expected number was reached, because the peer closed, or because the
  clock had reached the deadline; it raises only what the socket raised, before the deadline.\<close>

theorem collect_echo_sound:
  assumes "(t, p) \<in> set ps" "d \<le> t"
  shows "\<exists>r pre rest. collect_echo n d ps = Some r \<and> list_all (quiet_pass d) pre \<and> ps = pre @ rest \<and>
     (case r of
        Inr got \<Rightarrow> got = arrived pre \<and> (n \<le> length got \<or> (\<exists>t e. rest \<noteq> [] \<and> hd rest = (t, e) \<and> (e = Chunk [] \<or> d \<le> t)))
      | Inl e \<Rightarrow> \<exists>t. rest \<noteq> [] \<and> hd rest = (t, SockFail e) \<and> t < d)"
proof -
  obtain out rest where l: "deadline_loop (\<lambda>r. int (length r) < int n) d pdu_pass ps [] = Some (out, rest)"
    using deadline_loop_returns [OF assms, of "\<lambda>r. int (length r) < int n" pdu_pass "[]"] by auto
  obtain pre where pre: "list_all (quiet_pass d) pre" "case out of
       Done r \<Rightarrow> r = [] @ arrived pre \<and> ps = pre @ rest \<and> int n \<le> int (length r)
     | Expired r \<Rightarrow> r = [] @ arrived pre \<and> (\<exists>t p. ps = pre @ (t, p) # rest \<and> d \<le> t)
     | Stopped (Inr r) \<Rightarrow> r = [] @ arrived pre \<and> (\<exists>t. ps = pre @ (t, Chunk []) # rest \<and> t < d)
     | Stopped (Inl e) \<Rightarrow> \<exists>t. ps = pre @ (t, SockFail e) # rest \<and> t < d"
    using collect_echo_loop [OF l] by blast
  let ?G = "\<lambda>r pre rest. collect_echo n d ps = Some r \<and> list_all (quiet_pass d) pre \<and> ps = pre @ rest \<and>
     (case r of
        Inr got \<Rightarrow> got = arrived pre \<and> (n \<le> length got \<or> (\<exists>t e. rest \<noteq> [] \<and> hd rest = (t, e) \<and> (e = Chunk [] \<or> d \<le> t)))
      | Inl e \<Rightarrow> \<exists>t. rest \<noteq> [] \<and> hd rest = (t, SockFail e) \<and> t < d)"
  show ?thesis
  proof (cases out)
    case (Done r)
    then have "r = arrived pre" "ps = pre @ rest" "n \<le> length r" using pre(2) by auto
    then have "?G (Inr r) pre rest" using l pre(1) Done by (simp add: collect_echo_def)
    then show ?thesis by blast
  next
    case (Expired r)
    then obtain t p where "ps = pre @ (t, p) # rest" "d \<le> t" "r = arrived pre" using pre(2) by auto
    then have "?G (Inr r) pre ((t, p) # rest)" using l pre(1) Expired by (simp add: collect_echo_def)
    then show ?thesis by blast
  next
    case (Stopped x)
    then obtain t p where "ps = pre @ (t, p) # rest"
      "case x of Inr r \<Rightarrow> r = arrived pre \<and> p = Chunk [] | Inl e \<Rightarrow> p = SockFail e \<and> t < d"
      using pre(2) by (cases x) auto
    then have "?G x pre ((t, p) # rest)" using l pre(1) Stopped by (auto simp: collect_echo_def split: sum.splits)
    then show ?thesis by blast
  qed
qed

theorem collect_echo_sound_witness:
  "\<exists>r. collect_echo 3 5 [(1, Chunk [9]), (2, SockTimeout), (6, Chunk [8])] = Some r \<and> r = Inr [9]"
proof -
  have "collect_echo 3 5 [(1, Chunk [9]), (2, SockTimeout), (6, Chunk [8])] = Some (Inr [9])"
    by (simp add: collect_echo_def loop_simps)
  then show ?thesis using collect_echo_sound [of 6 "Chunk [8]" "[(1, Chunk [9]), (2, SockTimeout), (6, Chunk [8])]" 5 3] by simp
qed

text \<open>The echo server. However its accept and echo loops end, by a stop, an end of file or any exception, a server that
  was bound leaves neither of its sockets open, and what it wrote back is what it received, chunk by chunk, cut only where
  a send failed.\<close>

theorem echo_server_closes:
  assumes "tcp_echo_run None accs ps new_echo_server = Some (s, r)"
  shows "\<not> srv_open s \<and> \<not> cli_open s \<and> es_ready s \<and>
     (\<exists>ws. es_out s = concat ws \<and> length ws \<le> length ps \<and> (\<forall>i < length ws. \<exists>k. ws ! i = take k (taken (ps ! i)))) \<and>
     (\<forall>q qs us. accept_loop accs = Some (Inr True) \<and> ps = us @ q # qs \<and> list_all smooth us \<and> leaves q \<longrightarrow>
        r = Inr () \<and> es_out s = concat (map taken us))"
proof (cases "accept_loop accs = Some (Inr True)")
  case True
  then obtain out n where l: "echo_loop ps [] 0 = Some (out, n, r)" "s = close_both (new_echo_server\<lparr>srv_open := True, es_ready := True,
      es_accepted := True, cli_open := True, es_out := out\<rparr>)"
    using assms by (auto simp: tcp_echo_run_def new_echo_server_def split: option.splits)
  have "\<exists>ws. out = [] @ concat ws \<and> length ws \<le> length ps \<and> (\<forall>i < length ws. \<exists>k. ws ! i = take k (taken (ps ! i)))"
    using echo_loop_output [OF l(1)] by blast
  moreover have "r = Inr () \<and> out = concat (map taken us)" if "ps = us @ q # qs" "list_all smooth us" "leaves q" for q qs us
    using echo_loop_smooth [OF that(2,3), of qs "[]" 0] that(1) l(1) by simp
  ultimately show ?thesis using l(2) by (auto simp: close_both_def)
next
  case False
  then have "s = close_both (new_echo_server\<lparr>srv_open := True, es_ready := True\<rparr>)"
    using assms by (auto simp: tcp_echo_run_def Let_def split: option.splits sum.splits bool.splits)
  then show ?thesis using False by (auto simp: close_both_def new_echo_server_def intro: exI [of _ "[]"])
qed

theorem echo_server_closes_witness:
  "\<exists>s. tcp_echo_run None [(False, Some TimeoutError), (False, None)]
       [\<lparr>ep_stop = False, ep_recv = Inr [7, 8], ep_send = Some (ConnectionError, 1)\<rparr>] new_echo_server = Some (s, Inr ()) \<and>
     \<not> srv_open s \<and> \<not> cli_open s \<and> es_out s = [7]"
proof -
  obtain s where s: "tcp_echo_run None [(False, Some TimeoutError), (False, None)]
       [\<lparr>ep_stop = False, ep_recv = Inr [7, 8], ep_send = Some (ConnectionError, 1)\<rparr>] new_echo_server = Some (s, Inr ())" "es_out s = [7]"
    by (simp add: tcp_echo_run_def new_echo_server_def is_OSError_def close_both_def)
  show ?thesis using s echo_server_closes [OF s(1)] by blast
qed

text \<open>The documented echo is not unconditional: a send that times out is taken for an idle receive, so the tail of its chunk
  is lost and the loop goes on.\<close>

lemma echo_send_timeout_loses_tail:
  "echo_loop [\<lparr>ep_stop = False, ep_recv = Inr [1, 2, 3], ep_send = Some (TimeoutError, 1)\<rparr>,
     \<lparr>ep_stop = False, ep_recv = Inr [4], ep_send = None\<rparr>, \<lparr>ep_stop = True, ep_recv = Inr [], ep_send = None\<rparr>] [] 0 =
   Some ([1, 4], 1, Inr ())"
  by simp

end
