(* ===== verification/Reconnect_Server.thy ===== *)
theory Reconnect_Server
  imports Deadline_Loop
begin

text \<open>
  \<open>_TcpReconnectServer\<close> of \<open>api_tests/32_test_transparent_sniffer.py\<close>: the server thread, which accepts
  and echoes one connection after another, interleaved with the calls the test makes from its
  own thread. A step of the thread is one socket call, one flag test or one locked block; client
  sockets are numbered in the order they are accepted. Setting the timeout of a client that was
  closed in the meantime raises an \<open>OSError\<close> outside every handler of the thread.
\<close>

section \<open>State and steps\<close>

datatype rloc =
    AcceptTop
  | AcceptCall
  | Accepted nat
  | Recorded nat
  | EchoTop nat
  | EchoRecv nat
  | Releasing nat
  | ClosingClient nat
  | ClosingServer
  | REnded
  | RDied exn

record rserver =
  loc :: rloc
  connections :: nat
  current_client :: "nat option"
  stopping :: bool
  server_open :: bool
  clients_open :: "nat set"
  echo_log :: "(nat \<times> bytes) list"
  closing :: "nat option"

text \<open>How the socket call of a step ends: an accepted client, received data with what \<open>sendall\<close> then raises, or an
  exception.\<close>

datatype rcall = AcceptOk | Got bytes "exn option" | Raised exn

definition rs_start :: "exn option \<Rightarrow> rserver" where
  "rs_start bind_exn =
     \<lparr>loc = (case bind_exn of None \<Rightarrow> AcceptTop | Some e \<Rightarrow> RDied e), connections = 0, current_client = None, stopping = False,
      server_open = True, clients_open = {}, echo_log = [], closing = None\<rparr>"

definition echo_exn :: "nat \<Rightarrow> exn \<Rightarrow> rloc" where
  "echo_exn k e = (if e = TimeoutError then EchoTop k else if is_OSError e then Releasing k else RDied e)"

definition thread_step :: "rcall \<Rightarrow> rserver \<Rightarrow> rserver" where
  "thread_step c s =
     (case loc s of
        AcceptTop \<Rightarrow> s\<lparr>loc := if stopping s then ClosingServer else AcceptCall\<rparr>
      | AcceptCall \<Rightarrow>
          (case c of
             Raised e \<Rightarrow> s\<lparr>loc := if e = TimeoutError then AcceptTop else if is_OSError e then ClosingServer else RDied e\<rparr>
           | _ \<Rightarrow> s\<lparr>loc := Accepted (connections s), clients_open := insert (connections s) (clients_open s)\<rparr>)
      | Accepted k \<Rightarrow> s\<lparr>loc := Recorded k, connections := connections s + 1, current_client := Some k\<rparr>
      | Recorded k \<Rightarrow> s\<lparr>loc := if k \<in> clients_open s then EchoTop k else RDied OSError\<rparr>
      | EchoTop k \<Rightarrow> s\<lparr>loc := if stopping s then Releasing k else EchoRecv k\<rparr>
      | EchoRecv k \<Rightarrow>
          (case c of
             Raised e \<Rightarrow> s\<lparr>loc := echo_exn k e\<rparr>
           | AcceptOk \<Rightarrow> s
           | Got data sent \<Rightarrow>
               if data = [] then s\<lparr>loc := Releasing k\<rparr>
               else (case sent of
                       None \<Rightarrow> s\<lparr>loc := EchoTop k, echo_log := echo_log s @ [(k, data)]\<rparr>
                     | Some e \<Rightarrow> s\<lparr>loc := echo_exn k e\<rparr>))
      | Releasing k \<Rightarrow>
          s\<lparr>loc := ClosingClient k, current_client := if current_client s = Some k then None else current_client s\<rparr>
      | ClosingClient k \<Rightarrow> s\<lparr>loc := AcceptTop, clients_open := clients_open s - {k}\<rparr>
      | ClosingServer \<Rightarrow> s\<lparr>loc := REnded, server_open := False\<rparr>
      | REnded \<Rightarrow> s
      | RDied _ \<Rightarrow> s)"

text \<open>\<open>close_current\<close> reads the client under the lock and closes it outside; \<open>stop\<close> sets the event, then closes the
  listening socket.\<close>

definition close_current_read :: "rserver \<Rightarrow> rserver" where
  "close_current_read s = s\<lparr>closing := current_client s\<rparr>"

definition close_current_close :: "rserver \<Rightarrow> rserver" where
  "close_current_close s =
     (case closing s of
        None \<Rightarrow> s
      | Some k \<Rightarrow> s\<lparr>clients_open := clients_open s - {k}, closing := None\<rparr>)"

definition rs_stop_set :: "rserver \<Rightarrow> rserver" where
  "rs_stop_set s = s\<lparr>stopping := True\<rparr>"

definition rs_stop_close :: "rserver \<Rightarrow> rserver" where
  "rs_stop_close s = s\<lparr>server_open := False\<rparr>"

definition wait_connection :: "nat \<Rightarrow> time \<Rightarrow> (time \<times> nat) list \<Rightarrow> bool option" where
  "wait_connection n deadline ps =
     (case deadline_loop (\<lambda>_. True) deadline (\<lambda>c (_ :: unit). if c \<ge> n then Stop True else Next ()) ps () of
        None \<Rightarrow> None
      | Some (Stopped r, _) \<Rightarrow> Some r
      | Some (_, _) \<Rightarrow> Some False)"

datatype raction = Thread rcall | CloseRead | CloseClose | StopSet | StopClose

fun perform :: "raction \<Rightarrow> rserver \<Rightarrow> rserver" where
  "perform (Thread c) = thread_step c"
| "perform CloseRead = close_current_read"
| "perform CloseClose = close_current_close"
| "perform StopSet = rs_stop_set"
| "perform StopClose = rs_stop_close"

section \<open>Interleavings\<close>

text \<open>An accept happens only while the listening socket is open, data is received only on an open client.\<close>

definition possible :: "raction \<Rightarrow> rserver \<Rightarrow> bool" where
  "possible a s \<longleftrightarrow>
     (case (a, loc s) of
        (Thread AcceptOk, AcceptCall) \<Rightarrow> server_open s
      | (Thread (Got _ _), AcceptCall) \<Rightarrow> False
      | (Thread (Got _ _), EchoRecv k) \<Rightarrow> k \<in> clients_open s
      | (Thread AcceptOk, EchoRecv _) \<Rightarrow> False
      | _ \<Rightarrow> True)"

inductive rstep :: "rserver \<Rightarrow> rserver \<Rightarrow> bool" where
  rstepI: "possible a s \<Longrightarrow> rstep s (perform a s)"

inductive_cases rstepE: "rstep s s'"

inductive rreach :: "rserver \<Rightarrow> bool" where
  start: "rreach (rs_start b)"
| step: "rreach s \<Longrightarrow> rstep s s' \<Longrightarrow> rreach s'"

text \<open>The client the thread is holding at a location.\<close>

fun held :: "rloc \<Rightarrow> nat set" where
  "held (Accepted k) = {k}"
| "held (Recorded k) = {k}"
| "held (EchoTop k) = {k}"
| "held (EchoRecv k) = {k}"
| "held (Releasing k) = {k}"
| "held (ClosingClient k) = {k}"
| "held _ = {}"

fun served :: "rloc \<Rightarrow> nat set" where
  "served (Recorded k) = {k}"
| "served (EchoTop k) = {k}"
| "served (EchoRecv k) = {k}"
| "served (Releasing k) = {k}"
| "served _ = {}"

text \<open>The bookkeeping that holds at every location of a live thread.\<close>

definition numbering :: "rserver \<Rightarrow> bool" where
  "numbering s \<longleftrightarrow>
     (case loc s of
        Accepted k \<Rightarrow> connections s = k
      | Recorded k \<Rightarrow> connections s = Suc k
      | ClosingClient k \<Rightarrow> connections s = Suc k
      | EchoTop k \<Rightarrow> connections s = Suc k
      | EchoRecv k \<Rightarrow> connections s = Suc k
      | Releasing k \<Rightarrow> connections s = Suc k
      | _ \<Rightarrow> True)"

definition died :: "rserver \<Rightarrow> bool" where
  "died s \<longleftrightarrow> (case loc s of RDied _ \<Rightarrow> True | _ \<Rightarrow> False)"

definition rinv :: "rserver \<Rightarrow> bool" where
  "rinv s \<longleftrightarrow> numbering s \<and> (died s \<or> clients_open s \<subseteq> held (loc s) \<and> set_option (current_client s) = served (loc s)) \<and>
     (\<forall>k. closing s = Some k \<or> current_client s = Some k \<longrightarrow> k < connections s) \<and> (loc s = REnded \<longrightarrow> \<not> server_open s) \<and>
     list_all (\<lambda>e. fst e < connections s \<and> snd e \<noteq> []) (echo_log s)"

lemma numbering_update [simp]:
  "numbering (s\<lparr>closing := x\<rparr>) = numbering s" "numbering (s\<lparr>clients_open := y\<rparr>) = numbering s"
  "numbering (s\<lparr>stopping := z\<rparr>) = numbering s" "numbering (s\<lparr>server_open := z\<rparr>) = numbering s"
  "died (s\<lparr>closing := x\<rparr>) = died s" "died (s\<lparr>clients_open := y\<rparr>) = died s"
  "died (s\<lparr>stopping := z\<rparr>) = died s" "died (s\<lparr>server_open := z\<rparr>) = died s"
  by (cases "loc s"; simp add: numbering_def died_def)+

lemma rinv_start: "rinv (rs_start b)"
  by (cases b) (simp_all add: rinv_def rs_start_def numbering_def died_def)



lemma thread_step_rinv: "rinv s \<Longrightarrow> rinv (thread_step c s)"
  by (cases "loc s"; cases c)
    (auto simp: rinv_def thread_step_def numbering_def died_def echo_exn_def less_Suc_eq list_all_iff split: option.splits)

lemma perform_rinv: "rinv s \<Longrightarrow> rinv (perform a s)"
proof (cases a)
  case CloseRead
  assume i: "rinv s"
  then show ?thesis using CloseRead by (auto simp: rinv_def close_current_read_def)
next
  case CloseClose
  then show "rinv s \<Longrightarrow> ?thesis"
    by (cases "closing s") (auto simp: rinv_def close_current_close_def)
qed (auto simp: thread_step_rinv, auto simp: rinv_def rs_stop_set_def rs_stop_close_def)

lemma rreach_rinv: "rreach s \<Longrightarrow> rinv s"
  by (induction rule: rreach.induct) (auto simp: rinv_start perform_rinv elim: rstepE)

section \<open>Stopping\<close>

fun rrun :: "raction list \<Rightarrow> rserver \<Rightarrow> rserver option" where
  "rrun [] s = Some s"
| "rrun (a # as) s = (if possible a s then rrun as (perform a s) else None)"

lemma rrun_reach: "rrun as s = Some s' \<Longrightarrow> rreach s \<Longrightarrow> rreach s'"
  by (induction as arbitrary: s) (auto split: if_splits intro: rreach.step rstepI)

fun is_Thread :: "raction \<Rightarrow> bool" where
  "is_Thread (Thread _) \<longleftrightarrow> True"
| "is_Thread _ \<longleftrightarrow> False"

text \<open>The steps a thread can still make once the stop flag is set.\<close>

fun rank :: "rloc \<Rightarrow> nat" where
  "rank AcceptCall = 9"
| "rank (Accepted _) = 8"
| "rank (Recorded _) = 7"
| "rank (EchoRecv _) = 6"
| "rank (EchoTop _) = 5"
| "rank (Releasing _) = 4"
| "rank (ClosingClient _) = 3"
| "rank AcceptTop = 2"
| "rank ClosingServer = 1"
| "rank REnded = 0"
| "rank (RDied _) = 0"

lemma rank_decreases:
  "stopping s \<Longrightarrow> possible (Thread c) s \<Longrightarrow> rank (loc (thread_step c s)) \<le> rank (loc s) - 1"
  by (cases "loc s"; cases c) (auto simp: thread_step_def echo_exn_def possible_def split: option.splits)

lemma perform_stopping: "stopping s \<Longrightarrow> stopping (perform a s)"
  by (cases a) (auto simp: thread_step_def close_current_read_def close_current_close_def rs_stop_set_def rs_stop_close_def
    split: rloc.splits rcall.splits option.splits)

lemma other_keeps_loc: "\<not> is_Thread a \<Longrightarrow> loc (perform a s) = loc s"
  by (cases a) (auto simp: close_current_read_def close_current_close_def rs_stop_set_def rs_stop_close_def split: option.splits)

lemma rrun_rank:
  assumes "rrun as s = Some s'" "stopping s"
  shows "rank (loc s') \<le> rank (loc s) - length (filter is_Thread as)"
  using assms
proof (induction as arbitrary: s)
  case (Cons a as)
  then have p: "possible a s" and r: "rrun as (perform a s) = Some s'" by (auto split: if_splits)
  have IH: "rank (loc s') \<le> rank (loc (perform a s)) - length (filter is_Thread as)"
    using Cons.IH [OF r] perform_stopping Cons.prems(2) by blast
  show ?case
  proof (cases a)
    case (Thread c)
    then show ?thesis using IH rank_decreases [OF Cons.prems(2), of c] p by simp
  qed (use IH other_keeps_loc [of a s] in simp_all)
qed simp

section \<open>Properties\<close>


definition reconnect_demo :: "raction list" where
  "reconnect_demo = replicate 5 (Thread AcceptOk) @ [Thread (Got [1] None), CloseRead, CloseClose, Thread AcceptOk,
     Thread (Raised OSError)] @ replicate 6 (Thread AcceptOk)"

lemma reconnect_demo_run:
  "rrun reconnect_demo (rs_start None) =
     Some \<lparr>loc = EchoTop 1, connections = 2, current_client = Some 1, stopping = False, server_open = True,
           clients_open = {1}, echo_log = [(0, [1])], closing = None\<rparr>"
  by (simp add: reconnect_demo_def rs_start_def possible_def thread_step_def echo_exn_def is_OSError_def
    close_current_read_def close_current_close_def numeral_eq_Suc)




text \<open>A close that hits a connection between its registration and the setting of its timeout ends the server thread by an
  uncaught exception: the listening socket stays open and no further connection is served.\<close>

lemma close_current_can_kill_server:
  "\<exists>s. rrun (replicate 3 (Thread AcceptOk) @ [CloseRead, CloseClose, Thread AcceptOk]) (rs_start None) = Some s \<and>
     loc s = RDied OSError \<and> server_open s \<and> current_client s = Some 0"
  by (simp add: rs_start_def possible_def thread_step_def close_current_read_def close_current_close_def numeral_eq_Suc)

end
