(* ===== verification/Client_Mode.thy ===== *)
theory Client_Mode
  imports Api_Client
begin

text \<open>
  Configuring a port as a transparent TCP client and restoring it:
  \<open>_setup_client_mode_bridge\<close> of \<open>api_tests/25_test_transparent_tcp_e2e.py\<close> and
  \<open>_teardown_client_mode_bridge\<close> of \<open>32_test_transparent_sniffer.py\<close> (each file has both), on the HTTP
  client of \<^theory_text>\<open>Api_Client\<close>. What \<open>resp.json()\<close> yields belongs to the \<open>requests\<close> package and is a
  parameter.
\<close>

section \<open>JSON documents\<close>

text \<open>\<open>x.get(k, d)\<close>, which only a dict has.\<close>

definition jget :: "json \<Rightarrow> string \<Rightarrow> json \<Rightarrow> json res" where
  "jget x k d =
     (case x of
        JObj kvs \<Rightarrow> Inr (case map_of kvs k of Some v \<Rightarrow> v | None \<Rightarrow> d)
      | _ \<Rightarrow> Inl AttributeError)"

text \<open>\<open>k in x\<close> on a JSON value, and \<open>x[k]\<close>.\<close>

definition jin :: "string \<Rightarrow> json \<Rightarrow> bool res" where
  "jin k x =
     (case x of
        JObj kvs \<Rightarrow> Inr (map_of kvs k \<noteq> None)
      | JArr xs \<Rightarrow> Inr (JStr k \<in> set xs)
      | JStr s \<Rightarrow> Inr (py_in k s)
      | _ \<Rightarrow> Inl TypeError)"

definition jindex :: "string \<Rightarrow> json \<Rightarrow> json res" where
  "jindex k x =
     (case x of
        JObj kvs \<Rightarrow> (case map_of kvs k of Some v \<Rightarrow> Inr v | None \<Rightarrow> Inl KeyError)
      | _ \<Rightarrow> Inl TypeError)"

text \<open>\<open>dict(x)\<close>; a non-empty array is never a port's settings.\<close>

fun py_dict :: "json \<Rightarrow> (string \<times> json) list res" where
  "py_dict (JObj kvs) = Inr kvs"
| "py_dict (JArr []) = Inr []"
| "py_dict (JArr (_ # _)) = Inl ValueError"
| "py_dict (JStr []) = Inr []"
| "py_dict (JStr (_ # _)) = Inl ValueError"
| "py_dict _ = Inl TypeError"

text \<open>\<open>d[k] = v\<close>: in place for a key that is there, at the end for a new one.\<close>

fun jset :: "string \<Rightarrow> json \<Rightarrow> (string \<times> json) list \<Rightarrow> (string \<times> json) list" where
  "jset k v [] = [(k, v)]"
| "jset k v ((k', v') # kvs) = (if k' = k then (k, v) # kvs else (k', v') # jset k v kvs)"

section \<open>Setup\<close>

definition pause :: "rat \<Rightarrow> api \<Rightarrow> api" where
  "pause s api = api\<lparr>acts := acts api @ [Sleep s]\<rparr>"

text \<open>\<open>resp = api.set_port_mode(...); assert resp.status_code == 200\<close>, with the default retries.\<close>

definition assert_mode :: "int \<Rightarrow> json \<Rightarrow> reply list \<Rightarrow> api \<Rightarrow> (unit res \<times> api) option" where
  "assert_mode port_num mode outs api =
     (case set_port_mode port_num mode 2 (1/2) outs api of
        None \<Rightarrow> None
      | Some (Inl e, api) \<Rightarrow> Some (Inl e, api)
      | Some (Inr None, api) \<Rightarrow> Some (Inl AttributeError, api)
      | Some (Inr (Some resp), api) \<Rightarrow> Some (if status_code resp = 200 then Inr () else Inl AssertionError, api))"

definition rs485_key :: "int \<Rightarrow> string" where
  "rs485_key port_num = ''rs485_'' @ py_str port_num"

definition client_bridge :: "string \<Rightarrow> int \<Rightarrow> json" where
  "client_bridge bridge_ip bridge_port =
     JObj [(''mode'', JStr ''client''), (''port'', JNum (of_int bridge_port)), (''ip'', JStr bridge_ip), (''modbus'', JBool False)]"

text \<open>What the four calls meet, in order.\<close>

record setup_env =
  se_get :: reply
  se_disable :: "reply list"
  se_update :: reply
  se_mode :: "reply list"

text \<open>The checks on the answer to \<open>POST /settings\<close>.\<close>

definition settings_accepted :: "(response \<Rightarrow> json res) \<Rightarrow> response \<Rightarrow> unit res" where
  "settings_accepted js resp =
     (if status_code resp \<noteq> 200 then Inl AssertionError
      else rbind (js resp) (\<lambda>result. rbind (jget result ''success'' JNull) (\<lambda>v.
        if v = JBool True then Inr () else Inl AssertionError)))"

definition setup_client_mode_bridge ::
  "(response \<Rightarrow> json res) \<Rightarrow> int \<Rightarrow> string \<Rightarrow> int \<Rightarrow> setup_env \<Rightarrow> api \<Rightarrow> ((json \<times> string) res \<times> api) option" where
  "setup_client_mode_bridge js port_num bridge_ip bridge_port env api =
     (case get_settings (se_get env) api of
        (Inl e, api) \<Rightarrow> Some (Inl e, api)
      | (Inr resp, api) \<Rightarrow>
          (case (if status_code resp \<noteq> 200 then Inl AssertionError else js resp) of
             Inl e \<Rightarrow> Some (Inl e, api)
           | Inr original_settings \<Rightarrow>
               (let key = rs485_key port_num in
                case assert_mode port_num (JStr ''disabled'') (se_disable env) api of
                  None \<Rightarrow> None
                | Some (Inl e, api) \<Rightarrow> Some (Inl e, api)
                | Some (Inr _, api) \<Rightarrow>
                    (let api = pause (3/10) api in
                     case rbind (jget original_settings key (JObj [])) py_dict of
                       Inl e \<Rightarrow> Some (Inl e, api)
                     | Inr port_settings \<Rightarrow>
                         (case update_settings (se_update env)
                                 (JObj [(key, JObj (jset ''bridge'' (client_bridge bridge_ip bridge_port) port_settings))]) api of
                            (Inl e, api) \<Rightarrow> Some (Inl e, api)
                          | (Inr resp, api) \<Rightarrow>
                              (case settings_accepted js resp of
                                 Inl e \<Rightarrow> Some (Inl e, api)
                               | Inr _ \<Rightarrow>
                                   (case assert_mode port_num (JStr ''tcp_bridge'') (se_mode env) (pause (3/10) api) of
                                      None \<Rightarrow> None
                                    | Some (Inl e, api) \<Rightarrow> Some (Inl e, api)
                                    | Some (Inr _, api) \<Rightarrow> Some (Inr (original_settings, key), api))))))))"

section \<open>Teardown\<close>

record teardown_env =
  te_disable :: "reply list"
  te_update :: reply
  te_mode :: "reply list"

text \<open>\<open>try: ... except Exception\<close> around a step, then the next one.\<close>

definition best_effort :: "('a res \<times> api) option \<Rightarrow> (api \<Rightarrow> (unit res \<times> api) option) \<Rightarrow> (unit res \<times> api) option" where
  "best_effort r k =
     (case r of
        None \<Rightarrow> None
      | Some (Inl e, api) \<Rightarrow> if is_Exception e then k api else Some (Inl e, api)
      | Some (Inr _, api) \<Rightarrow> k api)"

definition switch_mode :: "int \<Rightarrow> json \<Rightarrow> reply list \<Rightarrow> api \<Rightarrow> (response option res \<times> api) option" where
  "switch_mode port_num mode outs api =
     (case set_port_mode port_num mode 2 (1/2) outs api of
        None \<Rightarrow> None
      | Some (Inl e, api) \<Rightarrow> Some (Inl e, api)
      | Some (Inr r, api) \<Rightarrow> Some (Inr r, pause (3/10) api))"

definition original_mode :: "json \<Rightarrow> string \<Rightarrow> json res" where
  "original_mode original_settings key =
     rbind (jget original_settings key (JObj [])) (\<lambda>p. jget p ''port_mode'' (JStr ''disabled''))"

definition restore_mode :: "int \<Rightarrow> json \<Rightarrow> string \<Rightarrow> reply list \<Rightarrow> api \<Rightarrow> (response option res \<times> api) option" where
  "restore_mode port_num original_settings key outs api =
     (case original_mode original_settings key of
        Inl e \<Rightarrow> Some (Inl e, api)
      | Inr mode \<Rightarrow> switch_mode port_num mode outs api)"

definition teardown_client_mode_bridge :: "int \<Rightarrow> json \<Rightarrow> string \<Rightarrow> teardown_env \<Rightarrow> api \<Rightarrow> (unit res \<times> api) option" where
  "teardown_client_mode_bridge port_num original_settings key env api =
     best_effort (switch_mode port_num (JStr ''disabled'') (te_disable env) api) (\<lambda>api.
     best_effort (Some (update_settings (te_update env) original_settings api)) (\<lambda>api.
     best_effort (restore_mode port_num original_settings key (te_mode env) api) (\<lambda>api.
       Some (Inr (), api))))"

section \<open>Lemmas\<close>

definition requests :: "api \<Rightarrow> request list" where
  "requests api = concat (map (\<lambda>a. case a of Request r \<Rightarrow> [r] | _ \<Rightarrow> []) (acts api))"

lemma requests_pause [simp]: "requests (pause s api) = requests api" "base_url (pause s api) = base_url api"
  by (simp_all add: requests_def pause_def)

lemma session_request_requests:
  assumes "session_request out m path body tmo api = (r, api')"
  shows "requests api' = requests api @ [\<lparr>meth = m, url = base_url api @ path, req_json = body, req_timeout = tmo\<rparr>]"
    "base_url api' = base_url api" "r = fst out"
  using assms by (auto simp: session_request_def requests_def)

lemma mode_attempts_requests:
  assumes "mode_attempts as p m R s outs resp api = Some (r, api')"
  shows "\<exists>k \<le> length as. requests api' = requests api @ replicate k (mode_request api p m) \<and> base_url api' = base_url api \<and>
     (as \<noteq> [] \<longrightarrow> 1 \<le> k) \<and> (\<forall>e. r = Inl e \<longrightarrow> (\<exists>out \<in> set outs. fst out = Inl e))"
  using assms
proof (induction as arbitrary: outs resp api)
  case (Cons a as)
  then obtain out outs' where o: "outs = out # outs'" by (cases outs) auto
  let ?api = "api\<lparr>acts := acts api @ [Sleep DELAY_S, Request (mode_request api p m)], sess := (sess api)\<lparr>cookies := snd out\<rparr>\<rparr>"
  have q: "requests ?api = requests api @ [mode_request api p m]" by (simp add: requests_def)
  show ?case
  proof (cases "fst out")
    case (Inl e)
    then show ?thesis using Cons.prems o q by (auto simp: post_mode_eq intro!: exI [of _ 1])
  next
    case (Inr x)
    show ?thesis
    proof (cases "transient x")
      case False
      then show ?thesis using Cons.prems o Inr q by (auto simp: post_mode_eq intro!: exI [of _ 1])
    next
      case True
      define api1 where "api1 = (if a < R then ?api\<lparr>acts := acts ?api @ [Sleep s]\<rparr> else ?api)"
      have a1: "requests api1 = requests api @ [mode_request api p m]" "base_url api1 = base_url api" "mode_request api1 p m = mode_request api p m"
        using q by (simp_all add: api1_def requests_def mode_request_def)
      have "mode_attempts as p m R s outs' (Some x) api1 = Some (r, api')"
        using Cons.prems o Inr True by (simp add: post_mode_eq api1_def)
      from Cons.IH [OF this] obtain k where "k \<le> length as" "requests api' = requests api1 @ replicate k (mode_request api1 p m)"
        "base_url api' = base_url api1" "\<forall>e. r = Inl e \<longrightarrow> (\<exists>out \<in> set outs'. fst out = Inl e)" by blast
      then show ?thesis using a1 o by (intro exI [of _ "Suc k"]) auto
    qed
  qed
qed auto

lemma mode_attempts_total: "length as \<le> length outs \<Longrightarrow> \<exists>r api'. mode_attempts as p m R s outs resp api = Some (r, api')"
proof (induction as arbitrary: outs resp api)
  case (Cons a as)
  then obtain out outs' where "outs = out # outs'" by (cases outs) auto
  then show ?case using Cons by (auto split: sum.splits prod.splits)
qed simp

lemma set_port_mode_requests:
  assumes "set_port_mode p m 2 s outs api = Some (r, api')"
  shows "\<exists>k. 1 \<le> k \<and> k \<le> 3 \<and> requests api' = requests api @ replicate k (mode_request api p m) \<and> base_url api' = base_url api \<and>
     (\<forall>e. r = Inl e \<longrightarrow> (\<exists>out \<in> set outs. fst out = Inl e))"
proof -
  have "[0..2] = [0, 1, 2 :: int]" by (simp add: upto.simps)
  then show ?thesis using mode_attempts_requests [of "[0..2]"] assms by (fastforce simp: set_port_mode_def)
qed

lemma set_port_mode_total: "3 \<le> length outs \<Longrightarrow> \<exists>r api'. set_port_mode p m 2 s outs api = Some (r, api')"
proof -
  assume "3 \<le> length outs"
  moreover have "[0..2] = [0, 1, 2 :: int]" by (simp add: upto.simps)
  ultimately show ?thesis using mode_attempts_total [of "[0..2]" outs] by (simp add: set_port_mode_def)
qed

lemma assert_mode_requests:
  assumes "assert_mode p m outs api = Some (r, api')"
  shows "\<exists>k. 1 \<le> k \<and> k \<le> 3 \<and> requests api' = requests api @ replicate k (mode_request api p m) \<and> base_url api' = base_url api"
proof -
  obtain r1 where "set_port_mode p m 2 (1/2) outs api = Some (r1, api')"
    using assms by (auto simp: assert_mode_def split: option.splits sum.splits prod.splits)
  then show ?thesis using set_port_mode_requests by blast
qed

lemma switch_mode_requests:
  assumes "switch_mode p m outs api = Some (r, api')"
  shows "\<exists>k. 1 \<le> k \<and> k \<le> 3 \<and> requests api' = requests api @ replicate k (mode_request api p m) \<and> base_url api' = base_url api \<and>
     (\<forall>e. r = Inl e \<longrightarrow> (\<exists>out \<in> set outs. fst out = Inl e))"
proof -
  obtain r1 api1 where r1: "set_port_mode p m 2 (1/2) outs api = Some (r1, api1)"
    "requests api' = requests api1" "base_url api' = base_url api1" "\<And>e. r = Inl e \<Longrightarrow> r1 = Inl e"
    using assms by (auto simp: switch_mode_def split: option.splits sum.splits prod.splits)
  then show ?thesis using set_port_mode_requests [OF r1(1)] by auto
qed

lemma switch_mode_total: "3 \<le> length outs \<Longrightarrow> \<exists>r api'. switch_mode p m outs api = Some (r, api')"
  using set_port_mode_total [of outs p m "1/2" api] by (auto simp: switch_mode_def split: sum.splits)

lemma map_of_jset: "map_of (jset k v kvs) k' = (if k' = k then Some v else map_of kvs k')"
  by (induction kvs) auto

definition settings_request :: "api \<Rightarrow> json \<Rightarrow> request" where
  "settings_request api doc =
     \<lparr>meth = ''POST'', url = base_url api @ ''/settings'', req_json = Some doc, req_timeout = 30\<rparr>"

lemma mode_request_base: "base_url api' = base_url api \<Longrightarrow> mode_request api' p m = mode_request api p m"
  by (simp add: mode_request_def)

lemma setup_requests:
  assumes "setup_client_mode_bridge js p ip bp env api = Some (Inr (orig, key), api')"
  shows "\<exists>resp ps k1 k2. fst (se_get env) = Inr resp \<and> js resp = Inr orig \<and> key = rs485_key p \<and>
     rbind (jget orig key (JObj [])) py_dict = Inr ps \<and> 1 \<le> k1 \<and> k1 \<le> 3 \<and> 1 \<le> k2 \<and> k2 \<le> 3 \<and> base_url api' = base_url api \<and>
     requests api' = requests api @ [\<lparr>meth = ''GET'', url = base_url api @ ''/settings'', req_json = None, req_timeout = 30\<rparr>] @
       replicate k1 (mode_request api p (JStr ''disabled'')) @
       [settings_request api (JObj [(key, JObj (jset ''bridge'' (client_bridge ip bp) ps))])] @
       replicate k2 (mode_request api p (JStr ''tcp_bridge''))"
proof -
  obtain resp api1 api2 ps resp3 api3 api4 where
    1: "session_request (se_get env) ''GET'' ''/settings'' None 30 api = (Inr resp, api1)" and js: "js resp = Inr orig" and key: "key = rs485_key p" and
    2: "assert_mode p (JStr ''disabled'') (se_disable env) api1 = Some (Inr (), api2)" and
    ps: "rbind (jget orig key (JObj [])) py_dict = Inr ps" and
    3: "session_request (se_update env) ''POST'' ''/settings''
          (Some (JObj [(key, JObj (jset ''bridge'' (client_bridge ip bp) ps))])) 30 (pause (3/10) api2) = (Inr resp3, api3)" and
    4: "assert_mode p (JStr ''tcp_bridge'') (se_mode env) (pause (3/10) api3) = Some (Inr (), api')"
    using assms by (auto simp: setup_client_mode_bridge_def get_settings_def update_settings_def Let_def
        split: option.splits sum.splits prod.splits if_splits)
  note r1 = session_request_requests [OF 1] and r3 = session_request_requests [OF 3]
  obtain k1 where k1: "1 \<le> k1" "k1 \<le> 3" "requests api2 = requests api1 @ replicate k1 (mode_request api1 p (JStr ''disabled''))"
    "base_url api2 = base_url api1" using assert_mode_requests [OF 2] by blast
  obtain k2 where k2: "1 \<le> k2" "k2 \<le> 3" "base_url api' = base_url api3"
    "requests api' = requests api3 @ replicate k2 (mode_request (pause (3/10) api3) p (JStr ''tcp_bridge''))"
    using assert_mode_requests [OF 4] by auto
  have b: "base_url api3 = base_url api" using r1(2) r3(2) k1(4) by simp
  have m: "mode_request api1 p x = mode_request api p x" "mode_request (pause (3/10) api3) p x = mode_request api p x" for x
    using r1(2) b by (simp_all add: mode_request_def)
  have "requests api' = requests api @ [\<lparr>meth = ''GET'', url = base_url api @ ''/settings'', req_json = None, req_timeout = 30\<rparr>] @
       replicate k1 (mode_request api p (JStr ''disabled'')) @
       [settings_request api (JObj [(key, JObj (jset ''bridge'' (client_bridge ip bp) ps))])] @
       replicate k2 (mode_request api p (JStr ''tcp_bridge''))"
    using r1(1,2) r3(1) k1(3,4) k2(4) m by (simp add: settings_request_def)
  moreover have "fst (se_get env) = Inr resp" using r1(3) by simp
  moreover have "base_url api' = base_url api" using k2(3) b by simp
  ultimately show ?thesis using js key ps k1(1,2) k2(1,2)
    by (intro exI [of _ resp] exI [of _ ps] exI [of _ k1] exI [of _ k2]) (simp only: simp_thms)
qed

text \<open>Replies that fail at most with what \<open>except Exception\<close> catches.\<close>

definition ordinary :: "reply \<Rightarrow> bool" where
  "ordinary out \<longleftrightarrow> (\<forall>e. fst out = Inl e \<longrightarrow> is_Exception e)"

lemma ordinary_raise: "list_all ordinary outs \<Longrightarrow> (\<forall>e. r = Inl e \<longrightarrow> (\<exists>out \<in> set outs. fst out = Inl e)) \<Longrightarrow> r = Inl e \<Longrightarrow> is_Exception e"
  by (auto simp: list_all_iff ordinary_def)

lemma best_effort_ordinary:
  assumes "r = Some (x, api1)" "\<And>e. x = Inl e \<Longrightarrow> is_Exception e"
  shows "best_effort r k = k api1"
  using assms by (cases x) (simp_all add: best_effort_def)

lemma jget_raises: "jget x k d = Inl e \<Longrightarrow> is_Exception e"
  by (cases x) (auto simp: jget_def)

lemma teardown_requests:
  assumes "list_all ordinary (te_disable env)" "ordinary (te_update env)" "list_all ordinary (te_mode env)"
    and "3 \<le> length (te_disable env)" "3 \<le> length (te_mode env)"
  shows "\<exists>api' k1 k2. teardown_client_mode_bridge p orig key env api = Some (Inr (), api') \<and> 1 \<le> k1 \<and> k1 \<le> 3 \<and>
     (case original_mode orig key of
        Inl _ \<Rightarrow> requests api' = requests api @ replicate k1 (mode_request api p (JStr ''disabled'')) @ [settings_request api orig]
      | Inr m \<Rightarrow> 1 \<le> k2 \<and> k2 \<le> 3 \<and>
          requests api' = requests api @ replicate k1 (mode_request api p (JStr ''disabled'')) @ [settings_request api orig] @
            replicate k2 (mode_request api p m))"
proof -
  obtain r1 api1 where 1: "switch_mode p (JStr ''disabled'') (te_disable env) api = Some (r1, api1)"
    using switch_mode_total assms(4) by blast
  obtain k1 where k1: "1 \<le> k1" "k1 \<le> 3" "requests api1 = requests api @ replicate k1 (mode_request api p (JStr ''disabled''))"
    "base_url api1 = base_url api" "\<forall>e. r1 = Inl e \<longrightarrow> (\<exists>out \<in> set (te_disable env). fst out = Inl e)"
    using switch_mode_requests [OF 1] by blast
  obtain r2 api2 where 2: "update_settings (te_update env) orig api1 = (r2, api2)" by fastforce
  have r2: "requests api2 = requests api1 @ [settings_request api orig]" "base_url api2 = base_url api" "\<And>e. r2 = Inl e \<Longrightarrow> is_Exception e"
    using session_request_requests [OF 2 [unfolded update_settings_def]] k1(4) assms(2)
    by (auto simp: settings_request_def ordinary_def)
  have t: "teardown_client_mode_bridge p orig key env api =
      best_effort (restore_mode p orig key (te_mode env) api2) (\<lambda>api. Some (Inr (), api))"
    using best_effort_ordinary [OF 1 ordinary_raise [OF assms(1) k1(5)]] best_effort_ordinary [OF arg_cong [OF 2, of Some] r2(3)]
    by (simp add: teardown_client_mode_bridge_def)
  show ?thesis
  proof (cases "original_mode orig key")
    case (Inl e)
    then have "is_Exception e" by (auto simp: original_mode_def rbind_eq_Inl dest: jget_raises)
    then have "teardown_client_mode_bridge p orig key env api = Some (Inr (), api2)"
      using t Inl by (simp add: restore_mode_def best_effort_def)
    then show ?thesis using Inl k1 r2 by auto
  next
    case (Inr m)
    obtain r3 api3 where 3: "switch_mode p m (te_mode env) api2 = Some (r3, api3)" using switch_mode_total assms(5) by blast
    obtain k2 where k2: "1 \<le> k2" "k2 \<le> 3" "requests api3 = requests api2 @ replicate k2 (mode_request api2 p m)"
      "\<forall>e. r3 = Inl e \<longrightarrow> (\<exists>out \<in> set (te_mode env). fst out = Inl e)"
      using switch_mode_requests [OF 3] by blast
    have "teardown_client_mode_bridge p orig key env api = Some (Inr (), api3)"
      using t Inr 3 best_effort_ordinary [OF 3 ordinary_raise [OF assms(3) k2(4)]] by (simp add: restore_mode_def)
    moreover have "mode_request api2 p m = mode_request api p m" using r2(2) by (simp add: mode_request_def)
    ultimately show ?thesis using Inr k1(1-3) k2(1-3) r2(1) by auto
  qed
qed

section \<open>Properties\<close>

text \<open>C22: a client-mode test leaves the device as it found it. A setup that returns has read the settings, disabled the
  port, posted the port's own settings with nothing but the bridge replaced, and switched the port on, each mode change
  sent at most three times; the teardown that follows returns whatever its requests meet, short of an interrupt, and sends
  in every case the disable, the very document the setup had read, and the port's original mode.\<close>

theorem client_mode_restored:
  assumes "setup_client_mode_bridge js p ip bp env api = Some (Inr (orig, key), api1)"
    and "list_all ordinary (te_disable tenv)" "ordinary (te_update tenv)" "list_all ordinary (te_mode tenv)"
    and "3 \<le> length (te_disable tenv)" "3 \<le> length (te_mode tenv)"
    and "original_mode orig key = Inr m"
  shows "\<exists>resp ps ps' api2 n1 n2 n3 n4. fst (se_get env) = Inr resp \<and> js resp = Inr orig \<and> jget orig (rs485_key p) (JObj []) = Inr (JObj ps) \<and>
     (\<forall>k. map_of ps' k = (if k = ''bridge'' then Some (client_bridge ip bp) else map_of ps k)) \<and>
     teardown_client_mode_bridge p orig key tenv api1 = Some (Inr (), api2) \<and> {n1, n2, n3, n4} \<subseteq> {1..3} \<and>
     requests api2 = requests api @ [\<lparr>meth = ''GET'', url = base_url api @ ''/settings'', req_json = None, req_timeout = 30\<rparr>] @
       replicate n1 (mode_request api p (JStr ''disabled'')) @ [settings_request api (JObj [(rs485_key p, JObj ps')])] @
       replicate n2 (mode_request api p (JStr ''tcp_bridge'')) @
       replicate n3 (mode_request api p (JStr ''disabled'')) @ [settings_request api orig] @
       replicate n4 (mode_request api p m)"
proof -
  obtain resp ps n1 n2 where s: "fst (se_get env) = Inr resp" "js resp = Inr orig" "key = rs485_key p"
     "rbind (jget orig key (JObj [])) py_dict = Inr ps" "1 \<le> n1 \<and> n1 \<le> 3 \<and> 1 \<le> n2 \<and> n2 \<le> 3" "base_url api1 = base_url api"
     "requests api1 = requests api @ [\<lparr>meth = ''GET'', url = base_url api @ ''/settings'', req_json = None, req_timeout = 30\<rparr>] @
       replicate n1 (mode_request api p (JStr ''disabled'')) @
       [settings_request api (JObj [(key, JObj (jset ''bridge'' (client_bridge ip bp) ps))])] @
       replicate n2 (mode_request api p (JStr ''tcp_bridge''))"
    using setup_requests [OF assms(1)] by blast
  obtain api2 n3 n4 where t: "teardown_client_mode_bridge p orig key tenv api1 = Some (Inr (), api2)" "1 \<le> n3 \<and> n3 \<le> 3 \<and> 1 \<le> n4 \<and> n4 \<le> 3"
     "requests api2 = requests api1 @ replicate n3 (mode_request api1 p (JStr ''disabled'')) @ [settings_request api1 orig] @
            replicate n4 (mode_request api1 p m)"
    using teardown_requests [OF assms(2-6), of p orig key api1] assms(7) by auto
  have m: "mode_request api1 p x = mode_request api p x" "settings_request api1 orig = settings_request api orig" for x
    using s(6) by (simp_all add: mode_request_def settings_request_def)
  obtain v where v: "jget orig key (JObj []) = Inr v" "py_dict v = Inr ps" using s(4) by (auto simp: rbind_eq_Inr)
  have "jget v ''port_mode'' (JStr ''disabled'') = Inr m" using assms(7) v(1) by (simp add: original_mode_def)
  then have "v = JObj ps" using v(2) by (cases v) (simp_all add: jget_def)
  then have ps: "jget orig (rs485_key p) (JObj []) = Inr (JObj ps)" using v(1) s(3) by simp
  have n: "{n1, n2, n3, n4} \<subseteq> {1..3}" using s(5) t(2) by simp
  have "requests api2 = requests api @ [\<lparr>meth = ''GET'', url = base_url api @ ''/settings'', req_json = None, req_timeout = 30\<rparr>] @
       replicate n1 (mode_request api p (JStr ''disabled'')) @
       [settings_request api (JObj [(rs485_key p, JObj (jset ''bridge'' (client_bridge ip bp) ps))])] @
       replicate n2 (mode_request api p (JStr ''tcp_bridge'')) @
       replicate n3 (mode_request api p (JStr ''disabled'')) @ [settings_request api orig] @
       replicate n4 (mode_request api p m)"
    using s(3,7) t(3) m by simp
  moreover have "\<forall>k. map_of (jset ''bridge'' (client_bridge ip bp) ps) k = (if k = ''bridge'' then Some (client_bridge ip bp) else map_of ps k)"
    by (simp add: map_of_jset)
  ultimately show ?thesis using s(1,2) ps t(1) n by metis
qed

definition cm_ok :: reply where
  "cm_ok = (Inr \<lparr>status_code = 200, resp_text = ''''\<rparr>, [])"

definition cm_doc :: json where
  "cm_doc = JObj [(''rs485_1'', JObj [(''port_mode'', JStr ''passive''), (''baud'', JNum 9600)]), (''success'', JBool True)]"

theorem client_mode_restored_witness:
  "\<exists>api1 api2. setup_client_mode_bridge (\<lambda>_. Inr cm_doc) 1 ''10.0.2.2'' 5000
       \<lparr>se_get = cm_ok, se_disable = [cm_ok], se_update = cm_ok, se_mode = [cm_ok]\<rparr> (new_api 0 (Some ''u'')) = Some (Inr (cm_doc, ''rs485_1''), api1) \<and>
     teardown_client_mode_bridge 1 cm_doc ''rs485_1''
       \<lparr>te_disable = replicate 3 (Inl RequestException, []), te_update = (Inl RequestException, []), te_mode = replicate 3 cm_ok\<rparr> api1 = Some (Inr (), api2) \<and>
     last (requests api2) = mode_request (new_api 0 (Some ''u'')) 1 (JStr ''passive'')"
proof -
  let ?js = "\<lambda>_. Inr cm_doc" and ?api = "new_api 0 (Some ''u'')"
  let ?env = "\<lparr>se_get = cm_ok, se_disable = [cm_ok], se_update = cm_ok, se_mode = [cm_ok]\<rparr>"
  let ?tenv = "\<lparr>te_disable = replicate 3 (Inl RequestException, []), te_update = (Inl RequestException, []), te_mode = replicate 3 cm_ok\<rparr>"
  have k: "rs485_key 1 = ''rs485_1''" by code_simp
  have up: "[0..2] = [0, 1, 2 :: int]" by (simp add: upto.simps)
  have am: "\<exists>api'. assert_mode 1 m [cm_ok] api = Some (Inr (), api')" for m api
    by (simp add: assert_mode_def set_port_mode_def up post_mode_def session_request_def cm_ok_def transient_def)
  obtain api1 where s: "setup_client_mode_bridge ?js 1 ''10.0.2.2'' 5000 ?env ?api = Some (Inr (cm_doc, ''rs485_1''), api1)"
  proof -
    obtain a1 where a1: "get_settings cm_ok ?api = (Inr \<lparr>status_code = 200, resp_text = ''''\<rparr>, a1)"
      by (simp add: get_settings_def session_request_def cm_ok_def)
    obtain a2 where a2: "assert_mode 1 (JStr ''disabled'') [cm_ok] a1 = Some (Inr (), a2)" using am by blast
    obtain a3 where a3: "update_settings cm_ok d (pause (3/10) a2) = (Inr \<lparr>status_code = 200, resp_text = ''''\<rparr>, a3 d)" for d
      by (simp add: update_settings_def session_request_def cm_ok_def)
    define a4 where "a4 d = snd (the (assert_mode 1 (JStr ''tcp_bridge'') [cm_ok] (pause (3/10) (a3 d))))" for d
    have a4: "assert_mode 1 (JStr ''tcp_bridge'') [cm_ok] (pause (3/10) (a3 d)) = Some (Inr (), a4 d)" for d
      using am [of "JStr ''tcp_bridge''" "pause (3/10) (a3 d)"] by (auto simp: a4_def)
    have "\<exists>api1. setup_client_mode_bridge ?js 1 ''10.0.2.2'' 5000 ?env ?api = Some (Inr (cm_doc, ''rs485_1''), api1)"
      using a1 a2 a3 a4 by (simp add: setup_client_mode_bridge_def k cm_doc_def jget_def settings_accepted_def Let_def)
    then show thesis using that by blast
  qed
  have h: "list_all ordinary (te_disable ?tenv)" "ordinary (te_update ?tenv)" "list_all ordinary (te_mode ?tenv)"
    "3 \<le> length (te_disable ?tenv)" "3 \<le> length (te_mode ?tenv)"
    by (simp_all add: ordinary_def cm_ok_def list_all_iff)
  have o: "original_mode cm_doc ''rs485_1'' = Inr (JStr ''passive'')"
    by (simp add: original_mode_def cm_doc_def jget_def)
  obtain n1 n2 n3 n4 :: nat and ps' api2 where "teardown_client_mode_bridge 1 cm_doc ''rs485_1'' ?tenv api1 = Some (Inr (), api2)"
     and n: "{n1, n2, n3, n4} \<subseteq> {1..3}"
     and "requests api2 = requests ?api @ [\<lparr>meth = ''GET'', url = base_url ?api @ ''/settings'', req_json = None, req_timeout = 30\<rparr>] @
       replicate n1 (mode_request ?api 1 (JStr ''disabled'')) @ [settings_request ?api (JObj [(rs485_key 1, JObj ps')])] @
       replicate n2 (mode_request ?api 1 (JStr ''tcp_bridge'')) @
       replicate n3 (mode_request ?api 1 (JStr ''disabled'')) @ [settings_request ?api cm_doc] @
       replicate n4 (mode_request ?api 1 (JStr ''passive''))"
    using client_mode_restored [OF s h o] by (elim exE conjE) (rule that; assumption)
  moreover have "n4 \<noteq> 0" using n by auto
  ultimately show ?thesis using s by simp
qed

end
