(* ===== verification/Gateway_Client.thy ===== *)
theory Gateway_Client
  imports Modbus_Tcp Rtu_Slave
begin

text \<open>
  The clients that drive the Modbus gateway: the \<open>_GatewayDriver\<close> thread of
  \<open>api_tests/41_test_bridge_overlay_e2e.py\<close> (repeated in \<open>42_test_sniffer_cache_overlays_e2e.py\<close>) and the
  \<open>_GatewayConn\<close> connection of \<open>42_test_sniffer_cache_overlays_e2e.py\<close>, on the exchange of \<^theory_text>\<open>Modbus_Tcp\<close>.
\<close>

section \<open>Constants\<close>

definition SLAVE_ID :: int where "SLAVE_ID = 1"
definition FC03 :: int where "FC03 = 0x03"
definition READ_COUNT :: int where "READ_COUNT = 2"
definition HOLDING_ADDR :: int where "HOLDING_ADDR = 40"
definition TOGGLE_READ_COUNT :: int where "TOGGLE_READ_COUNT = 1"

text \<open>What the clients append to \<open>errors\<close>.\<close>

datatype gw_error = ConnectErr exn | ExchangeErr exn | ModbusErr int int | ShortPayload bytes

definition next_tid :: "int \<Rightarrow> int" where
  "next_tid tid = (tid mod 0xFFFF) + 1"

section \<open>The driver thread\<close>

record gw_driver =
  d_slave :: int
  d_fc :: int
  d_addr :: int
  d_count :: int
  d_ok :: int
  d_errors :: "gw_error list"
  d_sock :: tsock
  d_open :: bool

definition new_driver :: "int \<Rightarrow> int \<Rightarrow> int \<Rightarrow> int \<Rightarrow> tsock \<Rightarrow> gw_driver" where
  "new_driver slave fc addr cnt sock =
     \<lparr>d_slave = slave, d_fc = fc, d_addr = addr, d_count = cnt, d_ok = 0, d_errors = [], d_sock = sock, d_open = False\<rparr>"

text \<open>The loop, over the readings of the stop event; \<open>None\<close> while it is still running.\<close>

fun driver_loop :: "bool list \<Rightarrow> int \<Rightarrow> gw_driver \<Rightarrow> (unit res \<times> gw_driver) option" where
  "driver_loop [] tid d = None"
| "driver_loop (stop # stops) tid d =
     (if stop then Some (Inr (), d)
      else
        (case make_mbap_request tid (d_slave d) (d_fc d) (d_addr d) (d_count d) of
           Inl e \<Rightarrow> Some (Inr (), d\<lparr>d_errors := d_errors d @ [ExchangeErr e]\<rparr>)
         | Inr req \<Rightarrow>
             (case send_and_receive (d_sock d) req of
                (Inl e, sock) \<Rightarrow>
                  if is_Exception e then Some (Inr (), d\<lparr>d_sock := sock, d_errors := d_errors d @ [ExchangeErr e]\<rparr>)
                  else Some (Inl e, d\<lparr>d_sock := sock\<rparr>)
              | (Inr (t, u, fc, payload), sock) \<Rightarrow>
                  driver_loop stops (next_tid tid)
                    (d\<lparr>d_sock := sock, d_ok := d_ok d + (if fc AND 0x80 = 0 then 1 else 0)\<rparr>))))"

definition driver_run :: "exn option \<Rightarrow> bool list \<Rightarrow> gw_driver \<Rightarrow> (unit res \<times> gw_driver) option" where
  "driver_run conn stops d =
     (let d = d\<lparr>d_open := True\<rparr> in
      case conn of
        Some e \<Rightarrow>
          if is_OSError e then Some (Inr (), d\<lparr>d_errors := d_errors d @ [ConnectErr e]\<rparr>) else Some (Inl e, d)
      | None \<Rightarrow>
          (case driver_loop stops 1 d of
             None \<Rightarrow> None
           | Some (Inl e, d) \<Rightarrow> Some (Inl e, d)
           | Some (Inr _, d) \<Rightarrow> Some (Inr (), d\<lparr>d_open := False\<rparr>)))"

section \<open>The persistent connection\<close>

record gw_conn =
  c_ok :: int
  c_errors :: "gw_error list"
  c_sock :: tsock
  c_tid :: int

definition connect_conn :: "exn option \<Rightarrow> tsock \<Rightarrow> gw_conn res" where
  "connect_conn conn sock =
     (case conn of Some e \<Rightarrow> Inl e | None \<Rightarrow> Inr \<lparr>c_ok = 0, c_errors = [], c_sock = sock, c_tid = 1\<rparr>)"

definition conn_error :: "gw_error \<Rightarrow> gw_conn \<Rightarrow> gw_conn" where
  "conn_error e c = c\<lparr>c_errors := c_errors c @ [e]\<rparr>"

definition drive_once :: "int \<Rightarrow> int \<Rightarrow> gw_conn \<Rightarrow> int option res \<times> gw_conn" where
  "drive_once addr cnt c =
     (case make_mbap_request (c_tid c) SLAVE_ID 0x03 addr cnt of
        Inl e \<Rightarrow> (Inr None, conn_error (ExchangeErr e) c)
      | Inr req \<Rightarrow>
          (let c = c\<lparr>c_tid := next_tid (c_tid c)\<rparr> in
           case send_and_receive (c_sock c) req of
             (Inl e, sock) \<Rightarrow>
               (let c = c\<lparr>c_sock := sock\<rparr> in
                if is_Exception e then (Inr None, conn_error (ExchangeErr e) c) else (Inl e, c))
           | (Inr (t, u, fc, payload), sock) \<Rightarrow>
               (let c = c\<lparr>c_sock := sock\<rparr> in
                if fc AND 0x80 \<noteq> 0 then
                  (Inr None, conn_error (ModbusErr fc (if payload \<noteq> [] then uint (payload ! 0) else -1)) c)
                else if length payload < 3 then (Inr None, conn_error (ShortPayload payload) c)
                else (Inr (Some (push_bit 8 (uint (payload ! 1)) OR uint (payload ! 2))), c\<lparr>c_ok := c_ok c + 1\<rparr>))))"

fun drive_until_value :: "int \<Rightarrow> nat \<Rightarrow> gw_conn \<Rightarrow> bool res \<times> gw_conn" where
  "drive_until_value expected 0 c = (Inr False, c)"
| "drive_until_value expected (Suc attempts) c =
     (case drive_once HOLDING_ADDR TOGGLE_READ_COUNT c of
        (Inl e, c) \<Rightarrow> (Inl e, c)
      | (Inr got, c) \<Rightarrow> if got = Some expected then (Inr True, c) else drive_until_value expected attempts c)"

definition drive_one_transaction :: "tsock \<Rightarrow> int \<Rightarrow> int \<Rightarrow> int res \<times> tsock" where
  "drive_one_transaction sock tid addr =
     (case make_mbap_request tid SLAVE_ID FC03 addr READ_COUNT of
        Inl e \<Rightarrow> (Inl e, sock)
      | Inr req \<Rightarrow>
          (case send_and_receive sock req of
             (Inl e, sock) \<Rightarrow> (Inl e, sock)
           | (Inr (t, u, fc, payload), sock) \<Rightarrow> (Inr fc, sock)))"

section \<open>Transaction identifiers\<close>

lemma next_tid_range: "1 \<le> next_tid t \<and> next_tid t \<le> 65535"
proof -
  have "0 \<le> t mod 65535" "t mod 65535 < 65535" by simp_all
  then show ?thesis unfolding next_tid_def by linarith
qed

text \<open>The identifier of the request number \<open>n\<close> after the one that used \<open>t\<close>.\<close>

definition nth_tid :: "int \<Rightarrow> nat \<Rightarrow> int" where
  "nth_tid t n = (next_tid ^^ n) t"

lemma nth_tid_simps [simp]: "nth_tid t 0 = t" "nth_tid t (Suc n) = nth_tid (next_tid t) n"
  by (simp_all add: nth_tid_def funpow_swap1)

lemma nth_tid_in_range: "1 \<le> t \<Longrightarrow> t \<le> 65535 \<Longrightarrow> 1 \<le> nth_tid t n \<and> nth_tid t n \<le> 65535"
  by (induction n arbitrary: t) (auto simp: next_tid_range)

lemma nth_tid_eq: "1 \<le> t \<Longrightarrow> t \<le> 65535 \<Longrightarrow> nth_tid t n = (t - 1 + int n) mod 65535 + 1"
proof (induction n arbitrary: t)
  case 0
  then show ?case by simp
next
  case (Suc n)
  have "nth_tid (next_tid t) n = (next_tid t - 1 + int n) mod 65535 + 1"
    using Suc.IH [of "next_tid t"] next_tid_range by blast
  moreover have "(next_tid t - 1 + int n) mod 65535 = (t - 1 + int (Suc n)) mod 65535"
    by (simp add: next_tid_def mod_add_left_eq add.assoc [symmetric] mod_simps)
  ultimately show ?case by simp
qed

text \<open>Within 65535 requests no identifier repeats.\<close>

lemma nth_tid_inj:
  assumes "1 \<le> t" "t \<le> 65535" "m < n" "n - m < 65535"
  shows "nth_tid t m \<noteq> nth_tid t n"
proof
  assume "nth_tid t m = nth_tid t n"
  then have "(t - 1 + int m) mod 65535 = (t - 1 + int n) mod 65535" using assms by (simp add: nth_tid_eq)
  then have "65535 dvd (t - 1 + int n) - (t - 1 + int m)" by (metis mod_eq_dvd_iff)
  then have "65535 dvd int (n - m)" using assms(3) by (simp add: of_nat_diff)
  then have "65535 \<le> int (n - m)" using assms(3) by (intro zdvd_imp_le) simp_all
  then show False using assms(4) by simp
qed

section \<open>What goes out on the wire\<close>

lemma send_and_receive_sent:
  assumes "send_and_receive sock req = (r, sock')"
  shows "txd sock' = txd sock @ [req] \<or> txd sock' = txd sock \<and> (\<exists>e. r = Inl e)"
proof (cases "sock_sendall sock req")
  case (Pair s s1)
  have 1: "(\<exists>e. s = Inl e) \<and> txd s1 = txd sock \<or> s = Inr () \<and> txd s1 = txd sock @ [req]"
    using Pair by (auto simp: sock_sendall_def split: list.splits option.splits)
  have r: "txd (snd (recv_exactly s n)) = txd s" for s n
    by (simp add: recv_exactly_def split: prod.split)
  show ?thesis
  proof (cases s)
    case (Inl e)
    then show ?thesis using assms Pair 1 by (auto simp: send_and_receive_def)
  next
    case (Inr u)
    obtain h s2 where h: "recv_exactly s1 MIN_RESPONSE_SIZE = (h, s2)" by fastforce
    then have t2: "txd s2 = txd s1" using r [of s1 MIN_RESPONSE_SIZE] by simp
    show ?thesis
    proof (cases h)
      case (Inl e)
      then show ?thesis using assms Pair 1 Inr h t2 by (auto simp: send_and_receive_def)
    next
      case hd: (Inr header)
      let ?n = "nat (unpack_H (header ! 4) (header ! 5) - 2)"
      obtain p s3 where p: "recv_exactly s2 ?n = (p, s3)" by fastforce
      then have t3: "txd s3 = txd s2" using r [of s2 ?n] by simp
      have "txd sock' = txd s1"
        using assms Pair Inr h hd p t2 t3 by (auto simp: send_and_receive_def Let_def split: if_splits sum.splits)
      then show ?thesis using 1 Inr by auto
    qed
  qed
qed

definition read_frame :: "int \<Rightarrow> int \<Rightarrow> int \<Rightarrow> int \<Rightarrow> int \<Rightarrow> bytes" where
  "read_frame tid slave fc addr cnt = mbap_frame tid slave fc (be16_bytes addr @ be16_bytes cnt)"

lemma request_is_read_frame:
  assumes "1 \<le> tid" "tid \<le> 65535" "is_byte slave" "is_byte fc" "in_H addr" "in_H cnt"
  shows "make_mbap_request tid slave fc addr cnt = Inr (read_frame tid slave fc addr cnt)"
  using assms by (simp add: make_mbap_request_eq read_frame_def in_H_def)

definition driver_args :: "gw_driver \<Rightarrow> bool" where
  "driver_args d \<longleftrightarrow> is_byte (d_slave d) \<and> is_byte (d_fc d) \<and> in_H (d_addr d) \<and> in_H (d_count d)"

definition driver_frames :: "gw_driver \<Rightarrow> int \<Rightarrow> nat \<Rightarrow> bytes list" where
  "driver_frames d tid m = map (\<lambda>i. read_frame (nth_tid tid i) (d_slave d) (d_fc d) (d_addr d) (d_count d)) [0..<m]"

lemma driver_frames_Suc:
  "driver_frames d tid (Suc m) = read_frame tid (d_slave d) (d_fc d) (d_addr d) (d_count d) # driver_frames d (next_tid tid) m"
  by (simp only: driver_frames_def upt_conv_Cons [OF zero_less_Suc] list.map nth_tid_simps map_Suc_upt [symmetric] map_map comp_def)

lemma driver_loop_wire:
  assumes "driver_loop stops tid d = Some (r, d')" "driver_args d" "1 \<le> tid" "tid \<le> 65535"
  shows "\<exists>m \<le> length stops. txd (d_sock d') = txd (d_sock d) @ driver_frames d tid m \<and>
     0 \<le> d_ok d' - d_ok d \<and> d_ok d' - d_ok d \<le> int m \<and> d_open d' = d_open d \<and>
     (d_errors d' = d_errors d \<or> (\<exists>e. d_errors d' = d_errors d @ [ExchangeErr e] \<and> is_Exception e \<and> r = Inr ()))"
  using assms
proof (induction stops arbitrary: tid d)
  case (Cons stop stops)
  let ?req = "read_frame tid (d_slave d) (d_fc d) (d_addr d) (d_count d)"
  have req: "make_mbap_request tid (d_slave d) (d_fc d) (d_addr d) (d_count d) = Inr ?req"
    using request_is_read_frame Cons.prems by (simp add: driver_args_def)
  obtain x sock where x: "send_and_receive (d_sock d) ?req = (x, sock)" by fastforce
  show ?case
  proof (cases stop)
    case True
    then show ?thesis using Cons.prems(1) by (auto simp: driver_frames_def)
  next
    case False
    show ?thesis
    proof (cases x)
      case (Inl e)
      have "\<exists>m \<le> length (stop # stops). txd sock = txd (d_sock d) @ driver_frames d tid m"
        using send_and_receive_sent [OF x]
      proof
        assume "txd sock = txd (d_sock d) @ [?req]"
        then show ?thesis by (intro exI [of _ 1]) (simp add: driver_frames_def)
      next
        assume "txd sock = txd (d_sock d) \<and> (\<exists>e. x = Inl e)"
        then show ?thesis by (intro exI [of _ 0]) (simp add: driver_frames_def)
      qed
      then show ?thesis using Cons.prems(1) False req x Inl by (auto split: if_splits)
    next
      case (Inr fr)
      obtain t u fc payload where fr: "fr = (t, u, fc, payload)" by (cases fr)
      let ?d = "d\<lparr>d_sock := sock, d_ok := d_ok d + (if fc AND 0x80 = 0 then 1 else 0)\<rparr>"
      have l: "driver_loop stops (next_tid tid) ?d = Some (r, d')"
        using Cons.prems(1) False req x Inr fr by simp
      have s: "txd sock = txd (d_sock d) @ [?req]" using send_and_receive_sent [OF x] Inr by auto
      obtain m where m: "m \<le> length stops" "txd (d_sock d') = txd (d_sock ?d) @ driver_frames ?d (next_tid tid) m"
        "0 \<le> d_ok d' - d_ok ?d" "d_ok d' - d_ok ?d \<le> int m" "d_open d' = d_open ?d"
        "d_errors d' = d_errors ?d \<or> (\<exists>e. d_errors d' = d_errors ?d @ [ExchangeErr e] \<and> is_Exception e \<and> r = Inr ())"
        using Cons.IH [OF l] Cons.prems(2) next_tid_range [of tid] by (auto simp: driver_args_def)
      have "driver_frames ?d (next_tid tid) m = driver_frames d (next_tid tid) m" by (simp add: driver_frames_def)
      then show ?thesis using m s by (intro exI [of _ "Suc m"]) (auto simp: driver_frames_Suc split: if_splits)
    qed
  qed
qed simp

text \<open>Distinct identifiers make distinct frames.\<close>

lemma read_frame_tid: "in_H t \<Longrightarrow> in_H t' \<Longrightarrow> read_frame t s f a n = read_frame t' s f a n \<Longrightarrow> t = t'"
proof -
  assume h: "in_H t" "in_H t'" "read_frame t s f a n = read_frame t' s f a n"
  then have "be16_bytes t = be16_bytes t'" by (simp add: read_frame_def mbap_frame_def be16_bytes_def)
  then show "t = t'" using unpack_be16_bytes [OF h(1)] unpack_be16_bytes [OF h(2)] by metis
qed

lemma driver_frames_distinct:
  assumes "1 \<le> tid" "tid \<le> 65535" "m \<le> 65535"
  shows "distinct (driver_frames d tid m)"
proof -
  have "read_frame (nth_tid tid i) (d_slave d) (d_fc d) (d_addr d) (d_count d) \<noteq>
      read_frame (nth_tid tid j) (d_slave d) (d_fc d) (d_addr d) (d_count d)" if "i < j" "j < m" for i j
  proof -
    have "nth_tid tid i \<noteq> nth_tid tid j" using nth_tid_inj [OF assms(1,2) that(1)] that assms(3) by simp
    moreover have "in_H (nth_tid tid i)" "in_H (nth_tid tid j)"
      using nth_tid_in_range [OF assms(1,2), of i] nth_tid_in_range [OF assms(1,2), of j] by (auto simp: in_H_def)
    ultimately show ?thesis using read_frame_tid by blast
  qed
  then show ?thesis by (auto simp: driver_frames_def distinct_map inj_on_def) (metis linorder_neqE_nat)
qed

section \<open>One read against an answering gateway\<close>

lemma drive_once_answered:
  assumes "1 \<le> c_tid c" "c_tid c \<le> 65535" "in_H addr" "in_H cnt" "calm (rxq (c_sock c))" "tx_oracle (c_sock c) = []"
    and "stream (rxq (c_sock c)) = mbap_frame t u 3 (bc # hi # lo # data) @ tail" "in_H t" "is_byte u" "length data \<le> 65530"
  shows "\<exists>c'. drive_once addr cnt c = (Inr (Some (unpack_H hi lo)), c') \<and> c_ok c' = c_ok c + 1 \<and> c_errors c' = c_errors c \<and>
     c_tid c' = next_tid (c_tid c) \<and> txd (c_sock c') = txd (c_sock c) @ [read_frame (c_tid c) SLAVE_ID 3 addr cnt] \<and>
     calm (rxq (c_sock c')) \<and> tx_oracle (c_sock c') = [] \<and> stream (rxq (c_sock c')) = tail"
proof -
  let ?req = "read_frame (c_tid c) SLAVE_ID 3 addr cnt"
  have r: "make_mbap_request (c_tid c) SLAVE_ID 3 addr cnt = Inr ?req"
    using request_is_read_frame assms(1-4) by (simp add: SLAVE_ID_def is_byte_def)
  have b: "is_byte 3" and len: "length (bc # hi # lo # data) \<le> 65533" using assms(10) by (simp_all add: is_byte_def)
  obtain q where q: "send_and_receive (c_sock c) ?req =
      (Inr (t, u, 3, bc # hi # lo # data), (c_sock c)\<lparr>txd := txd (c_sock c) @ [?req], rxq := q\<rparr>)" "calm q" "stream q = tail"
    using exchange_in_sync [OF assms(8,9) b len assms(5-7), of ?req] by blast
  have "push_bit 8 (uint hi) OR uint lo = unpack_H hi lo" using be16_unpack_H [of hi lo] by (simp add: be16_def)
  then show ?thesis using r q assms(6) by (simp add: drive_once_def)
qed

text \<open>The answers of a gateway whose bus carries the values \<open>vs\<close>, one per read.\<close>

fun value_answers :: "int \<Rightarrow> int list \<Rightarrow> bytes" where
  "value_answers tid [] = []"
| "value_answers tid (v # vs) = mbap_frame tid SLAVE_ID 3 (2 # be16_bytes v) @ value_answers (next_tid tid) vs"

lemma drive_until_value_reads:
  assumes "1 \<le> c_tid c" "c_tid c \<le> 65535" "calm (rxq (c_sock c))" "tx_oracle (c_sock c) = []"
    and "stream (rxq (c_sock c)) = value_answers (c_tid c) vs @ tail" "list_all in_H vs" "attempts \<le> length vs"
  shows "\<exists>c' n. drive_until_value expected attempts c = (Inr (expected \<in> set (take attempts vs)), c') \<and>
     n = (if expected \<in> set (take attempts vs) then Suc (length (takeWhile (\<lambda>v. v \<noteq> expected) vs)) else attempts) \<and>
     c_ok c' = c_ok c + int n \<and> c_errors c' = c_errors c \<and>
     txd (c_sock c') = txd (c_sock c) @ map (\<lambda>i. read_frame (nth_tid (c_tid c) i) SLAVE_ID 3 HOLDING_ADDR TOGGLE_READ_COUNT) [0..<n] \<and>
     stream (rxq (c_sock c')) = value_answers (nth_tid (c_tid c) n) (drop n vs) @ tail"
  using assms
proof (induction attempts arbitrary: c vs)
  case (Suc k)
  then obtain v ws where vs: "vs = v # ws" by (cases vs) auto
  have st: "stream (rxq (c_sock c)) = mbap_frame (c_tid c) SLAVE_ID 3 (2 # word_of_int (v div 256) # word_of_int (v mod 256) # []) @
      (value_answers (next_tid (c_tid c)) ws @ tail)"
    using Suc.prems(5) vs by (simp add: be16_bytes_def)
  have h: "in_H HOLDING_ADDR" "in_H TOGGLE_READ_COUNT" "in_H (c_tid c)" "is_byte SLAVE_ID"
    using Suc.prems(1,2) by (simp_all add: in_H_def is_byte_def HOLDING_ADDR_def TOGGLE_READ_COUNT_def SLAVE_ID_def)
  have v: "unpack_H (word_of_int (v div 256)) (word_of_int (v mod 256)) = v"
    using Suc.prems(6) vs by (simp add: unpack_H_div_mod in_H_def)
  obtain c1 where c1: "drive_once HOLDING_ADDR TOGGLE_READ_COUNT c = (Inr (Some v), c1)" "c_ok c1 = c_ok c + 1" "c_errors c1 = c_errors c"
     "c_tid c1 = next_tid (c_tid c)" "txd (c_sock c1) = txd (c_sock c) @ [read_frame (c_tid c) SLAVE_ID 3 HOLDING_ADDR TOGGLE_READ_COUNT]"
     "calm (rxq (c_sock c1))" "tx_oracle (c_sock c1) = []" "stream (rxq (c_sock c1)) = value_answers (next_tid (c_tid c)) ws @ tail"
    using drive_once_answered [OF Suc.prems(1,2) h(1,2) Suc.prems(3,4) st h(3,4)] v by auto
  show ?case
  proof (cases "v = expected")
    case True
    then show ?thesis using c1 vs by auto
  next
    case False
    obtain c' n where n: "drive_until_value expected k c1 = (Inr (expected \<in> set (take k ws)), c')"
      "n = (if expected \<in> set (take k ws) then Suc (length (takeWhile (\<lambda>v. v \<noteq> expected) ws)) else k)"
      "c_ok c' = c_ok c1 + int n" "c_errors c' = c_errors c1"
      "txd (c_sock c') = txd (c_sock c1) @ map (\<lambda>i. read_frame (nth_tid (c_tid c1) i) SLAVE_ID 3 HOLDING_ADDR TOGGLE_READ_COUNT) [0..<n]"
      "stream (rxq (c_sock c')) = value_answers (nth_tid (c_tid c1) n) (drop n ws) @ tail"
      using Suc.IH [of c1 ws] Suc.prems(6,7) vs c1 next_tid_range [of "c_tid c"] by auto
    have up: "map (\<lambda>i. read_frame (nth_tid (c_tid c) i) SLAVE_ID 3 HOLDING_ADDR TOGGLE_READ_COUNT) [0..<Suc n] =
        read_frame (c_tid c) SLAVE_ID 3 HOLDING_ADDR TOGGLE_READ_COUNT #
        map (\<lambda>i. read_frame (nth_tid (next_tid (c_tid c)) i) SLAVE_ID 3 HOLDING_ADDR TOGGLE_READ_COUNT) [0..<n]"
      by (simp only: upt_conv_Cons [OF zero_less_Suc] list.map nth_tid_simps map_Suc_upt [symmetric] map_map comp_def)
    have e: "expected \<in> set (take (Suc k) vs) \<longleftrightarrow> expected \<in> set (take k ws)" using vs False by auto
    have nn: "Suc n = (if expected \<in> set (take (Suc k) vs) then Suc (length (takeWhile (\<lambda>v. v \<noteq> expected) vs)) else Suc k)"
      unfolding e using n(2) vs False by simp
    have "drive_until_value expected (Suc k) c = (Inr (expected \<in> set (take (Suc k) vs)), c')" unfolding e using n(1) c1(1) False by simp
    moreover have "c_ok c' = c_ok c + int (Suc n)" "c_errors c' = c_errors c" using n(3,4) c1(2,3) by simp_all
    moreover have "stream (rxq (c_sock c')) = value_answers (nth_tid (c_tid c) (Suc n)) (drop (Suc n) vs) @ tail"
      using n(6) c1(4) vs by simp
    moreover have "txd (c_sock c') = txd (c_sock c) @ map (\<lambda>i. read_frame (nth_tid (c_tid c) i) SLAVE_ID 3 HOLDING_ADDR TOGGLE_READ_COUNT) [0..<Suc n]"
      unfolding up using n(5) c1(4,5) by simp
    ultimately show ?thesis using nn by blast
  qed
qed simp

section \<open>The gateway between the two protocols\<close>

text \<open>What a Modbus gateway is documented to do with a request and with the slave's reply: unit, function and data pass
  between the MBAP header of the TCP side and the CRC of the serial side, and the answer carries the request's
  transaction identifier.\<close>

definition bus_request :: "bytes \<Rightarrow> bytes" where
  "bus_request req = framed (drop 6 req)"

definition gateway_answer :: "bytes \<Rightarrow> bytes \<Rightarrow> bytes" where
  "gateway_answer req reply =
     take 4 req @ be16_bytes (int (length reply) - 2) @ take (length reply - 2) reply"

lemma bus_request_eq: "bus_request (read_frame tid slave fc addr cnt) = request_of (slave, fc, addr, cnt)"
proof -
  have "(word_of_int (x mod 256) :: byte) = word_of_int x" for x
    by (simp add: word_of_int_eq_iff take_bit_eq_mod)
  then have "drop 6 (read_frame tid slave fc addr cnt) = read_pdu fc slave addr cnt"
    by (simp add: read_frame_def mbap_frame_def be16_bytes_def read_pdu_def)
  then show ?thesis by (simp add: bus_request_def)
qed

lemma gateway_answer_eq:
  assumes "in_H tid" "0 \<le> n" "n \<le> 127"
  shows "gateway_answer (read_frame tid slave 3 addr cnt) (reply_of v (slave, 3, addr, n)) =
    mbap_frame tid slave 3 (word_of_int (2 * n) # be_bytes (replicate (nat n) v))"
proof -
  have "int (length (reply_of v (slave, 3, addr, n))) - 2 = int (length (word_of_int (2 * n) # be_bytes (replicate (nat n) v) :: bytes)) + 2"
    by (simp add: framed_def crc_trailer_def)
  moreover have "take (length (reply_of v (slave, 3, addr, n)) - 2) (reply_of v (slave, 3, addr, n)) =
      word_of_int slave # 3 # word_of_int (2 * n) # be_bytes (replicate (nat n) v)"
    by (simp add: framed_def crc_trailer_def)
  ultimately show ?thesis
    by (simp add: gateway_answer_def mbap_frame_def read_frame_def be16_bytes_def)
qed

section \<open>Properties\<close>

text \<open>The driver thread on the wire. Whatever the socket does and whenever it is stopped, it has sent a run of identical
  reads whose transaction identifiers count from 1 to 65535 and start over, never using 0, so that no two of 65535
  consecutive requests look alike. It counts at most the requests sent, records at most one error, and has closed its
  socket if it connected and ended normally.\<close>

theorem driver_wire:
  assumes "driver_run conn stops (new_driver slave fc addr cnt sock) = Some (r, d)"
    and "is_byte slave" "is_byte fc" "in_H addr" "in_H cnt"
  shows "\<exists>m \<le> length stops. txd (d_sock d) = txd sock @ map (\<lambda>i. read_frame (int i mod 65535 + 1) slave fc addr cnt) [0..<m] \<and>
     (m \<le> 65535 \<longrightarrow> distinct (map (\<lambda>i. read_frame (int i mod 65535 + 1) slave fc addr cnt) [0..<m])) \<and>
     0 \<le> d_ok d \<and> d_ok d \<le> int m \<and> length (d_errors d) \<le> 1 \<and> (conn = None \<and> r = Inr () \<longrightarrow> \<not> d_open d)"
proof (cases conn)
  case (Some e)
  then show ?thesis using assms(1)
    by (intro exI [of _ 0]) (auto simp: driver_run_def new_driver_def Let_def split: if_splits)
next
  case None
  let ?d = "(new_driver slave fc addr cnt sock)\<lparr>d_open := True\<rparr>"
  obtain d1 where l: "driver_loop stops 1 ?d = Some (r, d1)" "d = (if r = Inr () then d1\<lparr>d_open := False\<rparr> else d1)"
    using assms(1) None by (auto simp: driver_run_def split: option.splits sum.splits)
  have a: "driver_args ?d" using assms(2-5) by (simp add: driver_args_def new_driver_def)
  obtain m where m: "m \<le> length stops" "txd (d_sock d1) = txd (d_sock ?d) @ driver_frames ?d 1 m" "0 \<le> d_ok d1 - d_ok ?d" "d_ok d1 - d_ok ?d \<le> int m"
     "d_errors d1 = d_errors ?d \<or> (\<exists>e. d_errors d1 = d_errors ?d @ [ExchangeErr e] \<and> is_Exception e \<and> r = Inr ())"
    using driver_loop_wire [OF l(1) a] by auto
  have f: "driver_frames ?d 1 m = map (\<lambda>i. read_frame (int i mod 65535 + 1) slave fc addr cnt) [0..<m]"
    by (simp add: driver_frames_def new_driver_def nth_tid_eq)
  have "distinct (map (\<lambda>i. read_frame (int i mod 65535 + 1) slave fc addr cnt) [0..<m])" if "m \<le> 65535"
    using driver_frames_distinct [of 1 m ?d] that f by simp
  then show ?thesis
    using m l(2) f by (intro exI [of _ m]) (auto simp: new_driver_def)
qed

theorem driver_wire_witness:
  "\<exists>d. driver_run None [False, True] (new_driver 1 3 10 2
       \<lparr>rxq = [Data [0, 1, 0, 0, 0, 3, 1, 0x83], Data [2]], txd = [], tx_oracle = []\<rparr>) = Some (Inr (), d) \<and>
     length (txd (d_sock d)) \<le> 2 \<and> d_ok d \<le> 2 \<and> \<not> d_open d"
proof -
  let ?n = "new_driver 1 3 10 2 \<lparr>rxq = [Data [0, 1, 0, 0, 0, 3, 1, 0x83], Data [2]], txd = [], tx_oracle = []\<rparr>"
  obtain d where d: "driver_run None [False, True] ?n = Some (Inr (), d)"
    by (simp add: driver_run_def new_driver_def make_mbap_request_eq is_byte_def in_H_def send_and_receive_def sock_sendall_def
      recv_exactly_def MIN_RESPONSE_SIZE_def recv_exactly_from.simps unpack_H_def)
  obtain m where "m \<le> length [False, True]" "length (txd (d_sock d)) = m" "d_ok d \<le> int m" "\<not> d_open d"
    using driver_wire [OF d] by (auto simp: is_byte_def in_H_def)
  then show ?thesis using d by auto
qed

text \<open>C23: waiting for a value on the bus. Over any segmentation of an answering gateway's stream, the call reports the
  expected value exactly if it is among the values the bus carries in the allowed number of reads; it stops at the first
  one, counts every read, records no error and leaves the stream at the next answer.\<close>

theorem drive_until_value_finds:
  assumes "connect_conn None sock = Inr c" "calm (rxq sock)" "tx_oracle sock = []"
    and "stream (rxq sock) = value_answers 1 vs @ tail" "list_all in_H vs" "attempts \<le> length vs"
  shows "\<exists>c' n. drive_until_value expected attempts c = (Inr (expected \<in> set (take attempts vs)), c') \<and>
     n = (if expected \<in> set (take attempts vs) then Suc (length (takeWhile (\<lambda>v. v \<noteq> expected) vs)) else attempts) \<and>
     c_ok c' = int n \<and> c_errors c' = [] \<and>
     txd (c_sock c') = txd sock @ map (\<lambda>i. read_frame (int i mod 65535 + 1) SLAVE_ID 3 HOLDING_ADDR TOGGLE_READ_COUNT) [0..<n] \<and>
     stream (rxq (c_sock c')) = value_answers (int n mod 65535 + 1) (drop n vs) @ tail"
proof -
  have c: "c_ok c = 0" "c_errors c = []" "c_sock c = sock" "c_tid c = 1" using assms(1) by (auto simp: connect_conn_def)
  have "nth_tid 1 i = int i mod 65535 + 1" for i by (simp add: nth_tid_eq)
  then show ?thesis
    using drive_until_value_reads [of c vs tail attempts expected] assms(2-6) c by simp
qed

theorem drive_until_value_finds_witness:
  "\<exists>c'. drive_until_value 0x2222 3 \<lparr>c_ok = 0, c_errors = [],
        c_sock = \<lparr>rxq = [Data (value_answers 1 [0x1111]), Data (value_answers 2 [0x2222, 0x2222])], txd = [], tx_oracle = []\<rparr>, c_tid = 1\<rparr> = (Inr True, c') \<and> c_ok c' = 2"
proof -
  let ?sock = "\<lparr>rxq = [Data (value_answers 1 [0x1111]), Data (value_answers 2 [0x2222, 0x2222])], txd = [], tx_oracle = []\<rparr>"
  have c: "connect_conn None ?sock = Inr \<lparr>c_ok = 0, c_errors = [], c_sock = ?sock, c_tid = 1\<rparr>" by (simp add: connect_conn_def)
  have s: "stream (rxq ?sock) = value_answers 1 [0x1111, 0x2222, 0x2222] @ []" by (simp add: stream_def next_tid_def)
  have k: "calm (rxq ?sock)" by (simp add: calm_def mbap_frame_def)
  show ?thesis using drive_until_value_finds [OF c k _ s, of 3 "0x2222"] by (auto simp: in_H_def)
qed

text \<open>The well-formed states of a connection.\<close>

definition conn_ok :: "gw_conn \<Rightarrow> bool" where
  "conn_ok c \<longleftrightarrow> in_H (c_tid c) \<and> c_tid c \<noteq> 0 \<and> 0 \<le> c_ok c \<and> list_all (\<lambda>e. \<forall>x. e = ExchangeErr x \<longrightarrow> is_Exception x) (c_errors c)"

lemma drive_once_typed:
  assumes "conn_ok c" "drive_once addr cnt c = (r, c')"
  shows "conn_ok c' \<and> (case r of Inr (Some v) \<Rightarrow> in_H v \<and> c_ok c' = c_ok c + 1 \<and> c_errors c' = c_errors c
     | Inr None \<Rightarrow> c_ok c' = c_ok c \<and> length (c_errors c') = Suc (length (c_errors c))
     | Inl e \<Rightarrow> \<not> is_Exception e \<and> c_ok c' = c_ok c \<and> c_errors c' = c_errors c)"
proof (cases "make_mbap_request (c_tid c) SLAVE_ID 3 addr cnt")
  case (Inl e)
  then have "e = StructError" by (auto simp: make_mbap_request_eq split: if_splits)
  then show ?thesis using assms Inl by (auto simp: drive_once_def conn_error_def conn_ok_def)
next
  case (Inr req)
  obtain x sock where x: "send_and_receive (c_sock c) req = (x, sock)" by fastforce
  have t: "in_H (next_tid (c_tid c))" "next_tid (c_tid c) \<noteq> 0" using next_tid_range [of "c_tid c"] by (auto simp: in_H_def)
  show ?thesis
  proof (cases x)
    case (Inl e)
    then show ?thesis using assms Inr x t by (auto simp: drive_once_def Let_def conn_error_def conn_ok_def split: if_splits)
  next
    case fr: (Inr fr)
    obtain t' u fc payload where "fr = (t', u, fc, payload)" by (cases fr)
    moreover have "in_H (push_bit 8 (uint hi) OR uint lo)" for hi lo :: byte
      using be16_unpack_H [of hi lo] unpack_H_bounds [of hi lo] by (simp add: be16_def in_H_def)
    ultimately show ?thesis using assms Inr x fr t by (auto simp: drive_once_def Let_def conn_error_def conn_ok_def split: if_splits)
  qed
qed

text \<open>C24: the connection is well typed. From a fresh connection on, whatever its socket does, the transaction identifier stays
  within 1 and 65535, so that no request is refused for it; a read returns a 16-bit value and counts it, or records one
  error, and raises nothing that an ordinary handler would catch; a wait on a value raises nothing else either and counts at
  most its attempts.\<close>

theorem conn_well_typed:
  assumes "connect_conn None sock = Inr c0 \<or> conn_ok c0"
  shows "conn_ok c0 \<and>
     (\<forall>addr cnt. case drive_once addr cnt c0 of
        (Inr (Some v), c') \<Rightarrow> conn_ok c' \<and> in_H v \<and> c_ok c' = c_ok c0 + 1
      | (Inr None, c') \<Rightarrow> conn_ok c' \<and> c_ok c' = c_ok c0 \<and> length (c_errors c') = Suc (length (c_errors c0))
      | (Inl e, c') \<Rightarrow> conn_ok c' \<and> \<not> is_Exception e) \<and>
     (\<forall>expected attempts. case drive_until_value expected attempts c0 of
        (r, c') \<Rightarrow> conn_ok c' \<and> raises_only {e. \<not> is_Exception e} r \<and> c_ok c' - c_ok c0 \<le> int attempts)"
proof -
  have ok: "conn_ok c0" using assms by (auto simp: connect_conn_def conn_ok_def in_H_def)
  have u: "case drive_until_value expected attempts c of
      (r, c') \<Rightarrow> conn_ok c' \<and> raises_only {e. \<not> is_Exception e} r \<and> c_ok c' - c_ok c \<le> int attempts" if "conn_ok c" for expected attempts c
    using that
  proof (induction attempts arbitrary: c)
    case (Suc k)
    obtain r1 c1 where 1: "drive_once HOLDING_ADDR TOGGLE_READ_COUNT c = (r1, c1)" by fastforce
    note T = drive_once_typed [OF Suc.prems 1]
    have k: "c_ok c1 - c_ok c \<le> 1" using T by (auto split: sum.splits option.splits)
    show ?case
    proof (cases r1)
      case (Inl e)
      then show ?thesis using 1 T by (simp add: raises_only_def)
    next
      case (Inr got)
      then show ?thesis using 1 T k Suc.IH [of c1] by (auto split: prod.splits)
    qed
  qed (simp add: raises_only_def)
  have o: "case drive_once addr cnt c0 of
        (Inr (Some v), c') \<Rightarrow> conn_ok c' \<and> in_H v \<and> c_ok c' = c_ok c0 + 1
      | (Inr None, c') \<Rightarrow> conn_ok c' \<and> c_ok c' = c_ok c0 \<and> length (c_errors c') = Suc (length (c_errors c0))
      | (Inl e, c') \<Rightarrow> conn_ok c' \<and> \<not> is_Exception e" for addr cnt
    using drive_once_typed [OF ok, of addr cnt] by (auto split: prod.splits sum.splits option.splits)
  show ?thesis by (intro conjI allI ok o u [OF ok])
qed

theorem conn_well_typed_witness:
  "conn_ok \<lparr>c_ok = 0, c_errors = [], c_sock = \<lparr>rxq = [], txd = [], tx_oracle = []\<rparr>, c_tid = 1\<rparr>"
  using conn_well_typed [of "\<lparr>rxq = [], txd = [], tx_oracle = []\<rparr>"
      "\<lparr>c_ok = 0, c_errors = [], c_sock = \<lparr>rxq = [], txd = [], tx_oracle = []\<rparr>, c_tid = 1\<rparr>"]
  by (simp add: connect_conn_def)

end
