(* ===== verification/Cache_Poll.thy ===== *)
theory Cache_Poll
  imports Client_Mode Packet_Injector
begin

text \<open>
  The helpers of \<open>api_tests/42_test_sniffer_cache_overlays_e2e.py\<close> that watch the register cache: the
  searches in the rows of \<open>GET /cache/json\<close>, the polls on them, the injected exchanges, and the
  address of a sniffed master frame. What \<open>resp.json()\<close> yields is a parameter, as in
  \<^theory_text>\<open>Client_Mode\<close>.
\<close>

section \<open>Rows\<close>

text \<open>Comparing a JSON value with an int (\<open>True == 1\<close> in Python) and with a text.\<close>

fun jeq_int :: "json \<Rightarrow> int \<Rightarrow> bool" where
  "jeq_int (JNum q) n \<longleftrightarrow> q = of_int n"
| "jeq_int (JBool b) n \<longleftrightarrow> (if b then 1 else 0) = n"
| "jeq_int _ n \<longleftrightarrow> False"

fun jeq_str :: "json \<Rightarrow> string \<Rightarrow> bool" where
  "jeq_str (JStr t) s \<longleftrightarrow> t = s"
| "jeq_str _ s \<longleftrightarrow> False"

text \<open>What \<open>for r in x\<close> walks through.\<close>

fun jiter :: "json \<Rightarrow> json list res" where
  "jiter (JArr rows) = Inr rows"
| "jiter (JObj kvs) = Inr (map (JStr \<circ> fst) kvs)"
| "jiter (JStr s) = Inr (map (\<lambda>c. JStr [c]) s)"
| "jiter _ = Inl TypeError"

definition cache_rows :: "json \<Rightarrow> json list res" where
  "cache_rows doc = rbind (jget doc ''d'' (JArr [])) jiter"

text \<open>\<open>r.get(k1) == v1 and r.get(k2) == v2 and ...\<close>, from left to right.\<close>

fun row_matches :: "json \<Rightarrow> (string \<times> (json \<Rightarrow> bool)) list \<Rightarrow> bool res" where
  "row_matches r [] = Inr True"
| "row_matches r ((k, p) # rest) =
     rbind (jget r k JNull) (\<lambda>v. if p v then row_matches r rest else Inr False)"

fun first_row :: "(string \<times> (json \<Rightarrow> bool)) list \<Rightarrow> json list \<Rightarrow> json option res" where
  "first_row key [] = Inr None"
| "first_row key (r # rows) = rbind (row_matches r key) (\<lambda>m. if m then Inr (Some r) else first_row key rows)"

fun all_rows :: "(string \<times> (json \<Rightarrow> bool)) list \<Rightarrow> json list \<Rightarrow> json list res" where
  "all_rows key [] = Inr []"
| "all_rows key (r # rows) =
     rbind (row_matches r key) (\<lambda>m. rbind (all_rows key rows) (\<lambda>l. Inr (if m then r # l else l)))"

section \<open>Searches\<close>

definition DPM_SLAVE_ID :: int where "DPM_SLAVE_ID = 7"
definition CACHE_SLAVE_ID :: int where "CACHE_SLAVE_ID = 1"

definition find_entry ::
  "(response \<Rightarrow> json res) \<Rightarrow> string \<Rightarrow> int \<Rightarrow> int \<Rightarrow> reply \<Rightarrow> api \<Rightarrow> json option res \<times> api" where
  "find_entry js t a s out api =
     (case get_cache_json out api of
        (Inl e, api) \<Rightarrow> (Inl e, api)
      | (Inr resp, api) \<Rightarrow>
          (if status_code resp \<noteq> 200 then Inl AssertionError
           else rbind (js resp) (\<lambda>doc. rbind (cache_rows doc) (\<lambda>rows.
             first_row [(''s'', \<lambda>v. jeq_int v s), (''t'', \<lambda>v. jeq_str v t), (''a'', \<lambda>v. jeq_int v a)] rows)), api))"

definition cache_json_holding_value :: "(response \<Rightarrow> json res) \<Rightarrow> int \<Rightarrow> reply \<Rightarrow> api \<Rightarrow> json res \<times> api" where
  "cache_json_holding_value js addr out api =
     (case get_cache_json out api of
        (Inl e, api) \<Rightarrow> (Inl e, api)
      | (Inr resp, api) \<Rightarrow>
          (if status_code resp \<noteq> 200 then Inr JNull
           else rbind (js resp) (\<lambda>doc. rbind (cache_rows doc) (\<lambda>rows.
             rbind (first_row [(''t'', \<lambda>v. jeq_str v ''h''), (''a'', \<lambda>v. jeq_int v addr),
                               (''s'', \<lambda>v. jeq_int v CACHE_SLAVE_ID)] rows) (\<lambda>r.
             case r of None \<Rightarrow> Inr JNull | Some row \<Rightarrow> jget row ''v'' JNull))), api))"

section \<open>Polls\<close>

definition wait_value_pass ::
  "(response \<Rightarrow> json res) \<Rightarrow> string \<Rightarrow> int \<Rightarrow> int \<Rightarrow> int \<Rightarrow> reply \<Rightarrow> api \<Rightarrow> (api, json res \<times> api) flow" where
  "wait_value_pass js t a v s out api =
     (case find_entry js t a s out api of
        (Inl e, api) \<Rightarrow> Stop (Inl e, api)
      | (Inr None, api) \<Rightarrow> Next (pause (1/2) api)
      | (Inr (Some row), api) \<Rightarrow>
          (case jget row ''v'' JNull of
             Inl e \<Rightarrow> Stop (Inl e, api)
           | Inr x \<Rightarrow> if jeq_int x v then Stop (Inr row, api) else Next (pause (1/2) api)))"

text \<open>\<open>pytest.fail\<close> at the deadline is an assertion failure.\<close>

definition wait_for_value ::
  "(response \<Rightarrow> json res) \<Rightarrow> string \<Rightarrow> int \<Rightarrow> int \<Rightarrow> int \<Rightarrow> time \<Rightarrow> (time \<times> reply) list \<Rightarrow> api \<Rightarrow> (json res \<times> api) option" where
  "wait_for_value js t a v s deadline ps api =
     (case deadline_loop (\<lambda>_. True) deadline (wait_value_pass js t a v s) ps api of
        None \<Rightarrow> None
      | Some (Stopped r, _) \<Rightarrow> Some r
      | Some (Expired api, _) \<Rightarrow> Some (Inl AssertionError, api)
      | Some (Done api, _) \<Rightarrow> Some (Inl AssertionError, api))"

definition wait_entry_pass ::
  "(response \<Rightarrow> json res) \<Rightarrow> int \<Rightarrow> int \<Rightarrow> reply \<Rightarrow> api \<Rightarrow> (api, json list res \<times> api) flow" where
  "wait_entry_pass js addr want out api =
     (case get_cache_json out api of
        (Inl e, api) \<Rightarrow> Stop (Inl e, api)
      | (Inr cj, api) \<Rightarrow>
          if status_code cj = 200 then
            (case rbind (js cj) (\<lambda>doc. rbind (cache_rows doc)
                    (all_rows [(''a'', \<lambda>v. jeq_int v addr), (''t'', \<lambda>v. jeq_str v ''h''), (''v'', \<lambda>v. jeq_int v want)])) of
               Inl e \<Rightarrow> Stop (Inl e, api)
             | Inr m \<Rightarrow> if m \<noteq> [] then Stop (Inr m, api) else Next (pause (1/2) api))
          else Next (pause (1/2) api))"

definition wait_cache_entry ::
  "(response \<Rightarrow> json res) \<Rightarrow> int \<Rightarrow> int \<Rightarrow> time \<Rightarrow> (time \<times> reply) list \<Rightarrow> api \<Rightarrow> (json list res \<times> api) option" where
  "wait_cache_entry js addr want deadline ps api =
     (case deadline_loop (\<lambda>_. True) deadline (wait_entry_pass js addr want) ps api of
        None \<Rightarrow> None
      | Some (Stopped r, _) \<Rightarrow> Some r
      | Some (Expired api, _) \<Rightarrow> Some (Inr [], api)
      | Some (Done api, _) \<Rightarrow> Some (Inr [], api))"

definition poll_value_pass :: "(response \<Rightarrow> json res) \<Rightarrow> int \<Rightarrow> int \<Rightarrow> reply \<Rightarrow> api \<Rightarrow> (api, bool res \<times> api) flow" where
  "poll_value_pass js addr expected out api =
     (case cache_json_holding_value js addr out api of
        (Inl e, api) \<Rightarrow> Stop (Inl e, api)
      | (Inr v, api) \<Rightarrow> if jeq_int v expected then Stop (Inr True, api) else Next (pause (3/10) api))"

definition poll_cache_json_value ::
  "(response \<Rightarrow> json res) \<Rightarrow> int \<Rightarrow> int \<Rightarrow> time \<Rightarrow> (time \<times> reply) list \<Rightarrow> api \<Rightarrow> (bool res \<times> api) option" where
  "poll_cache_json_value js addr expected deadline ps api =
     (case deadline_loop (\<lambda>_. True) deadline (poll_value_pass js addr expected) ps api of
        None \<Rightarrow> None
      | Some (Stopped r, _) \<Rightarrow> Some r
      | Some (Expired api, _) \<Rightarrow> Some (Inr False, api)
      | Some (Done api, _) \<Rightarrow> Some (Inr False, api))"

section \<open>Injection\<close>

text \<open>What \<open>connect\<close> and \<open>sendall\<close> raise, and the result with the frames written; the socket is closed on every path.\<close>

definition inject_exchange :: "exn option \<Rightarrow> exn option \<Rightarrow> int \<Rightarrow> bytes res \<Rightarrow> unit res \<times> bytes list" where
  "inject_exchange conn send port frames =
     (case open_uart_socket conn port of
        Inl e \<Rightarrow> (Inl e, [])
      | Inr _ \<Rightarrow>
          (case frames of
             Inl e \<Rightarrow> (Inl e, [])
           | Inr data \<Rightarrow> (case send of Some e \<Rightarrow> (Inl e, []) | None \<Rightarrow> (Inr (), [data]))))"

definition inject_fc03 :: "exn option \<Rightarrow> exn option \<Rightarrow> int \<Rightarrow> int \<Rightarrow> int \<Rightarrow> unit res \<times> bytes list" where
  "inject_fc03 conn send port addr value =
     inject_exchange conn send port (build_fc03_exchange DPM_SLAVE_ID addr 1 value)"

definition inject_fc04 :: "exn option \<Rightarrow> exn option \<Rightarrow> int \<Rightarrow> int \<Rightarrow> int \<Rightarrow> unit res \<times> bytes list" where
  "inject_fc04 conn send port addr value =
     inject_exchange conn send port (build_fc04_exchange DPM_SLAVE_ID addr 1 value)"

section \<open>The address in a sniffed master frame\<close>

definition hex_value :: "char \<Rightarrow> int option" where
  "hex_value c =
     (let n = int (of_char c) in
      if 48 \<le> n \<and> n \<le> 57 then Some (n - 48)
      else if 97 \<le> n \<and> n \<le> 102 then Some (n - 87)
      else if 65 \<le> n \<and> n \<le> 70 then Some (n - 55)
      else None)"

text \<open>\<open>int(s, 16)\<close>: surrounding white space, a sign, a \<open>0x\<close> prefix and single underscores between digits are allowed.\<close>

fun hex_us :: "int \<Rightarrow> bool \<Rightarrow> string \<Rightarrow> int option" where
  "hex_us acc after_digit [] = (if after_digit then Some acc else None)"
| "hex_us acc after_digit (c # s) =
     (case hex_value c of
        Some d \<Rightarrow> hex_us (16 * acc + d) True s
      | None \<Rightarrow> if c = CHR ''_'' \<and> after_digit then hex_us acc False s else None)"

definition hex_digits :: "string \<Rightarrow> int option" where
  "hex_digits s =
     (case s of
        c0 # x # t \<Rightarrow>
          if c0 = CHR ''0'' \<and> (x = CHR ''x'' \<or> x = CHR ''X'') then
            (case t of
               [] \<Rightarrow> None
             | u # t' \<Rightarrow> hex_us 0 False (if u = CHR ''_'' then t' else t))
          else hex_us 0 False s
      | _ \<Rightarrow> hex_us 0 False s)"

definition py_int16 :: "string \<Rightarrow> int option" where
  "py_int16 s =
     (case py_strip s of
        [] \<Rightarrow> None
      | c # t \<Rightarrow>
          if c = CHR ''-'' then map_option uminus (hex_digits t)
          else if c = CHR ''+'' then hex_digits t
          else hex_digits (c # t))"

definition addr_from_master_raw :: "json \<Rightarrow> int option" where
  "addr_from_master_raw raw =
     (case raw of
        JStr s \<Rightarrow> if length s < 8 then None else py_int16 (py_slice 4 8 s)
      | _ \<Rightarrow> None)"

section \<open>Lemmas\<close>

lemma row_matches_get: "row_matches r key = Inr True \<Longrightarrow> (k, p) \<in> set key \<Longrightarrow> \<exists>v. jget r k JNull = Inr v \<and> p v"
  by (induction key) (auto simp: rbind_eq_Inr split: if_splits)

lemma first_row_found:
  "first_row key rows = Inr (Some r) \<Longrightarrow>
     \<exists>pre post. rows = pre @ r # post \<and> list_all (\<lambda>x. row_matches x key = Inr False) pre \<and> row_matches r key = Inr True"
proof (induction rows)
  case (Cons x rows)
  then obtain m where m: "row_matches x key = Inr m" by (auto simp: rbind_eq_Inr)
  show ?case
  proof (cases m)
    case True
    then have "x # rows = [] @ r # rows \<and> list_all (\<lambda>x. row_matches x key = Inr False) [] \<and> row_matches r key = Inr True"
      using Cons.prems m by simp
    then show ?thesis by blast
  next
    case False
    then obtain pre post where "rows = pre @ r # post" "list_all (\<lambda>x. row_matches x key = Inr False) pre" "row_matches r key = Inr True"
      using Cons m by auto
    then have "x # rows = (x # pre) @ r # post \<and> list_all (\<lambda>x. row_matches x key = Inr False) (x # pre) \<and> row_matches r key = Inr True"
      using m False by simp
    then show ?thesis by blast
  qed
qed simp

lemma first_row_absent: "first_row key rows = Inr None \<longleftrightarrow> list_all (\<lambda>x. row_matches x key = Inr False) rows"
proof (induction rows)
  case (Cons x rows)
  then show ?case by (cases "row_matches x key") auto
qed simp

lemma all_rows_filter:
  "all_rows key rows = Inr l \<longleftrightarrow>
     list_all (\<lambda>x. \<exists>m. row_matches x key = Inr m) rows \<and> l = filter (\<lambda>x. row_matches x key = Inr True) rows"
proof (induction rows arbitrary: l)
  case (Cons x rows)
  then show ?case by (cases "row_matches x key") (auto simp: rbind_eq_Inr)
qed auto

text \<open>The entry a read of the cache shows for a key.\<close>

definition cache_entry :: "(response \<Rightarrow> json res) \<Rightarrow> string \<Rightarrow> int \<Rightarrow> int \<Rightarrow> reply \<Rightarrow> json option res" where
  "cache_entry js t a s out =
     rbind (fst out) (\<lambda>resp.
       if status_code resp \<noteq> 200 then Inl AssertionError
       else rbind (js resp) (\<lambda>doc. rbind (cache_rows doc) (\<lambda>rows.
         first_row [(''s'', \<lambda>v. jeq_int v s), (''t'', \<lambda>v. jeq_str v t), (''a'', \<lambda>v. jeq_int v a)] rows)))"

definition cache_request :: "api \<Rightarrow> request" where
  "cache_request api = \<lparr>meth = ''GET'', url = base_url api @ ''/cache/json'', req_json = None, req_timeout = 10\<rparr>"

lemma find_entry_eq:
  "\<exists>api'. find_entry js t a s out api = (cache_entry js t a s out, api') \<and>
     requests api' = requests api @ [cache_request api] \<and> base_url api' = base_url api"
proof (cases "get_cache_json out api")
  case (Pair r api')
  note q = session_request_requests [OF Pair [unfolded get_cache_json_def]]
  then show ?thesis using Pair by (cases "fst out") (auto simp: find_entry_def cache_entry_def cache_request_def)
qed

lemma cache_entry_value:
  "cache_entry js t a s out = Inr (Some row) \<Longrightarrow> \<exists>v. jget row ''v'' JNull = Inr v"
proof -
  assume "cache_entry js t a s out = Inr (Some row)"
  then obtain rows where "first_row [(''s'', \<lambda>v. jeq_int v s), (''t'', \<lambda>v. jeq_str v t), (''a'', \<lambda>v. jeq_int v a)] rows = Inr (Some row)"
    by (auto simp: cache_entry_def rbind_eq_Inr split: if_splits)
  then have "\<exists>v. jget row ''s'' JNull = Inr v" by (auto dest!: first_row_found simp: rbind_eq_Inr)
  then show ?thesis by (cases row) (simp_all add: jget_def)
qed

text \<open>Whether a read shows the key with the value.\<close>

definition read_shows :: "(response \<Rightarrow> json res) \<Rightarrow> string \<Rightarrow> int \<Rightarrow> int \<Rightarrow> int \<Rightarrow> reply \<Rightarrow> bool" where
  "read_shows js t a v s out \<longleftrightarrow>
     (\<exists>row x. cache_entry js t a s out = Inr (Some row) \<and> jget row ''v'' JNull = Inr x \<and> jeq_int x v)"

lemma wait_value_pass_cases:
  "(\<exists>api'. wait_value_pass js t a v s out api = Next api' \<and> requests api' = requests api @ [cache_request api] \<and>
      base_url api' = base_url api \<and> (\<exists>x. cache_entry js t a s out = Inr x) \<and> \<not> read_shows js t a v s out) \<or>
   (\<exists>r api'. wait_value_pass js t a v s out api = Stop (r, api') \<and> requests api' = requests api @ [cache_request api] \<and>
      (case r of Inr row \<Rightarrow> cache_entry js t a s out = Inr (Some row) \<and> read_shows js t a v s out | Inl e \<Rightarrow> cache_entry js t a s out = Inl e))"
proof -
  obtain api' where f: "find_entry js t a s out api = (cache_entry js t a s out, api')"
    "requests api' = requests api @ [cache_request api]" "base_url api' = base_url api"
    using find_entry_eq by blast
  show ?thesis
  proof (cases "cache_entry js t a s out")
    case (Inl e)
    then show ?thesis using f by (auto simp: wait_value_pass_def)
  next
    case (Inr x)
    show ?thesis
    proof (cases x)
      case None
      then show ?thesis using f Inr by (auto simp: wait_value_pass_def read_shows_def)
    next
      case (Some row)
      then obtain y where "jget row ''v'' JNull = Inr y" using cache_entry_value Inr by blast
      then show ?thesis using f Inr Some by (auto simp: wait_value_pass_def read_shows_def)
    qed
  qed
qed

lemma wait_value_passes:
  assumes "passes_go d (wait_value_pass js t a v s) pre api = Some api'"
  shows "list_all (\<lambda>(u, out). u < d \<and> (\<exists>x. cache_entry js t a s out = Inr x) \<and> \<not> read_shows js t a v s out) pre \<and>
     requests api' = requests api @ replicate (length pre) (cache_request api) \<and> base_url api' = base_url api"
  using assms
proof (induction pre arbitrary: api)
  case (Cons p pre)
  obtain u out where p: "p = (u, out)" by (cases p)
  obtain api1 where 1: "u < d" "wait_value_pass js t a v s out api = Next api1" "passes_go d (wait_value_pass js t a v s) pre api1 = Some api'"
    using Cons.prems p by (auto split: if_splits flow.splits)
  from wait_value_pass_cases [of js t a v s out api] 1(2) have 2: "requests api1 = requests api @ [cache_request api]"
    "base_url api1 = base_url api" "\<exists>x. cache_entry js t a s out = Inr x" "\<not> read_shows js t a v s out" by auto
  then have "cache_request api1 = cache_request api" by (simp add: cache_request_def)
  then show ?case using Cons.IH [OF 1(3)] 1 2 p by simp
qed simp

section \<open>Properties\<close>


definition demo_cache :: "int \<Rightarrow> reply" where
  "demo_cache v = (Inr \<lparr>status_code = 200, resp_text = py_str v\<rparr>, [])"

definition demo_json :: "response \<Rightarrow> json res" where
  "demo_json r = Inr (JObj [(''d'', JArr [JObj [(''s'', JNum 7), (''t'', JStr ''h''), (''a'', JNum 40),
     (''v'', JNum (of_int (case py_int (resp_text r) of Some v \<Rightarrow> v | None \<Rightarrow> 0)))]])])"


text \<open>The hexadecimal text of a frame, with either kind of letters.\<close>

definition hex_text :: "(nat \<Rightarrow> char) \<Rightarrow> bytes \<Rightarrow> string" where
  "hex_text hc bs = concat (map (\<lambda>b. [hc (unat b div 16), hc (unat b mod 16)]) bs)"

definition hex_lower :: "nat \<Rightarrow> char" where
  "hex_lower n = char_of (if n < 10 then 48 + n else 87 + n)"

definition hex_upper :: "nat \<Rightarrow> char" where
  "hex_upper n = char_of (if n < 10 then 48 + n else 55 + n)"

lemma hex_chars: "n < 16 \<Longrightarrow> hc \<in> {hex_lower, hex_upper} \<Longrightarrow> hex_value (hc n) = Some (int n)"
  by (cases "n < 10") (auto simp: hex_lower_def hex_upper_def hex_value_def Let_def)

lemma hex_value_plain:
  assumes "hex_value c = Some d"
  shows "\<not> is_space c" "c \<noteq> CHR ''-''" "c \<noteq> CHR ''+''" "c \<noteq> CHR ''x''" "c \<noteq> CHR ''X''" "c \<noteq> CHR ''_''"
proof -
  have "hex_value (CHR ''-'') = None" "hex_value (CHR ''+'') = None" "hex_value (CHR ''x'') = None" "hex_value (CHR ''X'') = None"
    "hex_value (CHR ''_'') = None" by (simp_all add: hex_value_def)
  then show "c \<noteq> CHR ''-''" "c \<noteq> CHR ''+''" "c \<noteq> CHR ''x''" "c \<noteq> CHR ''X''" "c \<noteq> CHR ''_''" using assms by auto
  show "\<not> is_space c" using assms by (auto simp: hex_value_def is_space_def Let_def split: if_splits)
qed

lemma py_int16_four:
  assumes "hex_value c1 = Some d1" "hex_value c2 = Some d2" "hex_value c3 = Some d3" "hex_value c4 = Some d4"
  shows "py_int16 [c1, c2, c3, c4] = Some (((d1 * 16 + d2) * 16 + d3) * 16 + d4)"
proof -
  have "py_strip [c1, c2, c3, c4] = [c1, c2, c3, c4]"
    using assms by (intro py_strip_id) (simp add: hex_value_plain(1))
  then show ?thesis
    using assms hex_value_plain(2,3) [OF assms(1)] hex_value_plain(4,5) [OF assms(2)]
    by (simp add: py_int16_def hex_digits_def algebra_simps)
qed

text \<open>The address of a sniffed master request. From the hexadecimal text of any FC03 request the injector builds, in
  lower or upper case, the helper reads back the start address; a text shorter than four bytes gives none.\<close>

theorem master_address_roundtrip:
  assumes "build_fc03_request dev a n = Inr frame" "0 \<le> a" "a \<le> 65535" "hc \<in> {hex_lower, hex_upper}"
  shows "addr_from_master_raw (JStr (hex_text hc frame)) = Some a \<and>
     (\<forall>k < 4. addr_from_master_raw (JStr (hex_text hc (take k frame))) = None)"
proof -
  have frame: "frame = framed (read_pdu 3 dev a n)" using assms(1) by (simp add: frame_simps)
  define h l :: byte where "h = word_of_int (a div 256 mod 256)" and "l = word_of_int (a mod 256)"
  obtain b0 b1 rest where f: "frame = b0 # b1 # h # l # rest" "rest \<noteq> []"
    by (simp add: frame framed_def read_pdu_def h_def l_def)
  have u: "int (unat h) = a div 256" "int (unat l) = a mod 256"
  proof -
    have d: "a div 256 < 256" using assms(3) by linarith
    then have "a div 256 mod 256 = a div 256" using assms(2) by (intro mod_pos_pos_trivial) simp_all
    then have "uint h = a div 256" using assms(2) d by (simp add: h_def uint_word_of_int)
    moreover have "uint l = a mod 256" by (simp add: l_def uint_word_of_int)
    ultimately show "int (unat h) = a div 256" "int (unat l) = a mod 256" by simp_all
  qed
  have b: "unat b div 16 < 16" "unat b mod 16 < 16" for b :: byte
    using unat_byte_le [of b] by (simp_all add: less_mult_imp_div_less)
  have s: "py_slice 4 8 (hex_text hc frame) = [hc (unat h div 16), hc (unat h mod 16), hc (unat l div 16), hc (unat l mod 16)]"
    by (simp add: f hex_text_def py_slice_def)
  have len: "length (hex_text hc bs) = 2 * length bs" for bs by (induction bs) (simp_all add: hex_text_def)
  have j: "int (k div 16) * 16 + int (k mod 16) = int k" for k :: nat
    using div_mult_mod_eq [of k 16] by linarith
  have "((int (unat h div 16) * 16 + int (unat h mod 16)) * 16 + int (unat l div 16)) * 16 + int (unat l mod 16) =
      int (unat h) * 256 + int (unat l)"
    unfolding j using j [of "unat l"] by (simp add: algebra_simps)
  also have "\<dots> = a" using u by simp
  finally have "py_int16 (py_slice 4 8 (hex_text hc frame)) = Some a"
    unfolding s using py_int16_four [OF hex_chars [OF b(1) assms(4)] hex_chars [OF b(2) assms(4)] hex_chars [OF b(1) assms(4)]
      hex_chars [OF b(2) assms(4)], of h h l l] by simp
  then show ?thesis by (auto simp: addr_from_master_raw_def len f)
qed

theorem master_address_roundtrip_witness:
  "\<exists>frame. build_fc03_request 1 0x1F40 1 = Inr frame \<and> addr_from_master_raw (JStr (hex_text hex_lower frame)) = Some 0x1F40"
  using master_address_roundtrip [of 1 "0x1F40" 1 _ hex_lower] by (simp add: frame_simps)

end
