(* ===== verification/Timed_World.thy ===== *)
theory Timed_World
  imports Client_Mode
begin

text \<open>
  Helpers that talk to the device over HTTP and keep to a time budget, as steps on a world: the
  monotonic clock, everything the run did so far, and the shared client (the \<open>api\<close> fixture). The
  network, the device behind it and the \<open>requests\<close> package are one parameter: from the history, the
  cookies and the request it yields how long the request takes and how it ends. A step returns a
  value or raises; a step that never comes back is \<open>None\<close>.
\<close>

section \<open>World and steps\<close>

datatype event = Sent request | SentAs jar request | Slept rat | NewClient string | ClosedClient string

record world =
  clock :: time
  hist :: "event list"
  fixture :: api

type_synonym net = "event list \<Rightarrow> jar \<Rightarrow> request \<Rightarrow> rat \<times> reply"

type_synonym 'a step = "world \<Rightarrow> ('a res \<times> world) option"

definition wret :: "'a res \<Rightarrow> 'a step" where
  "wret r w = Some (r, w)"

definition wbind :: "'a step \<Rightarrow> ('a \<Rightarrow> 'b step) \<Rightarrow> 'b step" where
  "wbind m f w =
     (case m w of
        None \<Rightarrow> None
      | Some (Inl e, w) \<Rightarrow> Some (Inl e, w)
      | Some (Inr x, w) \<Rightarrow> f x w)"

text \<open>\<open>try: m except <p> as e: h\<close>.\<close>

definition wcatch :: "(exn \<Rightarrow> bool) \<Rightarrow> 'a step \<Rightarrow> (exn \<Rightarrow> 'a step) \<Rightarrow> 'a step" where
  "wcatch p m h w =
     (case m w of
        None \<Rightarrow> None
      | Some (Inl e, w) \<Rightarrow> if p e then h e w else Some (Inl e, w)
      | Some (Inr x, w) \<Rightarrow> Some (Inr x, w))"

text \<open>\<open>try: m finally: f\<close>, where the cleanup sees how the body ended and may replace it by raising.\<close>

definition wfinally :: "'a step \<Rightarrow> ('a res \<Rightarrow> unit step) \<Rightarrow> 'a step" where
  "wfinally m f w =
     (case m w of
        None \<Rightarrow> None
      | Some (r, w) \<Rightarrow>
          (case f r w of
             None \<Rightarrow> None
           | Some (Inl e, w) \<Rightarrow> Some (Inl e, w)
           | Some (Inr _, w) \<Rightarrow> Some (r, w)))"

definition wsleep :: "rat \<Rightarrow> unit step" where
  "wsleep s w = Some (Inr (), w\<lparr>clock := clock w + s, hist := hist w @ [Slept s]\<rparr>)"

text \<open>\<open>WBMGEAPI(base_url)\<close> and \<open>client.session.close()\<close>.\<close>

definition open_client :: "string \<Rightarrow> api step" where
  "open_client burl w = Some (Inr (new_api 0 (Some burl)), w\<lparr>hist := hist w @ [NewClient burl]\<rparr>)"

definition close_client :: "string \<Rightarrow> unit step" where
  "close_client burl w = Some (Inr (), w\<lparr>hist := hist w @ [ClosedClient burl]\<rparr>)"

section \<open>Requests\<close>

text \<open>The request a client method makes does not depend on how it is answered.\<close>

definition request_of :: "(reply \<Rightarrow> api \<Rightarrow> response res \<times> api) \<Rightarrow> api \<Rightarrow> request" where
  "request_of meth_call c = last (requests (snd (meth_call (Inl RequestException, []) c)))"

text \<open>A method of a client: the delay of its session, then the request.\<close>

definition exchange :: "net \<Rightarrow> (reply \<Rightarrow> api \<Rightarrow> response res \<times> api) \<Rightarrow> api \<Rightarrow> world \<Rightarrow> response res \<times> api \<times> world" where
  "exchange net meth_call c w =
     (let rq = request_of meth_call c;
          (dur, out) = net (hist w) (cookies (sess c)) rq;
          (r, c') = meth_call out c in
      (r, c', w\<lparr>clock := clock w + DELAY_S + dur, hist := hist w @ [Sent rq]\<rparr>))"

definition call :: "net \<Rightarrow> (reply \<Rightarrow> api \<Rightarrow> response res \<times> api) \<Rightarrow> api \<Rightarrow> (response \<times> api) step" where
  "call net meth_call c w =
     (case exchange net meth_call c w of
        (Inl e, _, w) \<Rightarrow> Some (Inl e, w)
      | (Inr resp, c, w) \<Rightarrow> Some (Inr (resp, c), w))"

definition fixture_call :: "net \<Rightarrow> (reply \<Rightarrow> api \<Rightarrow> response res \<times> api) \<Rightarrow> response step" where
  "fixture_call net meth_call w =
     (case exchange net meth_call (fixture w) w of
        (r, c, w) \<Rightarrow> Some (r, w\<lparr>fixture := c\<rparr>))"

text \<open>\<open>requests.get(url, timeout=...)\<close>, outside any client.\<close>

definition get_request :: "string \<Rightarrow> rat \<Rightarrow> request" where
  "get_request u tmo = \<lparr>meth = ''GET'', url = u, req_json = None, req_timeout = tmo\<rparr>"

definition plain_get :: "net \<Rightarrow> string \<Rightarrow> rat \<Rightarrow> response step" where
  "plain_get net u tmo w =
     (case net (hist w) [] (get_request u tmo) of
        (dur, out) \<Rightarrow> Some (fst out, w\<lparr>clock := clock w + dur, hist := hist w @ [Sent (get_request u tmo)]\<rparr>))"

text \<open>A request of a plain \<open>requests.Session\<close>, whose jar is \<open>j\<close>; the jar after it goes with the response.\<close>

definition session_send :: "net \<Rightarrow> jar \<Rightarrow> request \<Rightarrow> (response \<times> jar) step" where
  "session_send net j rq w =
     (case net (hist w) j rq of
        (dur, out) \<Rightarrow>
          Some (map_sum id (\<lambda>resp. (resp, snd out)) (fst out), w\<lparr>clock := clock w + dur, hist := hist w @ [SentAs j rq]\<rparr>))"

section \<open>Loops to a deadline\<close>

text \<open>\<open>while time.monotonic() < deadline\<close> on the world's clock. The body yields the state to go round again with,
  or the result to leave with; the loop yields \<open>None\<close> when the deadline has passed.\<close>

partial_function (option) state_loop :: "time \<Rightarrow> ('s \<Rightarrow> ('s + 'r) step) \<Rightarrow> 's \<Rightarrow> 'r option step" where
  "state_loop d body s w =
     (if clock w < d then
        (case body s w of
           None \<Rightarrow> None
         | Some (Inl e, w) \<Rightarrow> Some (Inl e, w)
         | Some (Inr (Inr r), w) \<Rightarrow> Some (Inr (Some r), w)
         | Some (Inr (Inl s), w) \<Rightarrow> state_loop d body s w)
      else Some (Inr None, w))"

text \<open>A loop without state of its own: the body yields \<open>None\<close> to go round again.\<close>

definition go_round :: "'r option step \<Rightarrow> unit \<Rightarrow> (unit + 'r) step" where
  "go_round body _ = wbind body (\<lambda>r. wret (Inr (case r of None \<Rightarrow> Inl () | Some r \<Rightarrow> Inr r)))"

definition timed_loop :: "time \<Rightarrow> 'r option step \<Rightarrow> 'r option step" where
  "timed_loop d body = state_loop d (go_round body) ()"

section \<open>The shared client's wait for the device\<close>

definition fixture_reconnect :: "rat \<Rightarrow> unit step" where
  "fixture_reconnect intv w = Some (Inr (), w\<lparr>fixture := reconnect (pause intv (fixture w))\<rparr>)"

text \<open>A pass of \<open>WBMGEAPI.wait_for_ready\<close> on the fixture.\<close>

definition fixture_ready_pass :: "net \<Rightarrow> rat \<Rightarrow> unit option step" where
  "fixture_ready_pass net intv =
     wbind (wsleep intv) (\<lambda>_.
     wbind (fixture_reconnect intv) (\<lambda>_.
     wcatch (\<lambda>e. e = RequestException)
       (wbind (fixture_call net (\<lambda>out. auth out DEFAULT_LOGIN DEFAULT_PASSWORD)) (\<lambda>_.
        wbind (fixture_call net get_info) (\<lambda>resp.
        wret (Inr (if status_code resp = 200 then Some () else None)))))
       (\<lambda>_. wret (Inr None))))"

definition fixture_wait_for_ready :: "net \<Rightarrow> rat \<Rightarrow> rat \<Rightarrow> unit step" where
  "fixture_wait_for_ready net tmo intv w =
     wbind (timed_loop (clock w + tmo) (fixture_ready_pass net intv))
       (\<lambda>r. wret (case r of Some _ \<Rightarrow> Inr () | None \<Rightarrow> Inl TimeoutError)) w"

section \<open>Running steps\<close>

lemma wret_eq [simp]: "wret r w = Some (r', w') \<longleftrightarrow> r' = r \<and> w' = w"
  by (auto simp: wret_def)

lemma wbind_eq_Some:
  "wbind m f w = Some (r, w') \<longleftrightarrow>
     (\<exists>e. m w = Some (Inl e, w') \<and> r = Inl e) \<or> (\<exists>x w1. m w = Some (Inr x, w1) \<and> f x w1 = Some (r, w'))"
  by (auto simp: wbind_def split: option.splits sum.splits prod.splits)

lemma wcatch_eq_Some:
  "wcatch p m h w = Some (r, w') \<longleftrightarrow>
     (\<exists>x. m w = Some (Inr x, w') \<and> r = Inr x) \<or> (\<exists>e. \<not> p e \<and> m w = Some (Inl e, w') \<and> r = Inl e) \<or>
     (\<exists>e w1. p e \<and> m w = Some (Inl e, w1) \<and> h e w1 = Some (r, w'))"
  by (auto simp: wcatch_def split: option.splits sum.splits prod.splits if_splits)

lemma wfinally_eq_Some:
  "wfinally m f w = Some (r, w') \<longleftrightarrow>
     (\<exists>r1 w1. m w = Some (r1, w1) \<and> ((\<exists>u. f r1 w1 = Some (Inr u, w') \<and> r = r1) \<or> (\<exists>e. f r1 w1 = Some (Inl e, w') \<and> r = Inl e)))"
  by (auto simp: wfinally_def split: option.splits sum.splits prod.splits)

lemmas step_eqs = wbind_eq_Some wcatch_eq_Some wfinally_eq_Some

section \<open>Time\<close>

text \<open>A step that comes back, and within how long.\<close>

definition takes :: "rat \<Rightarrow> 'a step \<Rightarrow> bool" where
  "takes c m \<longleftrightarrow> (\<forall>w. \<exists>r w'. m w = Some (r, w') \<and> clock w \<le> clock w' \<and> clock w' \<le> clock w + c)"

text \<open>A pass that goes round again has used some time.\<close>

definition paces :: "rat \<Rightarrow> 'r option step \<Rightarrow> bool" where
  "paces eps m \<longleftrightarrow> (\<forall>w w'. m w = Some (Inr None, w') \<longrightarrow> clock w + eps \<le> clock w')"

text \<open>Every request ends within the timeout it was given.\<close>

definition keeps_timeouts :: "net \<Rightarrow> bool" where
  "keeps_timeouts net \<longleftrightarrow> (\<forall>h j rq. 0 \<le> fst (net h j rq) \<and> fst (net h j rq) \<le> max 0 (req_timeout rq))"

named_theorems takes_intros \<open>how long the steps take\<close>

lemma takes_E:
  assumes "takes c m"
  obtains r w' where "m w = Some (r, w')" "clock w \<le> clock w'" "clock w' \<le> clock w + c"
  using assms unfolding takes_def by blast

lemma takes_mono: "takes a m \<Longrightarrow> a \<le> b \<Longrightarrow> takes b m"
  unfolding takes_def by (meson add_left_mono order_trans)

lemma takes_nonneg: "takes c m \<Longrightarrow> 0 \<le> c"
  by (rule takes_E [of c m undefined]) auto

lemma takes_grows:
  assumes "m w = Some (r, w')" "takes c m"
  shows "clock w \<le> clock w'"
  by (rule takes_E [OF assms(2), of w]) (simp add: assms(1))

lemma takes_wret [takes_intros]: "takes 0 (wret r)"
  by (simp add: takes_def wret_def)

lemma takes_wbind [takes_intros]:
  assumes "takes a m" "\<And>x. takes b (f x)"
  shows "takes (a + b) (wbind m f)"
  unfolding takes_def
proof (intro allI)
  fix w
  obtain r w1 where 1: "m w = Some (r, w1)" "clock w \<le> clock w1" "clock w1 \<le> clock w + a" by (rule takes_E [OF assms(1)])
  show "\<exists>r w'. wbind m f w = Some (r, w') \<and> clock w \<le> clock w' \<and> clock w' \<le> clock w + (a + b)"
  proof (cases r)
    case Inl
    then show ?thesis using 1 takes_nonneg [OF assms(2)] by (auto simp: wbind_def)
  next
    case (Inr x)
    obtain r' w2 where "f x w1 = Some (r', w2)" "clock w1 \<le> clock w2" "clock w2 \<le> clock w1 + b" by (rule takes_E [OF assms(2)])
    with 1 Inr show ?thesis by (auto simp: wbind_def)
  qed
qed

lemma takes_wcatch [takes_intros]:
  assumes "takes a m" "\<And>e. takes b (h e)"
  shows "takes (a + b) (wcatch p m h)"
  unfolding takes_def
proof (intro allI)
  fix w
  obtain r w1 where 1: "m w = Some (r, w1)" "clock w \<le> clock w1" "clock w1 \<le> clock w + a" by (rule takes_E [OF assms(1)])
  show "\<exists>r w'. wcatch p m h w = Some (r, w') \<and> clock w \<le> clock w' \<and> clock w' \<le> clock w + (a + b)"
  proof (cases r)
    case (Inl e)
    obtain r' w2 where "h e w1 = Some (r', w2)" "clock w1 \<le> clock w2" "clock w2 \<le> clock w1 + b" by (rule takes_E [OF assms(2)])
    with 1 Inl takes_nonneg [OF assms(2)] show ?thesis by (auto simp: wcatch_def)
  next
    case Inr
    then show ?thesis using 1 takes_nonneg [OF assms(2)] by (auto simp: wcatch_def)
  qed
qed

lemma takes_wfinally [takes_intros]:
  assumes "takes a m" "\<And>r. takes b (f r)"
  shows "takes (a + b) (wfinally m f)"
  unfolding takes_def
proof (intro allI)
  fix w
  obtain r w1 where 1: "m w = Some (r, w1)" "clock w \<le> clock w1" "clock w1 \<le> clock w + a" by (rule takes_E [OF assms(1)])
  obtain r' w2 where 2: "f r w1 = Some (r', w2)" "clock w1 \<le> clock w2" "clock w2 \<le> clock w1 + b" by (rule takes_E [OF assms(2)])
  show "\<exists>r w'. wfinally m f w = Some (r, w') \<and> clock w \<le> clock w' \<and> clock w' \<le> clock w + (a + b)"
    using 1 2 by (cases r') (auto simp: wfinally_def)
qed

lemma takes_steps [takes_intros]:
  "0 \<le> s \<Longrightarrow> takes s (wsleep s)" "takes 0 (open_client b)" "takes 0 (close_client b)" "takes 0 (fixture_reconnect i)"
  by (simp_all add: takes_def wsleep_def open_client_def close_client_def fixture_reconnect_def)

lemma takes_branches [takes_intros]:
  "takes a m \<Longrightarrow> takes b m' \<Longrightarrow> takes (max a b) (if p then m else m')"
  "takes a m \<Longrightarrow> (\<And>y. takes b (k y)) \<Longrightarrow> takes (max a b) (case z of None \<Rightarrow> m | Some y \<Rightarrow> k y)"
  "(\<And>x. takes a (f x)) \<Longrightarrow> (\<And>y. takes b (g y)) \<Longrightarrow> takes (max a b) (case s of Inl x \<Rightarrow> f x | Inr y \<Rightarrow> g y)"
  by (simp_all split: option.split sum.split) (metis takes_mono max.cobounded1 max.cobounded2)+

lemma takes_case_prod [takes_intros]: "(\<And>x y. takes a (q x y)) \<Longrightarrow> takes a (case xy of (x, y) \<Rightarrow> q x y)"
  by (auto split: prod.split)

lemma takes_Let [takes_intros]: "(\<And>x. takes a (q x)) \<Longrightarrow> takes a (let x = v in q x)"
  by (simp add: Let_def)

text \<open>The worst case of a client's method: its session's delay and its timeout.\<close>

lemma keeps_timeoutsD: "keeps_timeouts net \<Longrightarrow> net h j rq = (d, out) \<Longrightarrow> 0 \<le> d \<and> d \<le> max 0 (req_timeout rq)"
  by (metis keeps_timeouts_def fst_conv)

lemma takes_exchange:
  assumes "keeps_timeouts net" "exchange net f c w = (r, c', w')"
  shows "clock w \<le> clock w'" "clock w' \<le> clock w + (DELAY_S + max 0 (req_timeout (request_of f c)))"
  using assms by (auto simp: exchange_def Let_def DELAY_S_def add.assoc split: prod.splits dest!: keeps_timeoutsD)

lemma takes_call:
  assumes "keeps_timeouts net" "DELAY_S + max 0 (req_timeout (request_of f c)) \<le> b"
  shows "takes b (call net f c)"
  unfolding takes_def
proof (intro allI)
  fix w
  obtain r c' w' where e: "exchange net f c w = (r, c', w')" by (metis prod_cases3)
  with takes_exchange [OF assms(1) e] assms(2)
  show "\<exists>r w'. call net f c w = Some (r, w') \<and> clock w \<le> clock w' \<and> clock w' \<le> clock w + b"
    by (cases r) (auto simp: call_def)
qed

lemma takes_fixture_call:
  assumes "keeps_timeouts net" "\<And>c. DELAY_S + max 0 (req_timeout (request_of f c)) \<le> b"
  shows "takes b (fixture_call net f)"
  unfolding takes_def
proof (intro allI)
  fix w
  obtain r c' w' where e: "exchange net f (fixture w) w = (r, c', w')" by (metis prod_cases3)
  with takes_exchange [OF assms(1) e] assms(2) [of "fixture w"]
  show "\<exists>r w'. fixture_call net f w = Some (r, w') \<and> clock w \<le> clock w' \<and> clock w' \<le> clock w + b"
    by (auto simp: fixture_call_def)
qed

lemma takes_plain_get [takes_intros]: "keeps_timeouts net \<Longrightarrow> 0 \<le> tmo \<Longrightarrow> takes tmo (plain_get net u tmo)"
  by (auto simp: takes_def plain_get_def get_request_def split: prod.split dest!: keeps_timeoutsD)

lemma takes_session_send [takes_intros]: "keeps_timeouts net \<Longrightarrow> 0 \<le> req_timeout rq \<Longrightarrow> takes (req_timeout rq) (session_send net j rq)"
  by (auto simp: takes_def session_send_def split: prod.split dest!: keeps_timeoutsD)

text \<open>A loop to a deadline comes back: at the latest one pass after the deadline.\<close>

lemma state_loop_takes:
  assumes body: "\<And>s. takes c (body s)" "\<And>s w s' w'. body s w = Some (Inr (Inl s'), w') \<Longrightarrow> clock w + eps \<le> clock w'" and eps: "0 < eps"
  shows "\<exists>r w'. state_loop d body s w = Some (r, w') \<and> clock w \<le> clock w' \<and> clock w' \<le> max (clock w) (d + c)"
proof (induction "nat \<lceil>(d - clock w) / eps\<rceil>" arbitrary: s w rule: less_induct)
  case less
  show ?case
  proof (cases "clock w < d")
    case False
    then show ?thesis by (simp add: state_loop.simps)
  next
    case True
    obtain r w1 where 1: "body s w = Some (r, w1)" "clock w \<le> clock w1" "clock w1 \<le> clock w + c" by (rule takes_E [OF body(1)])
    show ?thesis
    proof (cases "\<exists>s'. r = Inr (Inl s')")
      case False
      then obtain r' where "state_loop d body s w = Some (r', w1)"
        using True 1 by (cases r) (auto simp: state_loop.simps [of d body s w] split: sum.splits intro: sumE)
      then show ?thesis using 1 True by auto
    next
      case again: True
      then obtain s' where s': "r = Inr (Inl s')" by blast
      then have e: "clock w + eps \<le> clock w1" using body(2) 1 by blast
      then have "(d - clock w1) / eps \<le> (d - clock w - eps) / eps" using eps by (intro divide_right_mono) auto
      then have "(d - clock w1) / eps \<le> (d - clock w) / eps - 1" using eps by (simp add: diff_divide_distrib)
      moreover have "0 < (d - clock w) / eps" using True eps by simp
      ultimately have "nat \<lceil>(d - clock w1) / eps\<rceil> < nat \<lceil>(d - clock w) / eps\<rceil>" by linarith
      from less [OF this, of s'] obtain r' w' where "state_loop d body s' w1 = Some (r', w')" "clock w1 \<le> clock w'" "clock w' \<le> max (clock w1) (d + c)"
        by blast
      moreover have "state_loop d body s w = state_loop d body s' w1" using True 1 s' by (simp add: state_loop.simps [of d body s w])
      ultimately show ?thesis using 1 True by auto
    qed
  qed
qed

lemma takes_state_loop:
  assumes "\<And>s. takes c (body s)" "\<And>s w s' w'. body s w = Some (Inr (Inl s'), w') \<Longrightarrow> clock w + eps \<le> clock w'" "0 < eps" "0 \<le> tmo"
  shows "takes (tmo + c) (\<lambda>w. state_loop (clock w + tmo) body s w)"
  unfolding takes_def
proof
  fix w
  show "\<exists>r w'. state_loop (clock w + tmo) body s w = Some (r, w') \<and> clock w \<le> clock w' \<and> clock w' \<le> clock w + (tmo + c)"
    using state_loop_takes [where c = c and body = body and eps = eps and d = "clock w + tmo" and s = s and w = w, OF assms(1-3)]
      takes_nonneg [OF assms(1)] assms(4) by fastforce
qed

lemma go_round_again: "go_round body u w = Some (Inr (Inl u'), w') \<longleftrightarrow> body w = Some (Inr None, w')"
  by (auto simp: go_round_def wbind_eq_Some split: option.splits)

text \<open>So a wait of \<open>tmo\<close> seconds takes at most \<open>tmo\<close> and one pass.\<close>

lemma takes_timed_loop [takes_intros]:
  assumes "takes c body" "paces eps body" "0 < eps" "0 \<le> tmo"
  shows "takes (tmo + c) (\<lambda>w. timed_loop (clock w + tmo) body w)"
  unfolding timed_loop_def
proof (rule takes_state_loop)
  show "takes c (go_round body u)" for u
    using takes_wbind [OF assms(1) takes_wret] by (simp add: go_round_def)
  show "clock w + eps \<le> clock w'" if "go_round body u w = Some (Inr (Inl u'), w')" for u w u' w'
    using that assms(2) by (auto simp: go_round_again paces_def)
qed (use assms in auto)

lemma request_of_simps [simp]:
  "req_timeout (request_of (\<lambda>out. auth out l p) c) = 10"
  "req_timeout (request_of get_info c) = 10"
  "req_timeout (request_of get_settings c) = 30"
  "req_timeout (request_of (\<lambda>out. update_settings out data) c) = 30"
  "req_timeout (request_of (\<lambda>out. execute_command out cmd) c) = 30"
  by (simp_all add: request_of_def auth_def get_info_def get_settings_def update_settings_def execute_command_def
      session_request_def requests_def)

lemma takes_calls [takes_intros]:
  assumes "keeps_timeouts net"
  shows "takes 11 (call net (\<lambda>out. auth out l p) c)"
    "takes 31 (call net (\<lambda>out. update_settings out data) c)"
    "takes 31 (call net (\<lambda>out. execute_command out cmd) c)"
    "takes 11 (fixture_call net (\<lambda>out. auth out l p))"
    "takes 11 (fixture_call net get_info)"
    "takes 31 (fixture_call net get_settings)"
    "takes 31 (fixture_call net (\<lambda>out. update_settings out data))"
    "takes 31 (fixture_call net (\<lambda>out. execute_command out cmd))"
  by (simp_all add: takes_call takes_fixture_call assms DELAY_S_def)

text \<open>Pacing: a pass that sleeps, first or on the branch that goes round again.\<close>

lemma paces_sleep_first [takes_intros]: "takes c k \<Longrightarrow> paces s (wbind (wsleep s) (\<lambda>_. k))"
  unfolding paces_def wbind_eq_Some by (auto simp: wsleep_def dest!: takes_grows)

lemma paces_then [takes_intros]:
  assumes "takes c m" "\<And>x. paces eps (f x)"
  shows "paces eps (wbind m f)"
  unfolding paces_def
proof (intro allI impI)
  fix w w' assume "wbind m f w = Some (Inr None, w')"
  then obtain x w1 where 1: "m w = Some (Inr x, w1)" "f x w1 = Some (Inr None, w')" by (auto simp: wbind_eq_Some)
  moreover have "clock w \<le> clock w1" using 1(1) assms(1) by (rule takes_grows)
  ultimately show "clock w + eps \<le> clock w'" using assms(2) unfolding paces_def by fastforce
qed

lemma paces_Some [takes_intros]: "paces eps (wret (Inr (Some x)))"
  by (simp add: paces_def wret_def)

lemma paces_if [takes_intros]: "(b \<Longrightarrow> paces eps m) \<Longrightarrow> (\<not> b \<Longrightarrow> paces eps m') \<Longrightarrow> paces eps (if b then m else m')"
  by simp

lemma takes_wait_for_ready:
  assumes "keeps_timeouts net" "0 < intv" "0 \<le> tmo"
  shows "takes (tmo + (intv + 11 + 11)) (fixture_wait_for_ready net tmo intv)"
proof -
  have t: "takes (intv + (0 + ((11 + (11 + 0)) + 0))) (fixture_ready_pass net intv)"
    unfolding fixture_ready_pass_def using assms by (intro takes_intros) auto
  have "paces intv (fixture_ready_pass net intv)"
    unfolding fixture_ready_pass_def using assms(1) by (intro paces_sleep_first [where c = "0 + ((11 + (11 + 0)) + 0)"] takes_intros)
  with t have "takes ((tmo + (intv + 22)) + 0)
      (wbind (\<lambda>w. timed_loop (clock w + tmo) (fixture_ready_pass net intv) w)
       (\<lambda>r. wret (case r of Some _ \<Rightarrow> Inr () | None \<Rightarrow> Inl TimeoutError)))"
    using assms by (intro takes_wbind takes_wret takes_timed_loop) auto
  then show ?thesis by (simp add: takes_def fixture_wait_for_ready_def wbind_def add.assoc)
qed

section \<open>What a step does\<close>

text \<open>A step only extends the history, by events that satisfy \<open>P\<close>.\<close>

definition emits :: "(event \<Rightarrow> bool) \<Rightarrow> 'a step \<Rightarrow> bool" where
  "emits P m \<longleftrightarrow> (\<forall>w r w'. m w = Some (r, w') \<longrightarrow> (\<exists>es. hist w' = hist w @ es \<and> list_all P es))"

named_theorems emits_intros \<open>what the steps add to the history\<close>

lemma emitsD: "emits P m \<Longrightarrow> m w = Some (r, w') \<Longrightarrow> \<exists>es. hist w' = hist w @ es \<and> list_all P es"
  unfolding emits_def by blast

lemma emits_trans:
  assumes "\<exists>es. hist w1 = hist w @ es \<and> list_all P es" "\<exists>es. hist w2 = hist w1 @ es \<and> list_all P es"
  shows "\<exists>es. hist w2 = hist w @ es \<and> list_all P es"
  using assms by fastforce

lemma emits_wret [emits_intros]: "emits P (wret r)"
  by (auto simp: emits_def intro!: exI [of _ "[]"])

lemma emits_wbind [emits_intros]: "emits P m \<Longrightarrow> (\<And>x. emits P (f x)) \<Longrightarrow> emits P (wbind m f)"
  unfolding emits_def [of _ "wbind m f"] wbind_eq_Some by (blast intro: emits_trans dest: emitsD)

lemma emits_wcatch [emits_intros]: "emits P m \<Longrightarrow> (\<And>e. emits P (h e)) \<Longrightarrow> emits P (wcatch p m h)"
  unfolding emits_def [of _ "wcatch p m h"] wcatch_eq_Some by (blast intro: emits_trans dest: emitsD)

lemma emits_wfinally [emits_intros]: "emits P m \<Longrightarrow> (\<And>r. emits P (f r)) \<Longrightarrow> emits P (wfinally m f)"
  unfolding emits_def [of _ "wfinally m f"] wfinally_eq_Some by (blast intro: emits_trans dest: emitsD)

lemma emits_branches [emits_intros]:
  "(p \<Longrightarrow> emits P m) \<Longrightarrow> (\<not> p \<Longrightarrow> emits P m') \<Longrightarrow> emits P (if p then m else m')"
  "(z = None \<Longrightarrow> emits P m) \<Longrightarrow> (\<And>y. z = Some y \<Longrightarrow> emits P (k y)) \<Longrightarrow> emits P (case z of None \<Rightarrow> m | Some y \<Rightarrow> k y)"
  "(\<And>x. emits P (f x)) \<Longrightarrow> (\<And>y. emits P (g y)) \<Longrightarrow> emits P (case s of Inl x \<Rightarrow> f x | Inr y \<Rightarrow> g y)"
  by (auto split: option.split sum.split)

lemma emits_case_prod [emits_intros]: "(\<And>x y. emits P (q x y)) \<Longrightarrow> emits P (case xy of (x, y) \<Rightarrow> q x y)"
  by (auto split: prod.split)

lemma emits_Let [emits_intros]: "(\<And>x. emits P (q x)) \<Longrightarrow> emits P (let x = v in q x)"
  by (simp add: Let_def)

lemma emits_steps [emits_intros]:
  "P (Slept s) \<Longrightarrow> emits P (wsleep s)" "P (NewClient b) \<Longrightarrow> emits P (open_client b)" "P (ClosedClient b) \<Longrightarrow> emits P (close_client b)"
  "emits P (fixture_reconnect i)" "P (Sent (get_request u tmo)) \<Longrightarrow> emits P (plain_get net u tmo)"
  by (auto simp: emits_def wsleep_def open_client_def close_client_def fixture_reconnect_def plain_get_def split: prod.splits)

lemma emits_session_send [emits_intros]: "P (SentAs j rq) \<Longrightarrow> emits P (session_send net j rq)"
  by (auto simp: emits_def session_send_def split: prod.splits)

lemma emits_call [emits_intros]: "P (Sent (request_of f c)) \<Longrightarrow> emits P (call net f c)"
  by (auto simp: emits_def call_def exchange_def Let_def split: prod.splits sum.splits)

lemma emits_fixture_call [emits_intros]: "(\<And>c. P (Sent (request_of f c))) \<Longrightarrow> emits P (fixture_call net f)"
  by (auto simp: emits_def fixture_call_def exchange_def Let_def split: prod.splits)

lemma state_loop_induct [consumes 1, case_names expired stopped again]:
  assumes run: "state_loop d body s w = Some (r, w')"
    and expired: "\<And>s w. d \<le> clock w \<Longrightarrow> Q s w (Inr None) w"
    and stopped: "\<And>s w r w'. clock w < d \<Longrightarrow> body s w = Some (r, w') \<Longrightarrow> \<forall>s'. r \<noteq> Inr (Inl s') \<Longrightarrow>
        Q s w (case r of Inl e \<Rightarrow> Inl e | Inr (Inr x) \<Rightarrow> Inr (Some x) | Inr (Inl _) \<Rightarrow> Inr None) w'"
    and again: "\<And>s w s1 w1 r w'. clock w < d \<Longrightarrow> body s w = Some (Inr (Inl s1), w1) \<Longrightarrow> Q s1 w1 r w' \<Longrightarrow> Q s w r w'"
  shows "Q s w r w'"
proof -
  let ?P = "\<lambda>d' body' s w x. d' = d \<longrightarrow> body' = body \<longrightarrow> Q s w (fst x) (snd x)"
  have "?P d body s w (r, w')"
  proof (rule state_loop.raw_induct [OF _ run, where P = ?P], intro impI)
    fix loop d' body' s w x
    assume IH: "\<And>d' body' s w x. loop d' body' s w = Some x \<Longrightarrow> ?P d' body' s w x"
      and x: "(if clock w < d' then
        (case body' s w of None \<Rightarrow> None | Some (Inl e, w) \<Rightarrow> Some (Inl e, w) | Some (Inr (Inr r), w) \<Rightarrow> Some (Inr (Some r), w)
         | Some (Inr (Inl s), w) \<Rightarrow> loop d' body' s w)
        else Some (Inr None, w)) = Some x" and eq: "d' = d" "body' = body"
    show "Q s w (fst x) (snd x)"
    proof (cases "\<exists>s1 w1. clock w < d \<and> body s w = Some (Inr (Inl s1), w1)")
      case True
      then obtain s1 w1 where w1: "clock w < d" "body s w = Some (Inr (Inl s1), w1)" by blast
      then have "loop d body s1 w1 = Some x" using x eq by simp
      then show ?thesis using IH again [OF w1] by blast
    next
      case False
      then consider "d \<le> clock w" "x = (Inr None, w)"
        | r1 where "clock w < d" "body s w = Some (r1, snd x)" "\<forall>s'. r1 \<noteq> Inr (Inl s')"
            "fst x = (case r1 of Inl e \<Rightarrow> Inl e | Inr (Inr x) \<Rightarrow> Inr (Some x) | Inr (Inl _) \<Rightarrow> Inr None)"
        using x eq by (auto split: if_splits option.splits sum.splits prod.splits)
      then show ?thesis
      proof cases
        case 1
        then show ?thesis using expired by simp
      next
        case (2 r1)
        then show ?thesis using stopped [OF 2(1-3)] by simp
      qed
    qed
  qed
  then show ?thesis by simp
qed

lemma timed_loop_induct [consumes 1, case_names expired stopped again]:
  assumes run: "timed_loop d body w = Some (r, w')"
    and expired: "\<And>w. d \<le> clock w \<Longrightarrow> Q w (Inr None) w"
    and stopped: "\<And>w r w'. clock w < d \<Longrightarrow> body w = Some (r, w') \<Longrightarrow> r \<noteq> Inr None \<Longrightarrow> Q w r w'"
    and again: "\<And>w w1 r w'. clock w < d \<Longrightarrow> body w = Some (Inr None, w1) \<Longrightarrow> Q w1 r w' \<Longrightarrow> Q w r w'"
  shows "Q w r w'"
  using run unfolding timed_loop_def
proof (induction rule: state_loop_induct [where Q = "\<lambda>_. Q"])
  case (stopped s w r w')
  then obtain r1 where "body w = Some (r1, w')" "r1 \<noteq> Inr None"
    "(case r of Inl e \<Rightarrow> Inl e | Inr (Inr x) \<Rightarrow> Inr (Some x) | Inr (Inl _) \<Rightarrow> Inr None) = r1"
    by (auto simp: go_round_def wbind_eq_Some split: option.splits)
  with assms(3) stopped(1) show ?case by metis
next
  case (again s w s1 w1 r w')
  then show ?case using assms(4) by (simp add: go_round_again)
qed (rule expired)

lemma timed_loop_unfold:
  "timed_loop d body w =
     (if clock w < d then
        (case body w of
           None \<Rightarrow> None
         | Some (Inl e, w) \<Rightarrow> Some (Inl e, w)
         | Some (Inr (Some r), w) \<Rightarrow> Some (Inr (Some r), w)
         | Some (Inr None, w) \<Rightarrow> timed_loop d body w)
      else Some (Inr None, w))"
  unfolding timed_loop_def by (subst state_loop.simps) (simp add: go_round_def wbind_def wret_def split: option.split sum.split)

lemma emits_state_loop:
  assumes "\<And>s. emits P (body s)" "state_loop d body s w = Some (r, w')"
  shows "\<exists>es. hist w' = hist w @ es \<and> list_all P es"
  using assms(2)
proof (induction rule: state_loop_induct)
  case (expired s w)
  then show ?case by (intro exI [of _ "[]"]) simp
next
  case (stopped s w r w')
  then show ?case using emitsD [OF assms(1)] by blast
next
  case (again s w s1 w1 r w')
  then show ?case using emitsD [OF assms(1)] by (blast intro: emits_trans)
qed

lemma emits_timed_loop:
  assumes "emits P body" "timed_loop d body w = Some (r, w')"
  shows "\<exists>es. hist w' = hist w @ es \<and> list_all P es"
proof (rule emits_state_loop)
  show "emits P (go_round body u)" for u unfolding go_round_def by (intro emits_intros assms(1))
qed (use assms(2) in \<open>simp add: timed_loop_def\<close>)

lemma emits_wait [emits_intros]: "emits P body \<Longrightarrow> emits P (\<lambda>w. timed_loop (clock w + tmo) body w)"
  unfolding emits_def [of P "\<lambda>w. timed_loop (clock w + tmo) body w"] by (blast dest: emits_timed_loop)

lemma request_of_eqs:
  "request_of (\<lambda>out. auth out l p) c =
     \<lparr>meth = ''POST'', url = base_url c @ ''/auth'', req_json = Some (JObj [(''login'', JStr l), (''pass'', JStr p)]), req_timeout = 10\<rparr>"
  "request_of get_info c = \<lparr>meth = ''GET'', url = base_url c @ ''/info'', req_json = None, req_timeout = 10\<rparr>"
  "request_of get_settings c = \<lparr>meth = ''GET'', url = base_url c @ ''/settings'', req_json = None, req_timeout = 30\<rparr>"
  "request_of (\<lambda>out. update_settings out data) c =
     \<lparr>meth = ''POST'', url = base_url c @ ''/settings'', req_json = Some data, req_timeout = 30\<rparr>"
  "request_of (\<lambda>out. execute_command out cmd) c =
     \<lparr>meth = ''POST'', url = base_url c @ ''/cmd'', req_json = Some (JObj [(''cmd'', JStr cmd)]), req_timeout = 30\<rparr>"
  by (simp_all add: request_of_def auth_def get_info_def get_settings_def update_settings_def execute_command_def
      session_request_def requests_def)

lemma emits_fixture_wait [emits_intros]:
  assumes "P (Slept intv)" "\<And>c. P (Sent (request_of (\<lambda>out. auth out DEFAULT_LOGIN DEFAULT_PASSWORD) c))"
    "\<And>c. P (Sent (request_of get_info c))"
  shows "emits P (fixture_wait_for_ready net tmo intv)"
proof -
  have "emits P (fixture_ready_pass net intv)" unfolding fixture_ready_pass_def by (rule emits_intros assms)+
  then have "emits P (wbind (\<lambda>w. timed_loop (clock w + tmo) (fixture_ready_pass net intv) w)
      (\<lambda>r. wret (case r of Some _ \<Rightarrow> Inr () | None \<Rightarrow> Inl TimeoutError)))" by (intro emits_intros)
  then show ?thesis by (simp add: emits_def fixture_wait_for_ready_def wbind_def)
qed

section \<open>Evaluation\<close>

lemma wbind_assoc: "wbind (wbind m f) g = wbind m (\<lambda>x. wbind (f x) g)"
  by (rule ext) (simp add: wbind_def split: option.split sum.split)

lemma wbind_Some: "m w = Some (Inr x, w') \<Longrightarrow> wbind m f w = f x w'"
  by (simp add: wbind_def)

lemmas step_defs = wret_def wbind_def wcatch_def wfinally_def wsleep_def open_client_def close_client_def call_def fixture_call_def
  plain_get_def fixture_reconnect_def get_request_def

lemma request_of_session:
  "request_of (\<lambda>out. session_request out m path body tmo) c = \<lparr>meth = m, url = base_url c @ path, req_json = body, req_timeout = tmo\<rparr>"
  by (simp add: request_of_def session_request_def requests_def)

lemma exchange_session:
  "exchange net (\<lambda>out. session_request out m path body tmo) c w =
     (let rq = \<lparr>meth = m, url = base_url c @ path, req_json = body, req_timeout = tmo\<rparr>;
          out = snd (net (hist w) (cookies (sess c)) rq) in
      (fst out, snd (session_request out m path body tmo c),
       w\<lparr>clock := clock w + DELAY_S + fst (net (hist w) (cookies (sess c)) rq), hist := hist w @ [Sent rq]\<rparr>))"
  by (simp add: exchange_def request_of_session Let_def session_request_def split: prod.split)

lemma session_request_base [simp]: "base_url (snd (session_request out m path body tmo c)) = base_url c"
  by (simp add: session_request_def)

lemma exchange_get:
  "exchange net get_info = exchange net (\<lambda>out. session_request out ''GET'' ''/info'' None 10)"
  "exchange net get_settings = exchange net (\<lambda>out. session_request out ''GET'' ''/settings'' None 30)"
  by (simp_all add: get_info_def [abs_def] get_settings_def [abs_def])

section \<open>The timed wait is the client's wait\<close>

text \<open>On the fixture, the timed wait does what \<open>wait_for_ready\<close> of \<^theory_text>\<open>Api_Client\<close> does with the clock
  readings and the replies of that run.\<close>

lemma fixture_ready_pass_sim:
  assumes "fixture_ready_pass net intv w = Some (r, w')"
  shows "\<exists>outs. ready_pass intv outs (fixture w) =
    (case r of Inl e \<Rightarrow> Stop (Inl e, fixture w') | Inr (Some _) \<Rightarrow> Stop (Inr (), fixture w') | Inr None \<Rightarrow> Next (fixture w'))"
proof -
  let ?w1 = "w\<lparr>clock := clock w + intv, hist := hist w @ [Slept intv], fixture := reconnect (pause intv (fixture w))\<rparr>"
  let ?w2 = "snd (the (fixture_call net (\<lambda>out. auth out DEFAULT_LOGIN DEFAULT_PASSWORD) ?w1))"
  let ?outs = "(snd (net (hist ?w1) (cookies (sess (fixture ?w1))) (request_of (\<lambda>out. auth out DEFAULT_LOGIN DEFAULT_PASSWORD) (fixture ?w1))),
     snd (net (hist ?w2) (cookies (sess (fixture ?w2))) (request_of get_info (fixture ?w2))))"
  have "ready_pass intv ?outs (fixture w) =
    (case r of Inl e \<Rightarrow> Stop (Inl e, fixture w') | Inr (Some _) \<Rightarrow> Stop (Inr (), fixture w') | Inr None \<Rightarrow> Next (fixture w'))"
    using assms by (auto simp: fixture_ready_pass_def ready_pass_def wbind_def wcatch_def wret_def wsleep_def fixture_reconnect_def
        fixture_call_def exchange_def Let_def pause_def auth_def get_info_def session_request_def split: prod.splits sum.splits if_splits)
  then show ?thesis by blast
qed

lemma fixture_loop_sim:
  assumes "timed_loop d (fixture_ready_pass net intv) w = Some (r, w')"
  shows "\<exists>ps rest. deadline_loop (\<lambda>_. True) d (ready_pass intv) ps (fixture w) = Some (case r of Inl e \<Rightarrow> Stopped (Inl e, fixture w')
     | Inr (Some _) \<Rightarrow> Stopped (Inr (), fixture w') | Inr None \<Rightarrow> Expired (fixture w'), rest)"
  using assms
proof (induction rule: timed_loop_induct)
  case (expired w)
  then have "deadline_loop (\<lambda>_. True) d (ready_pass intv) [(clock w, undefined)] (fixture w) = Some (Expired (fixture w), [])"
    by (simp add: loop_simps)
  then show ?case by auto
next
  case (stopped w r w')
  obtain outs where "ready_pass intv outs (fixture w) =
    (case r of Inl e \<Rightarrow> Stop (Inl e, fixture w') | Inr (Some _) \<Rightarrow> Stop (Inr (), fixture w') | Inr None \<Rightarrow> Next (fixture w'))"
    using fixture_ready_pass_sim [OF stopped(2)] by blast
  then have "deadline_loop (\<lambda>_. True) d (ready_pass intv) [(clock w, outs)] (fixture w) = Some (case r of Inl e \<Rightarrow> Stopped (Inl e, fixture w')
     | Inr (Some _) \<Rightarrow> Stopped (Inr (), fixture w') | Inr None \<Rightarrow> Expired (fixture w'), [])"
    using stopped by (auto simp: loop_simps split: sum.splits option.splits)
  then show ?case by blast
next
  case (again w w1 r w')
  obtain outs where o: "ready_pass intv outs (fixture w) = Next (fixture w1)" using fixture_ready_pass_sim [OF again(2)] by auto
  from again(3) obtain ps rest where ps: "deadline_loop (\<lambda>_. True) d (ready_pass intv) ps (fixture w1) = Some (case r of Inl e \<Rightarrow> Stopped (Inl e, fixture w')
     | Inr (Some _) \<Rightarrow> Stopped (Inr (), fixture w') | Inr None \<Rightarrow> Expired (fixture w'), rest)" by blast
  have "deadline_loop (\<lambda>_. True) d (ready_pass intv) ((clock w, outs) # ps) (fixture w) =
    deadline_loop (\<lambda>_. True) d (ready_pass intv) ps (fixture w1)" using again(1) o by (simp add: loop_simps)
  with ps show ?case by metis
qed

lemma fixture_wait_sim:
  assumes "fixture_wait_for_ready net tmo intv w = Some (r, w')"
  shows "\<exists>ps. wait_for_ready (clock w) tmo intv ps (fixture w) = Some (r, fixture w')"
proof -
  from assms obtain r1 where 1: "timed_loop (clock w + tmo) (fixture_ready_pass net intv) w = Some (r1, w')"
    "r = (case r1 of Inl e \<Rightarrow> Inl e | Inr (Some _) \<Rightarrow> Inr () | Inr None \<Rightarrow> Inl TimeoutError)"
    by (auto simp: fixture_wait_for_ready_def wbind_eq_Some split: option.splits)
  from fixture_loop_sim [OF 1(1)] 1(2) show ?thesis
    by (fastforce simp: wait_for_ready_def split: sum.splits option.splits)
qed

section \<open>How a step may fail\<close>

definition fails_in :: "(exn \<Rightarrow> bool) \<Rightarrow> 'a step \<Rightarrow> bool" where
  "fails_in P m \<longleftrightarrow> (\<forall>w e w'. m w = Some (Inl e, w') \<longrightarrow> P e)"

text \<open>Every request that fails does so with one of the package's own exceptions.\<close>

definition transport_only :: "net \<Rightarrow> bool" where
  "transport_only net \<longleftrightarrow> (\<forall>h j rq e. fst (snd (net h j rq)) = Inl e \<longrightarrow> e = RequestException)"

named_theorems fails_intros \<open>how the steps may fail\<close>

lemma fails_mono: "fails_in P m \<Longrightarrow> (\<And>e. P e \<Longrightarrow> Q e) \<Longrightarrow> fails_in Q m"
  unfolding fails_in_def by blast

lemma fails_wbind [fails_intros]: "fails_in P m \<Longrightarrow> (\<And>x. fails_in P (f x)) \<Longrightarrow> fails_in P (wbind m f)"
  unfolding fails_in_def wbind_eq_Some by blast

lemma fails_wret [fails_intros]: "fails_in P (wret (Inr x))"
  by (simp add: fails_in_def)

lemma fails_wcatch: "fails_in Q m \<Longrightarrow> (\<And>e. fails_in P (h e)) \<Longrightarrow> (\<And>e. Q e \<Longrightarrow> \<not> c e \<Longrightarrow> P e) \<Longrightarrow> fails_in P (wcatch c m h)"
  unfolding fails_in_def wcatch_eq_Some by blast

lemma fails_if [fails_intros]: "fails_in P m \<Longrightarrow> fails_in P m' \<Longrightarrow> fails_in P (if b then m else m')"
  by simp

lemma fails_steps [fails_intros]: "fails_in P (wsleep s)" "fails_in P (fixture_reconnect i)"
  by (simp_all add: fails_in_def wsleep_def fixture_reconnect_def)

lemma fails_sends:
  assumes "transport_only net"
  shows "fails_in (\<lambda>e. e = RequestException) (session_send net j rq)"
    "fails_in (\<lambda>e. e = RequestException) (fixture_call net (\<lambda>out. session_request out m path body tmo))"
  using assms
  by (auto simp: fails_in_def session_send_def fixture_call_def exchange_session transport_only_def map_sum_def Let_def
      split: prod.splits sum.splits)
     (metis fst_conv snd_conv)

lemma fails_state_loop:
  assumes "\<And>s. fails_in P (body s)"
  shows "fails_in P (state_loop d body s)"
proof -
  have "\<forall>e. r = Inl e \<longrightarrow> P e" if "state_loop d body s w = Some (r, w')" for w r w'
    using that
  proof (induction rule: state_loop_induct)
    case (stopped s w r w')
    show ?case
    proof (cases r)
      case (Inl e)
      then show ?thesis using stopped(2) assms [of s] by (auto simp: fails_in_def)
    next
      case (Inr x)
      then show ?thesis by (auto split: sum.splits)
    qed
  qed simp_all
  then show ?thesis by (auto simp: fails_in_def)
qed

lemma fails_fixture_wait:
  assumes "transport_only net"
  shows "fails_in (\<lambda>e. e = TimeoutError) (fixture_wait_for_ready net tmo intv)"
proof -
  have calls: "fails_in (\<lambda>e. e = RequestException) (wbind (fixture_call net (\<lambda>out. auth out DEFAULT_LOGIN DEFAULT_PASSWORD)) (\<lambda>_.
        wbind (fixture_call net get_info) (\<lambda>resp. wret (Inr (if status_code resp = 200 then Some () else None)))))"
    using fails_sends(2) [OF assms]
    by (intro fails_intros) (simp_all add: auth_def get_info_def [abs_def])
  have "fails_in (\<lambda>e. e = TimeoutError) (fixture_ready_pass net intv)"
    unfolding fixture_ready_pass_def
    by (rule fails_wbind, rule fails_steps, rule fails_wbind, rule fails_steps, rule fails_wcatch [OF calls], rule fails_wret, simp)
  then have "fails_in (\<lambda>e. e = TimeoutError) (go_round (fixture_ready_pass net intv) u)" for u
    unfolding go_round_def by (intro fails_intros)
  from fails_state_loop [OF this] show ?thesis
    by (auto simp: fails_in_def fixture_wait_for_ready_def timed_loop_def wbind_eq_Some split: option.splits)
qed

end
