(* ===== verification/Web_Port.thy ===== *)
theory Web_Port
  imports Timed_World Cache_Poll
begin

text \<open>
  \<open>api_tests/40_test_web_port.py\<close>: moving the device's HTTP server to another port and putting it
  back. The windows and budgets, the probes, the retried write, the authenticated reboot, the
  readback, the restore that is judged by its end state, and the test with its teardown, on the
  world of \<^theory_text>\<open>Timed_World\<close>. Error texts are kept as the data they render.
\<close>

section \<open>Windows and budgets\<close>

definition DEFAULT_PORT_GUEST :: int where "DEFAULT_PORT_GUEST = 80"
definition ALT_PORT_GUEST :: int where "ALT_PORT_GUEST = 8081"

definition REACHABLE_TIMEOUT_S :: rat where "REACHABLE_TIMEOUT_S = 5"
definition PROBE_TIMEOUT_S :: rat where "PROBE_TIMEOUT_S = 2"
definition POLL_INTERVAL_S :: rat where "POLL_INTERVAL_S = 1"
definition COLD_BOOT_WAIT_S :: rat where "COLD_BOOT_WAIT_S = 600"

definition RESTORE_PORT_WAIT_S :: rat where "RESTORE_PORT_WAIT_S = 300"
definition RESTORE_DEFAULT_WAIT_S :: rat where "RESTORE_DEFAULT_WAIT_S = COLD_BOOT_WAIT_S"
definition RESTORE_RETRY_PORT_WAIT_S :: rat where "RESTORE_RETRY_PORT_WAIT_S = 60"
definition RESTORE_RETRY_DEFAULT_WAIT_S :: rat where "RESTORE_RETRY_DEFAULT_WAIT_S = 120"
definition RESTORE_REARM_S :: rat where "RESTORE_REARM_S = 300"
definition RESTORE_ATTEMPTS :: int where "RESTORE_ATTEMPTS = 4"
definition RESTORE_ATTEMPT_PAUSE_S :: rat where "RESTORE_ATTEMPT_PAUSE_S = 2"
definition RESTORE_REWRITE_ATTEMPTS :: int where "RESTORE_REWRITE_ATTEMPTS = 2"
definition RESTORE_READ_ATTEMPTS :: int where "RESTORE_READ_ATTEMPTS = 3"
definition RESTORE_READ_PAUSE_S :: rat where "RESTORE_READ_PAUSE_S = 2"
definition RESTORE_FAILFAST_WAIT_S :: rat where "RESTORE_FAILFAST_WAIT_S = 300"

definition CALL_AUTH_S :: rat where "CALL_AUTH_S = 11"
definition CALL_INFO_S :: rat where "CALL_INFO_S = 11"
definition CALL_SETTINGS_S :: rat where "CALL_SETTINGS_S = 31"
definition CALL_CMD_S :: rat where "CALL_CMD_S = 31"

definition URL_POLL_OVERRUN_S :: rat where "URL_POLL_OVERRUN_S = PROBE_TIMEOUT_S + POLL_INTERVAL_S"
definition BASE_POLL_OVERRUN_S :: rat where "BASE_POLL_OVERRUN_S = 2 * PROBE_TIMEOUT_S + POLL_INTERVAL_S"
definition READY_POLL_OVERRUN_S :: rat where "READY_POLL_OVERRUN_S = POLL_INTERVAL_S + CALL_AUTH_S + CALL_INFO_S"

definition WRITE_COST_S :: rat where
  "WRITE_COST_S = of_int RESTORE_ATTEMPTS * (CALL_AUTH_S + CALL_SETTINGS_S) + of_int (RESTORE_ATTEMPTS - 1) * RESTORE_ATTEMPT_PAUSE_S"
definition REWRITE_COST_S :: rat where
  "REWRITE_COST_S = of_int RESTORE_REWRITE_ATTEMPTS * (CALL_AUTH_S + CALL_SETTINGS_S) + of_int (RESTORE_REWRITE_ATTEMPTS - 1) * RESTORE_ATTEMPT_PAUSE_S"
definition READ_COST_S :: rat where
  "READ_COST_S = of_int RESTORE_READ_ATTEMPTS * CALL_SETTINGS_S + of_int (RESTORE_READ_ATTEMPTS - 1) * RESTORE_READ_PAUSE_S"

definition BODY_BUDGET_S :: rat where
  "BODY_BUDGET_S = REACHABLE_TIMEOUT_S + CALL_SETTINGS_S + CALL_CMD_S + COLD_BOOT_WAIT_S + URL_POLL_OVERRUN_S + REACHABLE_TIMEOUT_S"

definition TEARDOWN_BUDGET_S :: rat where
  "TEARDOWN_BUDGET_S = RESTORE_PORT_WAIT_S + BASE_POLL_OVERRUN_S + WRITE_COST_S + CALL_AUTH_S + CALL_CMD_S
     + RESTORE_DEFAULT_WAIT_S + URL_POLL_OVERRUN_S + RESTORE_RETRY_PORT_WAIT_S + BASE_POLL_OVERRUN_S + WRITE_COST_S
     + RESTORE_RETRY_DEFAULT_WAIT_S + URL_POLL_OVERRUN_S + RESTORE_REARM_S + READY_POLL_OVERRUN_S
     + READ_COST_S + REWRITE_COST_S + READ_COST_S"

definition FIXTURE_BUDGET_S :: rat where "FIXTURE_BUDGET_S = 45"
definition TEST_TIMEOUT_S :: rat where "TEST_TIMEOUT_S = BODY_BUDGET_S + TEARDOWN_BUDGET_S + FIXTURE_BUDGET_S"

section \<open>Probes\<close>

definition is_reachable :: "net \<Rightarrow> string \<Rightarrow> rat \<Rightarrow> bool step" where
  "is_reachable net u tmo =
     wcatch (\<lambda>e. e = RequestException) (wbind (plain_get net u tmo) (\<lambda>_. wret (Inr True))) (\<lambda>_. wret (Inr False))"

definition url_pass :: "net \<Rightarrow> string \<Rightarrow> unit option step" where
  "url_pass net u =
     wbind (is_reachable net u PROBE_TIMEOUT_S) (\<lambda>b.
       if b then wret (Inr (Some ())) else wbind (wsleep POLL_INTERVAL_S) (\<lambda>_. wret (Inr None)))"

definition wait_for_url :: "net \<Rightarrow> string \<Rightarrow> rat \<Rightarrow> bool step" where
  "wait_for_url net u tmo =
     wbind (\<lambda>w. timed_loop (clock w + tmo) (url_pass net u) w) (\<lambda>r. wret (Inr (r \<noteq> None)))"

fun probe_bases :: "net \<Rightarrow> string list \<Rightarrow> string option step" where
  "probe_bases net [] = wret (Inr None)"
| "probe_bases net (b # bs) =
     wbind (is_reachable net (b @ ''/favicon.webp'') PROBE_TIMEOUT_S) (\<lambda>ok.
       if ok then wret (Inr (Some b)) else probe_bases net bs)"

definition base_pass :: "net \<Rightarrow> string list \<Rightarrow> string option step" where
  "base_pass net bs =
     wbind (probe_bases net bs) (\<lambda>r.
       if r \<noteq> None then wret (Inr r) else wbind (wsleep POLL_INTERVAL_S) (\<lambda>_. wret (Inr None)))"

definition wait_for_serving_base :: "net \<Rightarrow> string list \<Rightarrow> rat \<Rightarrow> string option step" where
  "wait_for_serving_base net bs tmo w = timed_loop (clock w + tmo) (base_pass net bs) w"

section \<open>Writing web_port\<close>

datatype attempt_error =
    NoAttempt
  | SettingsRefused int int
  | NoSuccess json
  | Raised exn
  | ReadRefused int
  | NoWebPort

datatype write_error = WriteFailed int string attempt_error

definition web_port_doc :: "int \<Rightarrow> json" where
  "web_port_doc port = JObj [(''web_port'', JNum (of_int port))]"

text \<open>The judgement on the two responses: \<open>None\<close> when the device confirmed the write.\<close>

definition judge_write :: "(response \<Rightarrow> json res) \<Rightarrow> response \<Rightarrow> response \<Rightarrow> attempt_error option res" where
  "judge_write js auth_resp resp =
     (if status_code resp \<noteq> 200 then Inr (Some (SettingsRefused (status_code resp) (status_code auth_resp)))
      else rbind (js resp) (\<lambda>body. rbind (jget body ''success'' JNull) (\<lambda>v.
        Inr (if v = JBool True then None else Some (NoSuccess body)))))"

definition write_attempt :: "(response \<Rightarrow> json res) \<Rightarrow> net \<Rightarrow> string \<Rightarrow> int \<Rightarrow> attempt_error option step" where
  "write_attempt js net b port =
     wbind (open_client b) (\<lambda>client.
       wfinally
         (wcatch is_Exception
           (wbind (call net (\<lambda>out. auth out DEFAULT_LOGIN DEFAULT_PASSWORD) client) (\<lambda>(auth_resp, client).
            wbind (call net (\<lambda>out. update_settings out (web_port_doc port)) client) (\<lambda>(resp, client).
            wret (judge_write js auth_resp resp))))
           (\<lambda>e. wret (Inr (Some (Raised e)))))
         (\<lambda>_. close_client b))"

fun write_attempts :: "(response \<Rightarrow> json res) \<Rightarrow> net \<Rightarrow> string \<Rightarrow> int \<Rightarrow> int \<Rightarrow> int list \<Rightarrow> attempt_error \<Rightarrow> write_error option step" where
  "write_attempts js net b port attempts [] last_error = wret (Inr (Some (WriteFailed attempts b last_error)))"
| "write_attempts js net b port attempts (attempt # later) last_error =
     wbind (write_attempt js net b port) (\<lambda>r.
       case r of
         None \<Rightarrow> wret (Inr None)
       | Some err \<Rightarrow>
           wbind (if attempt < attempts then wsleep RESTORE_ATTEMPT_PAUSE_S else wret (Inr ())) (\<lambda>_.
             write_attempts js net b port attempts later err))"

definition write_web_port :: "(response \<Rightarrow> json res) \<Rightarrow> net \<Rightarrow> string \<Rightarrow> int \<Rightarrow> int \<Rightarrow> write_error option step" where
  "write_web_port js net b port attempts = write_attempts js net b port attempts [1..attempts] NoAttempt"

section \<open>Reboot\<close>

datatype reboot_error = AuthFailed exn | CmdRejected int int | RebootRaised exn

definition reboot_via :: "net \<Rightarrow> string \<Rightarrow> reboot_error option step" where
  "reboot_via net b =
     wbind (open_client b) (\<lambda>client.
       wfinally
         (wcatch is_Exception
           (wbind
             (wcatch (\<lambda>e. e = RequestException)
               (wbind (call net (\<lambda>out. auth out DEFAULT_LOGIN DEFAULT_PASSWORD) client) (\<lambda>p. wret (Inr (Inr p))))
               (\<lambda>e. wret (Inr (Inl (AuthFailed e)))))
             (\<lambda>s. case s of
                Inl err \<Rightarrow> wret (Inr (Some err))
              | Inr (auth_resp, client) \<Rightarrow>
                  wcatch (\<lambda>e. e = RequestException)
                    (wbind (call net (\<lambda>out. execute_command out ''reboot'') client) (\<lambda>(resp, client).
                       wret (Inr (if status_code resp = 200 then None
                                  else Some (CmdRejected (status_code resp) (status_code auth_resp))))))
                    (\<lambda>_. wret (Inr None))))
           (\<lambda>e. wret (Inr (Some (RebootRaised e)))))
         (\<lambda>_. close_client b))"

section \<open>Readback\<close>

text \<open>\<open>Readable v\<close> is the value; \<open>Unreadable\<close> the sentinel with the description.\<close>

datatype readback = Readable json | Unreadable int attempt_error

definition judge_read :: "(response \<Rightarrow> json res) \<Rightarrow> response \<Rightarrow> (attempt_error + json) res" where
  "judge_read js resp =
     (if status_code resp \<noteq> 200 then Inr (Inl (ReadRefused (status_code resp)))
      else rbind (js resp) (\<lambda>body. rbind (jin ''web_port'' body) (\<lambda>there.
        if there then rbind (jindex ''web_port'' body) (\<lambda>v. Inr (Inr v)) else Inr (Inl NoWebPort))))"

definition read_attempt :: "(response \<Rightarrow> json res) \<Rightarrow> net \<Rightarrow> (attempt_error + json) step" where
  "read_attempt js net =
     wcatch is_Exception
       (wbind (fixture_call net get_settings) (\<lambda>resp. wret (judge_read js resp)))
       (\<lambda>e. wret (Inr (Inl (Raised e))))"

fun read_attempts :: "(response \<Rightarrow> json res) \<Rightarrow> net \<Rightarrow> int \<Rightarrow> int list \<Rightarrow> attempt_error \<Rightarrow> readback step" where
  "read_attempts js net attempts [] last_error = wret (Inr (Unreadable attempts last_error))"
| "read_attempts js net attempts (attempt # later) last_error =
     wbind (read_attempt js net) (\<lambda>r.
       case r of
         Inr v \<Rightarrow> wret (Inr (Readable v))
       | Inl err \<Rightarrow>
           wbind (if attempt < attempts then wsleep RESTORE_READ_PAUSE_S else wret (Inr ())) (\<lambda>_.
             read_attempts js net attempts later err))"

definition read_web_port :: "(response \<Rightarrow> json res) \<Rightarrow> net \<Rightarrow> readback step" where
  "read_web_port js net = read_attempts js net RESTORE_READ_ATTEMPTS [1..RESTORE_READ_ATTEMPTS] NoAttempt"

section \<open>Restore\<close>

datatype step_error = FirstWrite write_error | RestoreReboot string reboot_error | RetryWrite string write_error | Rewrite string write_error

datatype write_step = EveryWriteOk | WriteErrors "step_error list"

definition describe :: "step_error list \<Rightarrow> write_step" where
  "describe errs = (if errs = [] then EveryWriteOk else WriteErrors errs)"

datatype problem =
    NowhereToWrite rat
  | GoneAfterWrite rat rat write_step
  | NotBackAfterRetry rat rat string write_step
  | CannotReauth rat exn
  | NotConfirmed int attempt_error write_step
  | WrongPort json write_step
  | RestoreItselfRaised exn

datatype severity = Error | Warning

type_synonym verdict = "(problem \<times> severity) option"

definition note_error :: "'e option \<Rightarrow> ('e \<Rightarrow> step_error) \<Rightarrow> step_error list \<Rightarrow> step_error list" where
  "note_error err f errs = (case err of None \<Rightarrow> errs | Some e \<Rightarrow> errs @ [f e])"

definition is_default :: "readback \<Rightarrow> bool" where
  "is_default r \<longleftrightarrow> (case r of Readable v \<Rightarrow> jeq_int v DEFAULT_PORT_GUEST | Unreadable _ _ \<Rightarrow> False)"

text \<open>From the re-armed fixture to the end: read back, rewrite when the value is not the default, read back again.\<close>

definition confirm_default :: "(response \<Rightarrow> json res) \<Rightarrow> net \<Rightarrow> string \<Rightarrow> step_error list \<Rightarrow> verdict step" where
  "confirm_default js net default_url write_errors =
     wbind (read_web_port js net) (\<lambda>rb.
       if is_default rb then wret (Inr None)
       else
         wbind (write_web_port js net default_url DEFAULT_PORT_GUEST RESTORE_REWRITE_ATTEMPTS) (\<lambda>err.
         wbind (read_web_port js net) (\<lambda>rb.
           let write_errors = note_error err (Rewrite default_url) write_errors in
           wret (Inr
             (if is_default rb then None
              else case rb of
                Unreadable n e \<Rightarrow> Some (NotConfirmed n e (describe write_errors), Warning)
              | Readable v \<Rightarrow> Some (WrongPort v (describe write_errors), Error))))))"

definition rearm_and_confirm :: "(response \<Rightarrow> json res) \<Rightarrow> net \<Rightarrow> string \<Rightarrow> step_error list \<Rightarrow> verdict step" where
  "rearm_and_confirm js net default_url write_errors =
     wbind (wcatch is_Exception (wbind (fixture_wait_for_ready net RESTORE_REARM_S 1) (\<lambda>_. wret (Inr None)))
              (\<lambda>e. wret (Inr (Some e))))
       (\<lambda>r. case r of
          Some e \<Rightarrow> wret (Inr (Some (CannotReauth RESTORE_REARM_S e, Error)))
        | None \<Rightarrow> confirm_default js net default_url write_errors)"

text \<open>The pass taken when the default port did not answer: find a port, write again, wait again.\<close>

definition second_pass :: "(response \<Rightarrow> json res) \<Rightarrow> net \<Rightarrow> string \<Rightarrow> string \<Rightarrow> rat \<Rightarrow> step_error list \<Rightarrow> (verdict + step_error list) step" where
  "second_pass js net alt_url default_url default_wait_s write_errors =
     wbind (wait_for_serving_base net [alt_url, default_url] RESTORE_RETRY_PORT_WAIT_S) (\<lambda>retry_base.
       case retry_base of
         None \<Rightarrow> wret (Inr (Inl (Some (GoneAfterWrite default_wait_s RESTORE_RETRY_PORT_WAIT_S (describe write_errors), Error))))
       | Some retry_base \<Rightarrow>
           wbind (write_web_port js net retry_base DEFAULT_PORT_GUEST RESTORE_ATTEMPTS) (\<lambda>err.
           wbind (wait_for_url net (default_url @ ''/favicon.webp'') RESTORE_RETRY_DEFAULT_WAIT_S) (\<lambda>back.
             let write_errors = note_error err (RetryWrite retry_base) write_errors in
             wret (Inr
               (if back then Inr write_errors
                else Inl (Some (NotBackAfterRetry default_wait_s RESTORE_RETRY_DEFAULT_WAIT_S retry_base (describe write_errors), Error)))))))"

definition restore_default_web_port ::
  "(response \<Rightarrow> json res) \<Rightarrow> net \<Rightarrow> string \<Rightarrow> string \<Rightarrow> rat \<Rightarrow> rat \<Rightarrow> bool \<Rightarrow> verdict step" where
  "restore_default_web_port js net alt_url default_url port_wait_s default_wait_s allow_reboot =
     wbind (wait_for_serving_base net [alt_url, default_url] port_wait_s) (\<lambda>b.
       case b of
         None \<Rightarrow> wret (Inr (Some (NowhereToWrite port_wait_s, Error)))
       | Some b \<Rightarrow>
           wbind (write_web_port js net b DEFAULT_PORT_GUEST RESTORE_ATTEMPTS) (\<lambda>err.
           wbind (if b = alt_url \<and> allow_reboot then reboot_via net alt_url else wret (Inr None)) (\<lambda>rerr.
             let write_errors = note_error rerr (RestoreReboot alt_url) (note_error err FirstWrite []) in
             wbind (wait_for_url net (default_url @ ''/favicon.webp'') default_wait_s) (\<lambda>back.
             wbind (if back then wret (Inr (Inr write_errors))
                    else second_pass js net alt_url default_url default_wait_s write_errors) (\<lambda>s.
               case s of
                 Inl v \<Rightarrow> wret (Inr v)
               | Inr write_errors \<Rightarrow> rearm_and_confirm js net default_url write_errors)))))"

section \<open>The test\<close>

text \<open>The warnings the teardown issues.\<close>

definition run_restore :: "(response \<Rightarrow> json res) \<Rightarrow> net \<Rightarrow> string \<Rightarrow> string \<Rightarrow> bool \<Rightarrow> verdict step" where
  "run_restore js net alt_url default_url body_failed =
     wcatch is_Exception
       (restore_default_web_port js net alt_url default_url RESTORE_PORT_WAIT_S
          (if body_failed then RESTORE_FAILFAST_WAIT_S else RESTORE_DEFAULT_WAIT_S) (\<not> body_failed))
       (\<lambda>e. wret (Inr (Some (RestoreItselfRaised e, Error))))"

text \<open>\<open>warnings.warn(message)\<close> does not raise; \<open>RuntimeError(message)\<close> does.\<close>

definition report :: "bool \<Rightarrow> verdict \<Rightarrow> unit res" where
  "report body_failed v =
     (case v of
        None \<Rightarrow> Inr ()
      | Some (_, sev) \<Rightarrow> if body_failed \<or> sev = Warning then Inr () else Inl RuntimeError)"

definition is_failure :: "'a res \<Rightarrow> bool" where
  "is_failure r \<longleftrightarrow> (case r of Inl _ \<Rightarrow> True | Inr _ \<Rightarrow> False)"

definition teardown :: "(response \<Rightarrow> json res) \<Rightarrow> net \<Rightarrow> string \<Rightarrow> string \<Rightarrow> unit res \<Rightarrow> unit step" where
  "teardown js net alt_url default_url body_result =
     wbind (run_restore js net alt_url default_url (is_failure body_result)) (\<lambda>v. wret (report (is_failure body_result) v))"

definition wassert :: "bool \<Rightarrow> unit step" where
  "wassert b = wret (if b then Inr () else Inl AssertionError)"

definition web_port_body :: "(response \<Rightarrow> json res) \<Rightarrow> net \<Rightarrow> string \<Rightarrow> string \<Rightarrow> unit step" where
  "web_port_body js net alt_url default_url =
     wbind (fixture_call net (\<lambda>out. update_settings out (web_port_doc ALT_PORT_GUEST))) (\<lambda>resp.
     wbind (wret (settings_accepted js resp)) (\<lambda>_.
     wbind (wcatch is_Exception (wbind (fixture_call net (\<lambda>out. execute_command out ''reboot'')) (\<lambda>_. wret (Inr ()))) (\<lambda>_. wret (Inr ()))) (\<lambda>_.
     wbind (wait_for_url net (alt_url @ ''/favicon.webp'') COLD_BOOT_WAIT_S) (\<lambda>ready.
     wbind (wassert ready) (\<lambda>_.
     wbind (is_reachable net default_url REACHABLE_TIMEOUT_S) (\<lambda>still. wassert (\<not> still)))))))"

definition test_web_port_change :: "(response \<Rightarrow> json res) \<Rightarrow> net \<Rightarrow> string \<Rightarrow> string \<Rightarrow> unit step" where
  "test_web_port_change js net alt_url default_url =
     wbind (is_reachable net default_url REACHABLE_TIMEOUT_S) (\<lambda>up.
     wbind (wassert up) (\<lambda>_.
       wfinally (web_port_body js net alt_url default_url) (teardown js net alt_url default_url)))"

section \<open>Time budget\<close>

lemmas window_defs = REACHABLE_TIMEOUT_S_def PROBE_TIMEOUT_S_def POLL_INTERVAL_S_def COLD_BOOT_WAIT_S_def
  RESTORE_PORT_WAIT_S_def RESTORE_DEFAULT_WAIT_S_def RESTORE_RETRY_PORT_WAIT_S_def RESTORE_RETRY_DEFAULT_WAIT_S_def
  RESTORE_REARM_S_def RESTORE_ATTEMPTS_def RESTORE_ATTEMPT_PAUSE_S_def RESTORE_REWRITE_ATTEMPTS_def
  RESTORE_READ_ATTEMPTS_def RESTORE_READ_PAUSE_S_def RESTORE_FAILFAST_WAIT_S_def

lemmas budget_defs = CALL_AUTH_S_def CALL_INFO_S_def CALL_SETTINGS_S_def CALL_CMD_S_def URL_POLL_OVERRUN_S_def
  BASE_POLL_OVERRUN_S_def READY_POLL_OVERRUN_S_def WRITE_COST_S_def REWRITE_COST_S_def READ_COST_S_def
  BODY_BUDGET_S_def TEARDOWN_BUDGET_S_def FIXTURE_BUDGET_S_def TEST_TIMEOUT_S_def

lemma probe_nonneg: "0 \<le> PROBE_TIMEOUT_S" "0 \<le> REACHABLE_TIMEOUT_S"
  by (simp_all add: window_defs)

lemma takes_is_reachable:
  assumes "keeps_timeouts net" "0 \<le> tmo"
  shows "takes tmo (is_reachable net u tmo)"
  unfolding is_reachable_def by (rule takes_mono, (rule takes_intros assms)+, simp)

lemma url_pass_time:
  assumes "keeps_timeouts net"
  shows "takes URL_POLL_OVERRUN_S (url_pass net u)" "paces POLL_INTERVAL_S (url_pass net u)"
  unfolding url_pass_def
  by (rule takes_mono, (rule takes_intros takes_is_reachable assms | simp add: window_defs)+, simp add: budget_defs window_defs)
    (rule takes_intros takes_is_reachable probe_nonneg assms)+

lemma takes_wait_for_url:
  assumes "keeps_timeouts net" "0 \<le> tmo"
  shows "takes (tmo + URL_POLL_OVERRUN_S) (wait_for_url net u tmo)"
  unfolding wait_for_url_def
  by (rule takes_mono, (rule takes_intros url_pass_time assms | simp add: window_defs)+)

lemma takes_probe_bases:
  assumes "keeps_timeouts net"
  shows "takes (of_nat (length bs) * PROBE_TIMEOUT_S) (probe_bases net bs)"
proof (induction bs)
  case Nil
  show ?case by (simp add: takes_wret)
next
  case (Cons b bs)
  show ?case unfolding probe_bases.simps
    by (rule takes_mono, (rule takes_intros takes_is_reachable probe_nonneg assms Cons.IH)+) (simp add: PROBE_TIMEOUT_S_def)
qed

lemma base_pass_time:
  assumes "keeps_timeouts net"
  shows "takes BASE_POLL_OVERRUN_S (base_pass net [a, b])" "paces POLL_INTERVAL_S (base_pass net [a, b])"
proof -
  show "takes BASE_POLL_OVERRUN_S (base_pass net [a, b])" unfolding base_pass_def
    by (rule takes_mono, (rule takes_intros takes_probe_bases assms | simp add: window_defs)+, simp add: budget_defs window_defs)
  show "paces POLL_INTERVAL_S (base_pass net [a, b])" unfolding base_pass_def
    by (rule paces_then, rule takes_probe_bases [OF assms]) (auto simp: paces_def wbind_eq_Some wsleep_def)
qed

lemma takes_wait_for_serving_base:
  assumes "keeps_timeouts net" "0 \<le> tmo"
  shows "takes (tmo + BASE_POLL_OVERRUN_S) (wait_for_serving_base net [a, b] tmo)"
  using takes_timed_loop [OF base_pass_time [OF assms(1)] _ assms(2)]
  by (simp add: takes_def wait_for_serving_base_def POLL_INTERVAL_S_def)

lemma takes_write_attempt:
  assumes "keeps_timeouts net"
  shows "takes (CALL_AUTH_S + CALL_SETTINGS_S) (write_attempt js net b port)"
  unfolding write_attempt_def
  by (rule takes_mono, (rule takes_intros assms)+) (simp add: budget_defs)

text \<open>\<open>n\<close> attempts with a pause after each but the last.\<close>

definition retry_cost :: "rat \<Rightarrow> rat \<Rightarrow> nat \<Rightarrow> rat" where
  "retry_cost once gap n = of_nat n * once + of_nat (n - 1) * gap"

lemma retry_cost_Suc:
  "once \<ge> 0 \<Longrightarrow> gap \<ge> 0 \<Longrightarrow> n > 0 \<Longrightarrow> retry_cost once gap (Suc n) = once + (gap + retry_cost once gap n)"
  by (cases n) (simp_all add: retry_cost_def algebra_simps)

lemma takes_write_attempts:
  assumes "keeps_timeouts net"
  shows "takes (retry_cost (CALL_AUTH_S + CALL_SETTINGS_S) RESTORE_ATTEMPT_PAUSE_S (nat (n - a + 1))) (write_attempts js net b port n [a..n] e)"
proof (induction "nat (n - a + 1)" arbitrary: a e)
  case 0
  then show ?case by (simp add: takes_wret retry_cost_def)
next
  case (Suc k)
  then have l: "[a..n] = a # [a + 1..n]" "k = nat (n - (a + 1) + 1)" by (simp_all add: upto.simps)
  have p: "takes (if a < n then RESTORE_ATTEMPT_PAUSE_S else 0) (if a < n then wsleep RESTORE_ATTEMPT_PAUSE_S else wret (Inr ()))"
    by (simp add: takes_steps takes_wret RESTORE_ATTEMPT_PAUSE_S_def)
  have "takes ((CALL_AUTH_S + CALL_SETTINGS_S) + max 0 ((if a < n then RESTORE_ATTEMPT_PAUSE_S else 0) +
      retry_cost (CALL_AUTH_S + CALL_SETTINGS_S) RESTORE_ATTEMPT_PAUSE_S k)) (write_attempts js net b port n [a..n] e)"
    unfolding l(1) write_attempts.simps
    by (rule takes_intros takes_write_attempt assms p Suc(1) [OF l(2), folded l(2)])+
  then show ?case
  proof (rule takes_mono)
    show "(CALL_AUTH_S + CALL_SETTINGS_S) + max 0 ((if a < n then RESTORE_ATTEMPT_PAUSE_S else 0) +
      retry_cost (CALL_AUTH_S + CALL_SETTINGS_S) RESTORE_ATTEMPT_PAUSE_S k) \<le>
      retry_cost (CALL_AUTH_S + CALL_SETTINGS_S) RESTORE_ATTEMPT_PAUSE_S (nat (n - a + 1))"
      unfolding Suc(2) [symmetric]
      using l(2) by (cases "a < n") (auto simp: retry_cost_Suc budget_defs window_defs, auto simp: retry_cost_def)
  qed
qed

lemma takes_write_web_port:
  assumes "keeps_timeouts net"
  shows "takes WRITE_COST_S (write_web_port js net b port RESTORE_ATTEMPTS)"
    "takes REWRITE_COST_S (write_web_port js net b port RESTORE_REWRITE_ATTEMPTS)"
  using takes_write_attempts [OF assms, of 4 1 js b port] takes_write_attempts [OF assms, of 2 1 js b port]
  by (simp_all add: write_web_port_def retry_cost_def budget_defs window_defs)

lemma takes_reboot_via:
  assumes "keeps_timeouts net"
  shows "takes (CALL_AUTH_S + CALL_CMD_S) (reboot_via net b)"
  unfolding reboot_via_def
  by (rule takes_mono, (rule takes_intros assms)+) (simp add: budget_defs)

lemma takes_read_attempt:
  assumes "keeps_timeouts net"
  shows "takes CALL_SETTINGS_S (read_attempt js net)"
  unfolding read_attempt_def by (rule takes_mono, (rule takes_intros assms)+) (simp add: budget_defs)

lemma takes_read_web_port:
  assumes "keeps_timeouts net"
  shows "takes READ_COST_S (read_web_port js net)"
proof -
  have l: "[1..3] = [1, 2, 3 :: int]" "((3 :: int) < 3) = False" by (simp_all add: upto.simps)
  show ?thesis unfolding read_web_port_def l read_attempts.simps RESTORE_READ_ATTEMPTS_def l(2) if_False
    by (rule takes_mono, (rule takes_intros takes_read_attempt assms | simp add: window_defs)+) (simp add: budget_defs window_defs)
qed

lemma takes_rearm_and_confirm:
  assumes "keeps_timeouts net"
  shows "takes (RESTORE_REARM_S + READY_POLL_OVERRUN_S + READ_COST_S + REWRITE_COST_S + READ_COST_S) (rearm_and_confirm js net d errs)"
  unfolding rearm_and_confirm_def confirm_default_def
  by (rule takes_mono, (rule takes_intros takes_wait_for_ready takes_read_web_port takes_write_web_port assms | simp add: window_defs)+)
    (simp add: budget_defs window_defs)

lemma takes_second_pass:
  assumes "keeps_timeouts net"
  shows "takes (RESTORE_RETRY_PORT_WAIT_S + BASE_POLL_OVERRUN_S + WRITE_COST_S + RESTORE_RETRY_DEFAULT_WAIT_S + URL_POLL_OVERRUN_S)
     (second_pass js net a d dw errs)"
  unfolding second_pass_def
  by (rule takes_mono, (rule takes_intros takes_wait_for_serving_base takes_wait_for_url takes_write_web_port assms | simp add: window_defs)+)
    (simp add: budget_defs window_defs)

lemma takes_restore:
  assumes "keeps_timeouts net" "0 \<le> pw" "0 \<le> dw"
  shows "takes (pw + dw + (TEARDOWN_BUDGET_S - RESTORE_PORT_WAIT_S - RESTORE_DEFAULT_WAIT_S))
     (restore_default_web_port js net a d pw dw reboot)"
  unfolding restore_default_web_port_def
  by (rule takes_mono, (rule takes_intros takes_wait_for_serving_base takes_wait_for_url takes_write_web_port takes_reboot_via
      takes_second_pass takes_rearm_and_confirm assms | simp add: window_defs)+)
    (insert assms, simp add: budget_defs window_defs)

lemma takes_body:
  assumes "keeps_timeouts net"
  shows "takes (BODY_BUDGET_S - REACHABLE_TIMEOUT_S) (web_port_body js net a d)"
  unfolding web_port_body_def wassert_def
  by (rule takes_mono, (rule takes_intros takes_is_reachable takes_wait_for_url assms | simp add: window_defs)+)
    (simp add: budget_defs window_defs)

lemma takes_teardown:
  assumes "keeps_timeouts net"
  shows "takes TEARDOWN_BUDGET_S (teardown js net a d r)"
proof -
  have "takes (RESTORE_PORT_WAIT_S + RESTORE_DEFAULT_WAIT_S + (TEARDOWN_BUDGET_S - RESTORE_PORT_WAIT_S - RESTORE_DEFAULT_WAIT_S))
      (restore_default_web_port js net a d RESTORE_PORT_WAIT_S (if is_failure r then RESTORE_FAILFAST_WAIT_S else RESTORE_DEFAULT_WAIT_S)
        (\<not> is_failure r))"
    using assms by (auto simp: window_defs intro!: takes_mono [OF takes_restore])
  then show ?thesis unfolding teardown_def run_restore_def
    by (intro takes_mono [OF takes_wbind [OF takes_wcatch [OF _ takes_wret] takes_wret]]) auto
qed


section \<open>What the verdict means\<close>

text \<open>Between the two worlds, \<open>u\<close> was probed and answered.\<close>

definition url_answered :: "net \<Rightarrow> string \<Rightarrow> world \<Rightarrow> world \<Rightarrow> bool" where
  "url_answered net u w w' \<longleftrightarrow>
     (\<exists>es later resp. hist w' = hist w @ es @ [Sent (get_request u PROBE_TIMEOUT_S)] @ later \<and>
        fst (snd (net (hist w @ es) [] (get_request u PROBE_TIMEOUT_S))) = Inr resp)"

text \<open>The last thing the fixture did was a \<open>GET /settings\<close> that reported the value.\<close>

definition reads_port :: "(response \<Rightarrow> json res) \<Rightarrow> net \<Rightarrow> world \<Rightarrow> json \<Rightarrow> bool" where
  "reads_port js net w' v \<longleftrightarrow>
     (let rq = \<lparr>meth = ''GET'', url = base_url (fixture w') @ ''/settings'', req_json = None, req_timeout = 30\<rparr> in
      \<exists>h jar resp kvs. hist w' = h @ [Sent rq] \<and> fst (snd (net h jar rq)) = Inr resp \<and> status_code resp = 200 \<and>
        js resp = Inr (JObj kvs) \<and> map_of kvs ''web_port'' = Some v)"

lemma url_answered_mono:
  "url_answered net u w w1 \<Longrightarrow> (\<exists>es. hist w2 = hist w1 @ es \<and> list_all P es) \<Longrightarrow> url_answered net u w w2"
  unfolding url_answered_def by fastforce

lemma url_answered_later:
  assumes "\<exists>es. hist w1 = hist w @ es \<and> list_all P es" "url_answered net u w1 w2"
  shows "url_answered net u w w2"
  using assms unfolding url_answered_def by (metis append.assoc)

text \<open>Every step only adds to the history.\<close>

abbreviation grows :: "'a step \<Rightarrow> bool" where "grows \<equiv> emits (\<lambda>_. True)"

lemma grows_probes [emits_intros]:
  "P (Sent (get_request u tmo)) \<Longrightarrow> emits P (is_reachable net u tmo)"
  "P (Sent (get_request u PROBE_TIMEOUT_S)) \<Longrightarrow> P (Slept POLL_INTERVAL_S) \<Longrightarrow> emits P (wait_for_url net u tmo)"
  unfolding is_reachable_def wait_for_url_def url_pass_def by (rule emits_intros | assumption)+

lemma emits_probe_bases:
  "(\<And>b. b \<in> set bs \<Longrightarrow> P (Sent (get_request (b @ ''/favicon.webp'') PROBE_TIMEOUT_S))) \<Longrightarrow> emits P (probe_bases net bs)"
  by (induction bs) (auto intro!: emits_intros)

lemma emits_wait_for_serving_base [emits_intros]:
  assumes "\<And>b. b \<in> set bs \<Longrightarrow> P (Sent (get_request (b @ ''/favicon.webp'') PROBE_TIMEOUT_S))" "P (Slept POLL_INTERVAL_S)"
  shows "emits P (wait_for_serving_base net bs tmo)"
proof -
  have "emits P (base_pass net bs)" unfolding base_pass_def by (rule emits_intros emits_probe_bases assms | assumption)+
  from emits_wait [OF this] show ?thesis by (simp add: emits_def wait_for_serving_base_def)
qed

lemma emits_write_web_port [emits_intros]:
  assumes "P (NewClient b)" "P (ClosedClient b)" "P (Slept RESTORE_ATTEMPT_PAUSE_S)"
    "\<And>c. P (Sent (request_of (\<lambda>out. auth out DEFAULT_LOGIN DEFAULT_PASSWORD) c))"
    "\<And>c. P (Sent (request_of (\<lambda>out. update_settings out (web_port_doc port)) c))"
  shows "emits P (write_web_port js net b port n)"
proof -
  have "emits P (write_attempt js net b port)" unfolding write_attempt_def by (rule emits_intros assms)+
  then have "emits P (write_attempts js net b port n as e)" for as e
    by (induction as arbitrary: e) (auto intro!: emits_intros assms)
  then show ?thesis by (simp add: write_web_port_def)
qed

lemma emits_reboot_via [emits_intros]:
  assumes "P (NewClient b)" "P (ClosedClient b)"
    "\<And>c. P (Sent (request_of (\<lambda>out. auth out DEFAULT_LOGIN DEFAULT_PASSWORD) c))"
    "\<And>c. P (Sent (request_of (\<lambda>out. execute_command out ''reboot'') c))"
  shows "emits P (reboot_via net b)"
  unfolding reboot_via_def by (rule emits_intros assms)+

lemma emits_read_web_port [emits_intros]:
  assumes "P (Slept RESTORE_READ_PAUSE_S)" "\<And>c. P (Sent (request_of get_settings c))"
  shows "emits P (read_web_port js net)"
proof -
  have "emits P (read_attempt js net)" unfolding read_attempt_def by (rule emits_intros assms)+
  then have "emits P (read_attempts js net n as e)" for n as e
    by (induction as arbitrary: e) (auto intro!: emits_intros assms)
  then show ?thesis by (simp add: read_web_port_def)
qed

lemma is_reachable_True:
  assumes "is_reachable net u PROBE_TIMEOUT_S w = Some (Inr True, w')"
  shows "url_answered net u w w'"
proof -
  from assms have "hist w' = hist w @ [] @ [Sent (get_request u PROBE_TIMEOUT_S)] @ []"
    "\<exists>resp. fst (snd (net (hist w @ []) [] (get_request u PROBE_TIMEOUT_S))) = Inr resp"
    by (auto simp: is_reachable_def step_eqs plain_get_def split: prod.splits)
  then show ?thesis unfolding url_answered_def by blast
qed

lemma wait_for_url_True:
  assumes "wait_for_url net u tmo w = Some (Inr True, w')"
  shows "url_answered net u w w'"
proof -
  from assms have "timed_loop (clock w + tmo) (url_pass net u) w = Some (Inr (Some ()), w')"
    by (auto simp: wait_for_url_def wbind_eq_Some)
  moreover have "grows (url_pass net u)" unfolding url_pass_def by (rule emits_intros TrueI)+
  ultimately have "Inr (Some ()) = (Inr (Some ()) :: unit option res) \<longrightarrow> url_answered net u w w'"
  proof (induction w "Inr (Some ()) :: unit option res" w' rule: timed_loop_induct)
    case (stopped w w')
    then show ?case by (auto simp: url_pass_def step_eqs split: if_splits dest: is_reachable_True)
  next
    case (again w w1 w')
    then show ?case by (blast dest: emitsD intro: url_answered_later)
  qed
  then show ?thesis by simp
qed

lemma read_attempt_Inr:
  assumes "read_attempt js net w = Some (Inr (Inr v), w')"
  shows "reads_port js net w' v"
proof -
  from assms obtain resp where resp: "fixture_call net get_settings w = Some (Inr resp, w')" "judge_read js resp = Inr (Inr v)"
    by (auto simp: read_attempt_def step_eqs)
  let ?rq = "\<lparr>meth = ''GET'', url = base_url (fixture w') @ ''/settings'', req_json = None, req_timeout = 30\<rparr>"
  have "base_url (fixture w') = base_url (fixture w)" "hist w' = hist w @ [Sent ?rq]"
    "fst (snd (net (hist w) (cookies (sess (fixture w))) ?rq)) = Inr resp"
    using resp(1) by (auto simp: fixture_call_def exchange_def Let_def request_of_eqs get_settings_def session_request_def split: prod.splits)
  moreover obtain kvs where "status_code resp = 200" "js resp = Inr (JObj kvs)" "map_of kvs ''web_port'' = Some v"
    using resp(2) by (auto simp: judge_read_def rbind_eq_Inr jindex_def split: if_splits json.splits option.splits)
  ultimately show ?thesis unfolding reads_port_def Let_def by blast
qed

lemma read_attempts_Readable:
  "read_attempts js net n as e w = Some (Inr (Readable v), w') \<Longrightarrow> reads_port js net w' v"
proof (induction as arbitrary: e w)
  case (Cons a as)
  then obtain r w1 where r: "read_attempt js net w = Some (Inr r, w1)" by (auto simp: wbind_eq_Some)
  show ?case
  proof (cases r)
    case (Inl x)
    then show ?thesis using Cons r by (auto simp: wbind_eq_Some)
  next
    case (Inr x)
    then show ?thesis using Cons.prems r by (auto simp: wbind_eq_Some dest: read_attempt_Inr)
  qed
qed simp

lemma confirm_default_sound:
  assumes "confirm_default js net d errs w = Some (Inr v, w')"
  shows "(v = None \<longrightarrow> (\<exists>x. reads_port js net w' x \<and> jeq_int x DEFAULT_PORT_GUEST)) \<and>
    (\<forall>p. v = Some (p, Warning) \<longrightarrow> (\<exists>n e s. p = NotConfirmed n e s)) \<and>
    (\<forall>x s sev. v = Some (WrongPort x s, sev) \<longrightarrow> sev = Error \<and> reads_port js net w' x \<and> \<not> jeq_int x DEFAULT_PORT_GUEST)"
  using assms by (auto simp: confirm_default_def wbind_eq_Some is_default_def read_web_port_def Let_def
      split: if_splits readback.splits dest: read_attempts_Readable)

lemma rearm_sound:
  assumes "rearm_and_confirm js net d errs w = Some (Inr v, w')"
  shows "(v = None \<longrightarrow> (\<exists>x. reads_port js net w' x \<and> jeq_int x DEFAULT_PORT_GUEST)) \<and>
    (\<forall>p. v = Some (p, Warning) \<longrightarrow> (\<exists>n e s. p = NotConfirmed n e s)) \<and>
    (\<forall>x s sev. v = Some (WrongPort x s, sev) \<longrightarrow> sev = Error \<and> reads_port js net w' x \<and> \<not> jeq_int x DEFAULT_PORT_GUEST)"
proof -
  from assms obtain r w1 where r: "(case r of Some e \<Rightarrow> wret (Inr (Some (CannotReauth RESTORE_REARM_S e, Error)))
      | None \<Rightarrow> confirm_default js net d errs) w1 = Some (Inr v, w')"
    unfolding rearm_and_confirm_def wbind_eq_Some [where r = "Inr v"] by blast
  show ?thesis
  proof (cases r)
    case None
    then show ?thesis using r confirm_default_sound by auto
  qed (use r in auto)
qed

lemma emits_rearm:
  assumes "\<And>s. P (Slept s)" "\<And>b. P (NewClient b)" "\<And>b. P (ClosedClient b)"
    "\<And>c. P (Sent (request_of (\<lambda>out. auth out DEFAULT_LOGIN DEFAULT_PASSWORD) c))" "\<And>c. P (Sent (request_of get_info c))"
    "\<And>c. P (Sent (request_of get_settings c))" "\<And>c. P (Sent (request_of (\<lambda>out. update_settings out (web_port_doc DEFAULT_PORT_GUEST)) c))"
  shows "emits P (rearm_and_confirm js net d errs)"
  unfolding rearm_and_confirm_def confirm_default_def by (rule emits_intros assms)+

lemma emits_second_pass:
  assumes "\<And>s. P (Slept s)" "\<And>b. P (NewClient b)" "\<And>b. P (ClosedClient b)" "\<And>u tmo. P (Sent (get_request u tmo))"
    "\<And>c. P (Sent (request_of (\<lambda>out. auth out DEFAULT_LOGIN DEFAULT_PASSWORD) c))"
    "\<And>c. P (Sent (request_of (\<lambda>out. update_settings out (web_port_doc DEFAULT_PORT_GUEST)) c))"
  shows "emits P (second_pass js net a d dw errs)"
  unfolding second_pass_def by (rule emits_intros assms)+

lemma emits_restore:
  assumes "\<And>s. P (Slept s)" "\<And>b. P (NewClient b)" "\<And>b. P (ClosedClient b)" "\<And>u tmo. P (Sent (get_request u tmo))"
    "\<And>c. P (Sent (request_of (\<lambda>out. auth out DEFAULT_LOGIN DEFAULT_PASSWORD) c))" "\<And>c. P (Sent (request_of get_info c))"
    "\<And>c. P (Sent (request_of get_settings c))" "\<And>c. P (Sent (request_of (\<lambda>out. update_settings out (web_port_doc DEFAULT_PORT_GUEST)) c))"
    "\<And>c. reboot \<Longrightarrow> P (Sent (request_of (\<lambda>out. execute_command out ''reboot'') c))"
  shows "emits P (restore_default_web_port js net a d pw dw reboot)"
  unfolding restore_default_web_port_def
  by (rule emits_intros emits_second_pass emits_rearm assms | erule conjunct2)+

text \<open>A verdict backed by what the run saw: success by an answering default port and a readback of the default; a
  warning only when the default port answered and the value could not be read; a wrong port only when it was read.\<close>

definition verdict_backed :: "(response \<Rightarrow> json res) \<Rightarrow> net \<Rightarrow> string \<Rightarrow> world \<Rightarrow> world \<Rightarrow> verdict \<Rightarrow> bool" where
  "verdict_backed js net default_url w w' v \<longleftrightarrow>
     (v = None \<longrightarrow> url_answered net (default_url @ ''/favicon.webp'') w w' \<and> (\<exists>x. reads_port js net w' x \<and> jeq_int x DEFAULT_PORT_GUEST)) \<and>
     (\<forall>p. v = Some (p, Warning) \<longrightarrow> url_answered net (default_url @ ''/favicon.webp'') w w' \<and> (\<exists>n e s. p = NotConfirmed n e s)) \<and>
     (\<forall>x s sev. v = Some (WrongPort x s, sev) \<longrightarrow> sev = Error \<and> reads_port js net w' x \<and> \<not> jeq_int x DEFAULT_PORT_GUEST)"

lemma rearm_backed:
  assumes "rearm_and_confirm js net d errs w1 = Some (Inr v, w')" "url_answered net (d @ ''/favicon.webp'') w w1"
  shows "verdict_backed js net d w w' v"
proof -
  have "grows (rearm_and_confirm js net d errs)" by (rule emits_rearm) simp_all
  from emitsD [OF this assms(1)] url_answered_mono assms(2) have "url_answered net (d @ ''/favicon.webp'') w w'" by blast
  then show ?thesis using rearm_sound [OF assms(1)] by (simp add: verdict_backed_def)
qed

lemma second_pass_Inl:
  assumes "second_pass js net a d dw errs w = Some (Inr (Inl v), w')"
  shows "\<exists>p. v = Some (p, Error) \<and> (\<forall>x s. p \<noteq> WrongPort x s)"
  using assms by (auto simp: second_pass_def wbind_eq_Some Let_def split: option.splits if_splits)

lemma second_pass_Inr:
  assumes "second_pass js net a d dw errs w = Some (Inr (Inr errs'), w')"
  shows "url_answered net (d @ ''/favicon.webp'') w w'"
proof -
  from assms obtain b w1 e w2 where
    1: "wait_for_serving_base net [a, d] RESTORE_RETRY_PORT_WAIT_S w = Some (Inr (Some b), w1)"
      "write_web_port js net b DEFAULT_PORT_GUEST RESTORE_ATTEMPTS w1 = Some (Inr e, w2)"
      "wait_for_url net (d @ ''/favicon.webp'') RESTORE_RETRY_DEFAULT_WAIT_S w2 = Some (Inr True, w')"
    by (auto simp: second_pass_def wbind_eq_Some Let_def split: option.splits if_splits)
  have g: "grows (wait_for_serving_base net [a, d] RESTORE_RETRY_PORT_WAIT_S)" "grows (write_web_port js net b DEFAULT_PORT_GUEST RESTORE_ATTEMPTS)"
    by (rule emits_intros TrueI)+
  show ?thesis
    using wait_for_url_True [OF 1(3)] emitsD [OF g(1) 1(1)] emitsD [OF g(2) 1(2)] by (meson url_answered_later)
qed

lemma restore_backed:
  assumes "restore_default_web_port js net a d pw dw reboot w = Some (Inr v, w')"
  shows "verdict_backed js net d w w' v"
proof -
  from assms obtain b w1 where b: "wait_for_serving_base net [a, d] pw w = Some (Inr b, w1)"
    unfolding restore_default_web_port_def wbind_eq_Some [where r = "Inr v"] by blast
  show ?thesis
  proof (cases b)
    case None
    then have "v = Some (NowhereToWrite pw, Error)" using assms b by (auto simp: restore_default_web_port_def wbind_eq_Some)
    then show ?thesis by (simp add: verdict_backed_def)
  next
    case (Some b')
    with assms b obtain e w2 re w3 bk w4 errs s w5 where
      1: "write_web_port js net b' DEFAULT_PORT_GUEST RESTORE_ATTEMPTS w1 = Some (Inr e, w2)"
        "(if b' = a \<and> reboot then reboot_via net a else wret (Inr None)) w2 = Some (Inr re, w3)"
        "wait_for_url net (d @ ''/favicon.webp'') dw w3 = Some (Inr bk, w4)"
        "(if bk then wret (Inr (Inr errs)) else second_pass js net a d dw errs) w4 = Some (Inr s, w5)"
        "(case s of Inl v \<Rightarrow> wret (Inr v) | Inr errs \<Rightarrow> rearm_and_confirm js net d errs) w5 = Some (Inr v, w')"
      unfolding restore_default_web_port_def wbind_eq_Some [where r = "Inr v"] Let_def by (auto simp: wbind_eq_Some)
    have g0: "grows (wait_for_serving_base net [a, d] pw)" "grows (write_web_port js net b' DEFAULT_PORT_GUEST RESTORE_ATTEMPTS)"
      "grows (if b' = a \<and> reboot then reboot_via net a else wret (Inr None))" "grows (wait_for_url net (d @ ''/favicon.webp'') dw)"
      by (rule emits_intros TrueI)+
    have g: "\<exists>es. hist w3 = hist w @ es \<and> list_all (\<lambda>_. True) es" "\<exists>es. hist w4 = hist w @ es \<and> list_all (\<lambda>_. True) es"
      using emitsD [OF g0(1) b] emitsD [OF g0(2) 1(1)] emitsD [OF g0(3) 1(2)] emitsD [OF g0(4) 1(3)] by (meson emits_trans)+
    show ?thesis
    proof (cases s)
      case (Inl v')
      then have "\<exists>p. v = Some (p, Error) \<and> (\<forall>x s. p \<noteq> WrongPort x s)" using 1(4,5) by (auto split: if_splits dest: second_pass_Inl)
      then show ?thesis by (auto simp: verdict_backed_def)
    next
      case (Inr errs')
      have "url_answered net (d @ ''/favicon.webp'') w w5"
        using 1(3,4) Inr g by (auto split: if_splits dest!: second_pass_Inr wait_for_url_True intro: url_answered_later)
      then show ?thesis using 1(5) Inr rearm_backed by auto
    qed
  qed
qed

section \<open>The test's outcome\<close>

lemma run_restore_False:
  assumes "run_restore js net a d failed w = Some (Inr v, w')"
  shows "verdict_backed js net d w w' v \<or> (\<exists>e. v = Some (RestoreItselfRaised e, Error))"
  using assms restore_backed unfolding run_restore_def wcatch_eq_Some by fastforce

lemma body_passed:
  assumes "web_port_body js net a d w = Some (Inr (), w')"
  shows "url_answered net (a @ ''/favicon.webp'') w w'"
proof -
  from assms obtain resp w1 w2 w3 still where
    1: "fixture_call net (\<lambda>out. update_settings out (web_port_doc ALT_PORT_GUEST)) w = Some (Inr resp, w1)"
      "wcatch is_Exception (wbind (fixture_call net (\<lambda>out. execute_command out ''reboot'')) (\<lambda>_. wret (Inr ()))) (\<lambda>_. wret (Inr ())) w1 = Some (Inr (), w2)"
      "wait_for_url net (a @ ''/favicon.webp'') COLD_BOOT_WAIT_S w2 = Some (Inr True, w3)"
      "is_reachable net d REACHABLE_TIMEOUT_S w3 = Some (Inr still, w')"
    unfolding web_port_body_def wassert_def wbind_eq_Some [where r = "Inr ()"]
    by (auto simp: wbind_eq_Some split: if_splits)
  have g: "grows (fixture_call net (\<lambda>out. update_settings out (web_port_doc ALT_PORT_GUEST)))"
    "grows (wcatch is_Exception (wbind (fixture_call net (\<lambda>out. execute_command out ''reboot'')) (\<lambda>_. wret (Inr ()))) (\<lambda>_. wret (Inr ())))"
    "grows (is_reachable net d REACHABLE_TIMEOUT_S)"
    by (rule emits_intros TrueI)+
  show ?thesis
    using wait_for_url_True [OF 1(3)] emitsD [OF g(1) 1(1)] emitsD [OF g(2) 1(2)] emitsD [OF g(3) 1(4)]
    by (meson url_answered_later url_answered_mono)
qed

text \<open>C4: a passing web-port test leaves the device where it found it. When the test passes, the server answered on the alternative
  port during the body; after the body the default port answered again; and the run's last act was a \<open>GET /settings\<close> that
  reported the default port, or the restore could not read the setting and said so in a warning. A write that was confirmed,
  or one whose response was lost, decides nothing by itself.\<close>

theorem passing_web_port_test_restored:
  assumes "test_web_port_change js net alt_url default_url w = Some (Inr (), w')"
  shows "\<exists>w1 w2. is_reachable net default_url REACHABLE_TIMEOUT_S w = Some (Inr True, w1) \<and>
     web_port_body js net alt_url default_url w1 = Some (Inr (), w2) \<and>
     url_answered net (alt_url @ ''/favicon.webp'') w1 w2 \<and> url_answered net (default_url @ ''/favicon.webp'') w2 w' \<and>
     ((\<exists>v. reads_port js net w' v \<and> jeq_int v DEFAULT_PORT_GUEST) \<or>
      (\<exists>n e s. run_restore js net alt_url default_url False w2 = Some (Inr (Some (NotConfirmed n e s, Warning)), w')))"
proof -
  from assms obtain w1 w2 where
    1: "is_reachable net default_url REACHABLE_TIMEOUT_S w = Some (Inr True, w1)"
      "web_port_body js net alt_url default_url w1 = Some (Inr (), w2)"
      "teardown js net alt_url default_url (Inr ()) w2 = Some (Inr (), w')"
    unfolding test_web_port_change_def wassert_def by (auto simp: wbind_eq_Some wfinally_eq_Some split: if_splits)
  from 1(3) obtain v where v: "run_restore js net alt_url default_url False w2 = Some (Inr v, w')" "report False v = Inr ()"
    by (auto simp: teardown_def is_failure_def wbind_eq_Some)
  from v(2) have "v = None \<or> (\<exists>p. v = Some (p, Warning))" by (auto simp: report_def split: option.splits if_splits)
  with run_restore_False [OF v(1)] have "verdict_backed js net default_url w2 w' v" by auto
  with \<open>v = None \<or> (\<exists>p. v = Some (p, Warning))\<close> v(1) have "url_answered net (default_url @ ''/favicon.webp'') w2 w' \<and>
     ((\<exists>v. reads_port js net w' v \<and> jeq_int v DEFAULT_PORT_GUEST) \<or>
      (\<exists>n e s. run_restore js net alt_url default_url False w2 = Some (Inr (Some (NotConfirmed n e s, Warning)), w')))"
    unfolding verdict_backed_def by blast
  then show ?thesis using 1 body_passed [OF 1(2)] by blast
qed

definition is_reboot :: "event \<Rightarrow> bool" where
  "is_reboot ev \<longleftrightarrow> (case ev of Sent rq \<Rightarrow> req_json rq = Some (JObj [(''cmd'', JStr ''reboot'')]) | _ \<Rightarrow> False)"

text \<open>C10: the teardown never hides why the test failed. When the body raised, the test raises that same exception, whatever the restore
  ran into (only an interrupt of the teardown itself can take its place), and the teardown sends no reboot, for which the shortened
  wait would have no time. When the body passed, a restore that reports an error fails the test.\<close>

theorem teardown_keeps_primary_failure:
  assumes "is_reachable net default_url REACHABLE_TIMEOUT_S w = Some (Inr True, w1)"
    and "web_port_body js net alt_url default_url w1 = Some (b, w2)"
    and "test_web_port_change js net alt_url default_url w = Some (r, w')"
  shows "(\<forall>e. b = Inl e \<longrightarrow> (r = Inl e \<or> (\<exists>x. r = Inl x \<and> \<not> is_Exception x)) \<and>
       (\<exists>es. hist w' = hist w2 @ es \<and> list_all (\<lambda>ev. \<not> is_reboot ev) es)) \<and>
     (b = Inr () \<longrightarrow> (\<forall>p w3. run_restore js net alt_url default_url False w2 = Some (Inr (Some (p, Error)), w3) \<longrightarrow>
       r = Inl RuntimeError))"
proof -
  from assms have "wfinally (web_port_body js net alt_url default_url) (teardown js net alt_url default_url) w1 = Some (r, w')"
    by (auto simp: test_web_port_change_def wassert_def wbind_eq_Some split: if_splits)
  then have t: "(\<exists>u. teardown js net alt_url default_url b w2 = Some (Inr u, w') \<and> r = b) \<or>
      (\<exists>x. teardown js net alt_url default_url b w2 = Some (Inl x, w') \<and> r = Inl x)"
    using assms(2) by (auto simp: wfinally_eq_Some)
  have primary: "r = Inl e \<or> (\<exists>x. r = Inl x \<and> \<not> is_Exception x)" if "b = Inl e" for e
    using t that by (auto simp: teardown_def is_failure_def run_restore_def report_def step_eqs split: option.splits if_splits)
  have quiet: "\<exists>es. hist w' = hist w2 @ es \<and> list_all (\<lambda>ev. \<not> is_reboot ev) es" if "b = Inl e" for e
  proof -
    have "emits (\<lambda>ev. \<not> is_reboot ev) (restore_default_web_port js net alt_url default_url RESTORE_PORT_WAIT_S RESTORE_FAILFAST_WAIT_S False)"
      by (rule emits_restore) (simp_all add: is_reboot_def request_of_eqs get_request_def web_port_doc_def)
    then have "emits (\<lambda>ev. \<not> is_reboot ev) (teardown js net alt_url default_url b)"
      unfolding teardown_def run_restore_def that by (simp add: is_failure_def) (intro emits_intros)
    then show ?thesis using t by (blast dest: emitsD)
  qed
  have "r = Inl RuntimeError" if "b = Inr ()" "run_restore js net alt_url default_url False w2 = Some (Inr (Some (p, Error)), w3)" for p w3
    using t that by (auto simp: teardown_def is_failure_def report_def wbind_eq_Some)
  then show ?thesis using primary quiet by (intro conjI allI impI)
qed

text \<open>A device that serves the port in its settings, at once and without reboots: \<open>d\<close> is the default host, \<open>a\<close> the
  alternative one. Without \<open>ok\<close> it refuses to move to the alternative port.\<close>

fun ev_port :: "bool \<Rightarrow> event \<Rightarrow> int option" where
  "ev_port ok (Sent rq) =
     (if req_json rq = Some (web_port_doc 80) then Some 80 else if ok \<and> req_json rq = Some (web_port_doc 8081) then Some 8081 else None)"
| "ev_port ok _ = None"

definition port_step :: "bool \<Rightarrow> event \<Rightarrow> int \<Rightarrow> int" where
  "port_step ok ev p = (case ev_port ok ev of None \<Rightarrow> p | Some q \<Rightarrow> q)"

definition now_port :: "bool \<Rightarrow> event list \<Rightarrow> int" where
  "now_port ok h = fold (port_step ok) h 80"

definition demo_net :: "bool \<Rightarrow> net" where
  "demo_net ok h j rq =
     (0, (if take 1 (url rq) = (if now_port ok h = 80 then ''d'' else ''a'')
             then Inr \<lparr>status_code = (if \<not> ok \<and> req_json rq = Some (web_port_doc 8081) then 500 else 200), resp_text = (if now_port ok h = 80 then ''80'' else ''8081'')\<rparr>
             else Inl RequestException, []))"

definition demo_js :: "response \<Rightarrow> json res" where
  "demo_js r = Inr (JObj [(''success'', JBool True), (''web_port'', JNum (if resp_text r = ''80'' then 80 else 8081))])"

definition demo_world :: world where
  "demo_world = \<lparr>clock = 0, hist = [], fixture = new_api 0 (Some ''d'')\<rparr>"

lemmas client_defs = port_step_def exchange_get new_api_def reconnect_def pause_def auth_def
  update_settings_def execute_command_def browser_session_def new_session_def exchange_session

definition serves :: "bool \<Rightarrow> int \<Rightarrow> world \<Rightarrow> bool" where
  "serves ok p w \<longleftrightarrow> now_port ok (hist w) = p \<and> base_url (fixture w) = ''d''"

definition host :: "int \<Rightarrow> string" where "host p = (if p = 80 then ''d'' else ''a'')"

lemma now_port_more [simp]: "now_port ok (h @ ev # es) = fold (port_step ok) es (port_step ok ev (now_port ok h))"
  by (simp add: now_port_def)

lemma demo_stays_reachable:
  "is_reachable (demo_net ok) u tmo w =
     Some (Inr (take 1 u = host (now_port ok (hist w))), w\<lparr>hist := hist w @ [Sent (get_request u tmo)]\<rparr>)"
  by (simp add: is_reachable_def step_defs demo_net_def host_def)

lemma demo_wait_url:
  assumes "serves ok p w" "take 1 u = host p" "0 < tmo"
  shows "\<exists>w'. wait_for_url (demo_net ok) u tmo w = Some (Inr True, w') \<and> serves ok p w'"
  using assms by (simp add: wait_for_url_def timed_loop_unfold url_pass_def step_defs demo_stays_reachable port_step_def serves_def)

lemma demo_wait_base:
  assumes "serves ok p w" "0 < tmo"
  shows "\<exists>w'. wait_for_serving_base (demo_net ok) [''a'', ''d''] tmo w = Some (Inr (Some (host p)), w') \<and> serves ok p w'"
  using assms by (simp add: wait_for_serving_base_def timed_loop_unfold base_pass_def step_defs demo_stays_reachable port_step_def serves_def host_def)

lemma demo_write:
  assumes "serves ok p w" "q = 80 \<or> ok \<and> q = 8081" "1 \<le> n"
  shows "\<exists>w'. write_web_port demo_js (demo_net ok) (host p) q n w = Some (Inr None, w') \<and> serves ok q w'"
proof -
  have "[1..n] = 1 # [2..n]" using assms(3) by (simp add: upto.simps)
  then show ?thesis using assms
    by (auto simp: write_web_port_def write_attempt_def step_defs client_defs demo_net_def serves_def host_def judge_write_def demo_js_def
        jget_def web_port_doc_def)
qed

lemma demo_reboot:
  assumes "serves ok 80 w"
  shows "\<exists>w'. reboot_via (demo_net ok) ''a'' w = Some (Inr (Some (AuthFailed RequestException)), w') \<and> serves ok 80 w'"
  using assms by (simp add: reboot_via_def step_defs client_defs demo_net_def serves_def web_port_doc_def)

lemma demo_ready:
  assumes "serves ok 80 w" "0 < tmo"
  shows "\<exists>w'. fixture_wait_for_ready (demo_net ok) tmo 1 w = Some (Inr (), w') \<and> serves ok 80 w'"
  using assms by (simp add: fixture_wait_for_ready_def fixture_ready_pass_def timed_loop_unfold step_defs client_defs demo_net_def serves_def web_port_doc_def)

lemma demo_read:
  assumes "serves ok 80 w"
  shows "\<exists>w'. read_web_port demo_js (demo_net ok) w = Some (Inr (Readable (JNum 80)), w') \<and> serves ok 80 w'"
proof -
  have "[1..3] = 1 # [2..3 :: int]" by (simp add: upto.simps)
  then show ?thesis using assms
    by (simp add: read_web_port_def RESTORE_READ_ATTEMPTS_def read_attempt_def step_defs client_defs demo_net_def serves_def judge_read_def
        demo_js_def jin_def jindex_def web_port_doc_def)
qed

lemma demo_confirm:
  assumes "serves ok 80 w"
  shows "\<exists>w'. rearm_and_confirm demo_js (demo_net ok) ''d'' errs w = Some (Inr None, w') \<and> serves ok 80 w'"
proof -
  obtain w1 where 1: "fixture_wait_for_ready (demo_net ok) RESTORE_REARM_S 1 w = Some (Inr (), w1)" "serves ok 80 w1"
    using demo_ready [OF assms, of RESTORE_REARM_S] by (auto simp: RESTORE_REARM_S_def)
  obtain w2 where "read_web_port demo_js (demo_net ok) w1 = Some (Inr (Readable (JNum 80)), w2)" "serves ok 80 w2" using demo_read [OF 1(2)] by blast
  with 1 show ?thesis
    by (simp add: rearm_and_confirm_def confirm_default_def wbind_def wcatch_def wret_def is_default_def DEFAULT_PORT_GUEST_def)
qed

lemma demo_restore:
  assumes "serves ok p w" "0 < pw" "0 < dw" "p = 80 \<or> p = 8081"
  shows "\<exists>w'. restore_default_web_port demo_js (demo_net ok) ''a'' ''d'' pw dw reboot w = Some (Inr None, w') \<and> serves ok 80 w'"
proof -
  obtain w1 where 1: "wait_for_serving_base (demo_net ok) [''a'', ''d''] pw w = Some (Inr (Some (host p)), w1)" "serves ok p w1"
    using demo_wait_base [OF assms(1,2)] by (elim exE conjE) (rule that)
  obtain w2 where 2: "write_web_port demo_js (demo_net ok) (host p) 80 4 w1 = Some (Inr None, w2)" "serves ok 80 w2"
    using demo_write [OF 1(2), of 80 4, simplified] by (elim exE conjE) (rule that)
  obtain e w3 where 3: "(if host p = ''a'' \<and> reboot then reboot_via (demo_net ok) ''a'' else wret (Inr None)) w2 = Some (Inr e, w3)" "serves ok 80 w3"
  proof (cases "host p = ''a'' \<and> reboot")
    case True
    then show ?thesis using that demo_reboot [OF 2(2)] by auto
  next
    case False
    then show ?thesis using that 2(2) by auto
  qed
  obtain w4 where 4: "wait_for_url (demo_net ok) ''d/favicon.webp'' dw w3 = Some (Inr True, w4)" "serves ok 80 w4"
    using demo_wait_url [OF 3(2), of "''d/favicon.webp''" dw] assms(3) by (auto simp: host_def)
  show ?thesis using 1 2 3 4 demo_confirm [OF 4(2)]
    by (simp add: restore_default_web_port_def wbind_def wret_def Let_def DEFAULT_PORT_GUEST_def RESTORE_ATTEMPTS_def del: if_split)
qed

lemma demo_body:
  assumes "serves True 80 w"
  shows "\<exists>w'. web_port_body demo_js (demo_net True) ''a'' ''d'' w = Some (Inr (), w') \<and> serves True 8081 w'"
proof -
  define m where "m = wbind (fixture_call (demo_net True) (\<lambda>out. update_settings out (web_port_doc ALT_PORT_GUEST))) (\<lambda>resp.
     wbind (wret (settings_accepted demo_js resp)) (\<lambda>_.
     wcatch is_Exception (wbind (fixture_call (demo_net True) (\<lambda>out. execute_command out ''reboot'')) (\<lambda>_. wret (Inr ()))) (\<lambda>_. wret (Inr ()))))"
  obtain w2 where 2: "m w = Some (Inr (), w2)" "serves True 8081 w2"
    using assms by (simp add: m_def step_defs client_defs demo_net_def serves_def settings_accepted_def demo_js_def jget_def web_port_doc_def
        ALT_PORT_GUEST_def)
  obtain w3 where 3: "wait_for_url (demo_net True) ''a/favicon.webp'' COLD_BOOT_WAIT_S w2 = Some (Inr True, w3)" "serves True 8081 w3"
    using demo_wait_url [OF 2(2), of "''a/favicon.webp''" COLD_BOOT_WAIT_S] by (auto simp: host_def COLD_BOOT_WAIT_S_def)
  have "web_port_body demo_js (demo_net True) ''a'' ''d'' w =
     wbind (wait_for_url (demo_net True) ''a/favicon.webp'' COLD_BOOT_WAIT_S) (\<lambda>ready.
     wbind (wassert ready) (\<lambda>_.
     wbind (is_reachable (demo_net True) ''d'' REACHABLE_TIMEOUT_S) (\<lambda>still. wassert (\<not> still)))) w2"
    unfolding web_port_body_def
    by (subst wbind_Some [where m = m and w = w, OF 2(1), symmetric]) (simp add: m_def wbind_assoc)
  then show ?thesis using 3 by (simp add: wbind_def wassert_def wret_def demo_stays_reachable host_def serves_def port_step_def get_request_def web_port_doc_def)
qed

lemma demo_start: "serves ok 80 demo_world"
  by (simp add: serves_def demo_world_def now_port_def new_api_def)

lemma demo_precondition:
  "is_reachable (demo_net ok) ''d'' REACHABLE_TIMEOUT_S demo_world =
     Some (Inr True, demo_world\<lparr>hist := [Sent (get_request ''d'' REACHABLE_TIMEOUT_S)]\<rparr>)"
  by (simp add: demo_stays_reachable host_def demo_world_def now_port_def)

lemma demo_after_precondition: "serves ok 80 (demo_world\<lparr>hist := [Sent (get_request ''d'' REACHABLE_TIMEOUT_S)]\<rparr>)"
  by (simp add: serves_def demo_world_def now_port_def new_api_def port_step_def get_request_def)

lemma demo_passes: "\<exists>w'. test_web_port_change demo_js (demo_net True) ''a'' ''d'' demo_world = Some (Inr (), w')"
proof -
  let ?w = "demo_world\<lparr>hist := [Sent (get_request ''d'' REACHABLE_TIMEOUT_S)]\<rparr>"
  obtain w1 where 1: "web_port_body demo_js (demo_net True) ''a'' ''d'' ?w = Some (Inr (), w1)" "serves True 8081 w1"
    using demo_body [OF demo_after_precondition] by blast
  obtain w2 where "restore_default_web_port demo_js (demo_net True) ''a'' ''d'' RESTORE_PORT_WAIT_S RESTORE_DEFAULT_WAIT_S True w1 = Some (Inr None, w2)"
    using demo_restore [OF 1(2), of RESTORE_PORT_WAIT_S RESTORE_DEFAULT_WAIT_S True] by (auto simp: window_defs)
  then show ?thesis using 1
    by (simp add: test_web_port_change_def wbind_def wfinally_def wassert_def wret_def demo_precondition teardown_def is_failure_def
        run_restore_def wcatch_def report_def)
qed

theorem passing_web_port_test_restored_witness:
  "\<exists>w' w1 w2. test_web_port_change demo_js (demo_net True) ''a'' ''d'' demo_world = Some (Inr (), w') \<and>
     is_reachable (demo_net True) ''d'' REACHABLE_TIMEOUT_S demo_world = Some (Inr True, w1) \<and>
     web_port_body demo_js (demo_net True) ''a'' ''d'' w1 = Some (Inr (), w2) \<and>
     url_answered (demo_net True) ''a/favicon.webp'' w1 w2 \<and> url_answered (demo_net True) ''d/favicon.webp'' w2 w'"
proof -
  obtain w' where w': "test_web_port_change demo_js (demo_net True) ''a'' ''d'' demo_world = Some (Inr (), w')" using demo_passes by blast
  with passing_web_port_test_restored [OF w'] show ?thesis by auto
qed

lemma demo_keeps_timeouts: "keeps_timeouts (demo_net ok)"
  by (simp add: keeps_timeouts_def demo_net_def)


lemma demo_body_fails:
  assumes "serves False 80 w"
  shows "\<exists>w'. web_port_body demo_js (demo_net False) ''a'' ''d'' w = Some (Inl AssertionError, w') \<and> serves False 80 w'"
  using assms
  by (simp add: web_port_body_def step_defs client_defs demo_net_def serves_def settings_accepted_def web_port_doc_def ALT_PORT_GUEST_def)

theorem teardown_keeps_primary_failure_witness:
  "\<exists>w1 w2 w'. is_reachable (demo_net False) ''d'' REACHABLE_TIMEOUT_S demo_world = Some (Inr True, w1) \<and>
     web_port_body demo_js (demo_net False) ''a'' ''d'' w1 = Some (Inl AssertionError, w2) \<and>
     test_web_port_change demo_js (demo_net False) ''a'' ''d'' demo_world = Some (Inl AssertionError, w') \<and>
     (\<exists>es. hist w' = hist w2 @ es \<and> list_all (\<lambda>ev. \<not> is_reboot ev) es)"
proof -
  let ?w = "demo_world\<lparr>hist := [Sent (get_request ''d'' REACHABLE_TIMEOUT_S)]\<rparr>"
  obtain w2 where 2: "web_port_body demo_js (demo_net False) ''a'' ''d'' ?w = Some (Inl AssertionError, w2)" "serves False 80 w2"
    using demo_body_fails [OF demo_after_precondition] by blast
  obtain w' where "restore_default_web_port demo_js (demo_net False) ''a'' ''d'' RESTORE_PORT_WAIT_S RESTORE_FAILFAST_WAIT_S False w2 = Some (Inr None, w')"
    using demo_restore [OF 2(2), of RESTORE_PORT_WAIT_S RESTORE_FAILFAST_WAIT_S False] by (auto simp: window_defs)
  then have t: "test_web_port_change demo_js (demo_net False) ''a'' ''d'' demo_world = Some (Inl AssertionError, w')"
    using 2 by (simp add: test_web_port_change_def wbind_def wfinally_def wassert_def wret_def demo_precondition teardown_def is_failure_def
        run_restore_def wcatch_def report_def)
  show ?thesis using teardown_keeps_primary_failure [OF demo_precondition 2(1) t] demo_precondition [of False] 2(1) t by auto
qed

end
