(* ===== verification/Heap_Session.thy ===== *)
theory Heap_Session
  imports Client_Mode
begin

text \<open>
  The heap guard of \<open>api_tests/00_test_heap_session.py\<close>: the wait for the device to finish booting, the
  verdict it returns, the heap baseline taken at the start of a session and the leak check at its
  end, which share their verdict and baseline through the test configuration. A run of the wait is
  given by the clock readings and the replies of its samples.
\<close>

section \<open>Constants and verdicts\<close>

definition HEAP_LEAK_TOLERANCE_BYTES :: int where "HEAP_LEAK_TOLERANCE_BYTES = 16 * 1024"
definition SAMPLES :: nat where "SAMPLES = 4"
definition SAMPLE_GAP_S :: rat where "SAMPLE_GAP_S = 1/4"
definition BOOT_SETTLE_MAX_S :: rat where "BOOT_SETTLE_MAX_S = 30"
definition BOOT_SETTLE_STABLE_S :: rat where "BOOT_SETTLE_STABLE_S = 3"
definition BOOT_SETTLE_POLL_S :: rat where "BOOT_SETTLE_POLL_S = 1/4"
definition BOOT_SETTLE_NOISE_B :: int where "BOOT_SETTLE_NOISE_B = 1024"
definition PORT_KEYS :: "string list" where "PORT_KEYS = [''rs485_1'', ''rs485_2'']"
definition MODE_DISABLED :: string where "MODE_DISABLED = ''disabled''"
definition CACHE_PORT_KEY :: string where "CACHE_PORT_KEY = ''cache_modbus_active_port''"
definition CACHE_ENABLED_KEY :: string where "CACHE_ENABLED_KEY = ''cache_modbus_server_enabled''"

datatype boot_verdict = Settled | Modes_Unconverged | No_Init_Signal | Heap_Unsettled | No_Signal_Possible | Wait_Errored

definition USABLE_VERDICTS :: "boot_verdict list" where "USABLE_VERDICTS = [Settled, Modes_Unconverged]"

section \<open>Reading the payloads\<close>

text \<open>\<open>int(x)\<close>, and \<open>==\<close> between JSON values (where \<open>True == 1\<close> and the order of a dict does not matter).\<close>

fun jint :: "json \<Rightarrow> int res" where
  "jint (JNum q) = Inr (if 0 \<le> q then \<lfloor>q\<rfloor> else \<lceil>q\<rceil>)"
| "jint (JBool b) = Inr (if b then 1 else 0)"
| "jint (JStr s) = (case py_int s of Some v \<Rightarrow> Inr v | None \<Rightarrow> Inl ValueError)"
| "jint _ = Inl TypeError"

definition jnum :: "json \<Rightarrow> rat option" where
  "jnum x = (case x of JNum q \<Rightarrow> Some q | JBool b \<Rightarrow> Some (if b then 1 else 0) | _ \<Rightarrow> None)"

fun jeq :: "json \<Rightarrow> json \<Rightarrow> bool" where
  "jeq (JArr xs) (JArr ys) \<longleftrightarrow> list_all2 jeq xs ys"
| "jeq (JObj kvs) (JObj kvs') \<longleftrightarrow> length kvs = length kvs' \<and>
     list_all (\<lambda>(k, v). case map_of kvs' k of Some v' \<Rightarrow> jeq v v' | None \<Rightarrow> False) kvs"
| "jeq x y \<longleftrightarrow> x = y \<or> (jnum x \<noteq> None \<and> jnum x = jnum y)"

fun port_modes_of :: "json \<Rightarrow> string list \<Rightarrow> json list res" where
  "port_modes_of body [] = Inr []"
| "port_modes_of body (key # keys) =
     rbind (jget body key JNull) (\<lambda>port.
       case port of
         JObj kvs \<Rightarrow>
           (case map_of kvs ''port_mode'' of
              None \<Rightarrow> Inl AssertionError
            | Some mode \<Rightarrow> rbind (port_modes_of body keys) (\<lambda>modes. Inr (mode # modes)))
       | _ \<Rightarrow> Inl AssertionError)"

definition port_modes :: "json \<Rightarrow> json list res" where
  "port_modes body = port_modes_of body PORT_KEYS"

definition is_disabled :: "json \<Rightarrow> bool" where
  "is_disabled mode \<longleftrightarrow> mode = JStr MODE_DISABLED"

definition init_signal :: "json \<Rightarrow> json list \<Rightarrow> bool \<Rightarrow> bool res" where
  "init_signal info active require_cache_field =
     (if \<not> list_all is_disabled active then Inr True
      else rbind (jget info CACHE_PORT_KEY JNull) (\<lambda>active_port.
        if require_cache_field \<and> jnum active_port = None then Inl AssertionError
        else Inr (case jnum active_port of Some q \<Rightarrow> 0 < q | None \<Rightarrow> False)))"

section \<open>The wait\<close>

record tracker =
  tk_prev :: "int option"
  ready_since :: "time option"
  heap_steady_since :: time
  init_observed :: bool
  tk_samples :: int
  tk_free :: int

definition tracker0 :: "time \<Rightarrow> tracker" where
  "tracker0 start = \<lparr>tk_prev = None, ready_since = None, heap_steady_since = start, init_observed = False, tk_samples = 0, tk_free = 0\<rparr>"

text \<open>The payload of one sample: the free heap, the modes and the document.\<close>

definition read_info :: "(response \<Rightarrow> json res) \<Rightarrow> response \<Rightarrow> (json \<times> int) res" where
  "read_info js resp =
     (if status_code resp \<noteq> 200 then Inl AssertionError
      else rbind (js resp) (\<lambda>info. rbind (rbind (jindex ''heap_free'' info) jint) (\<lambda>free. Inr (info, free))))"

text \<open>The bookkeeping of a sample whose modes were read.\<close>

definition track :: "json list \<Rightarrow> json list \<Rightarrow> bool \<Rightarrow> time \<Rightarrow> int \<Rightarrow> tracker \<Rightarrow> tracker" where
  "track wanted active init now free tk =
     tk\<lparr>tk_prev := Some free,
        ready_since := (if list_all2 jeq active wanted \<and> init \<and> ready_since tk = None then Some now else ready_since tk),
        heap_steady_since := (case tk_prev tk of
            Some prev \<Rightarrow> if free < prev - BOOT_SETTLE_NOISE_B then now else heap_steady_since tk
          | None \<Rightarrow> heap_steady_since tk),
        init_observed := init, tk_samples := tk_samples tk + 1, tk_free := free\<rparr>"

text \<open>\<open>None\<close>: sleep and sample again.\<close>

definition decide :: "json list \<Rightarrow> json list \<Rightarrow> time \<Rightarrow> time \<Rightarrow> tracker \<Rightarrow> boot_verdict option" where
  "decide wanted active deadline now tk =
     (if list_all2 jeq active wanted \<and> init_observed tk \<and>
         (case ready_since tk of Some t \<Rightarrow> BOOT_SETTLE_STABLE_S \<le> now - max t (heap_steady_since tk) | None \<Rightarrow> False)
      then Some Settled
      else if deadline \<le> now then
        Some (if now - heap_steady_since tk < BOOT_SETTLE_STABLE_S then Heap_Unsettled
              else if \<not> init_observed tk then No_Init_Signal
              else Modes_Unconverged)
      else None)"

definition settle_pass ::
  "(response \<Rightarrow> json res) \<Rightarrow> json list \<Rightarrow> bool \<Rightarrow> time \<Rightarrow> time \<Rightarrow> reply \<Rightarrow> tracker \<times> api
   \<Rightarrow> (tracker \<times> api, (boot_verdict \<times> int \<times> int) res \<times> api) flow" where
  "settle_pass js wanted only_signal deadline now out s =
     (case s of (tk, api) \<Rightarrow>
      case get_info out api of
        (Inl e, api) \<Rightarrow> Stop (Inl e, api)
      | (Inr resp, api) \<Rightarrow>
          (case rbind (read_info js resp) (\<lambda>(info, free). rbind (port_modes info) (\<lambda>active.
                  rbind (if init_observed tk then Inr True else init_signal info active only_signal) (\<lambda>init.
                  Inr (active, track wanted active init now free tk)))) of
             Inl e \<Rightarrow> Stop (Inl e, api)
           | Inr (active, tk) \<Rightarrow>
               (case decide wanted active deadline now tk of
                  Some v \<Rightarrow> Stop (Inr (v, tk_samples tk, tk_free tk), api)
                | None \<Rightarrow> Next (tk, pause BOOT_SETTLE_POLL_S api))))"

fun settle_loop ::
  "(response \<Rightarrow> json res) \<Rightarrow> json list \<Rightarrow> bool \<Rightarrow> time \<Rightarrow> (time \<times> reply) list \<Rightarrow> tracker \<times> api
   \<Rightarrow> ((boot_verdict \<times> int \<times> int) res \<times> api) option" where
  "settle_loop js wanted only_signal deadline [] s = None"
| "settle_loop js wanted only_signal deadline ((now, out) # ps) s =
     (case settle_pass js wanted only_signal deadline now out s of
        Stop r \<Rightarrow> Some r
      | Next s \<Rightarrow> settle_loop js wanted only_signal deadline ps s)"

text \<open>What \<open>GET /settings\<close> decides before any sample: the wanted modes, whether the cache server is the only
  possible signal, and whether any signal is possible.\<close>

definition settle_plan :: "(response \<Rightarrow> json res) \<Rightarrow> response \<Rightarrow> (json list \<times> bool \<times> bool) res" where
  "settle_plan js resp =
     (if status_code resp \<noteq> 200 then Inl AssertionError
      else rbind (js resp) (\<lambda>settings. rbind (port_modes settings) (\<lambda>wanted.
        if list_all is_disabled wanted then
          rbind (jget settings CACHE_ENABLED_KEY JNull) (\<lambda>cache_enabled.
            case cache_enabled of
              JBool b \<Rightarrow> Inr (wanted, True, b)
            | _ \<Rightarrow> Inl AssertionError)
        else Inr (wanted, False, True))))"

definition wait_boot_settled ::
  "(response \<Rightarrow> json res) \<Rightarrow> reply \<Rightarrow> time \<Rightarrow> (time \<times> reply) list \<Rightarrow> api \<Rightarrow> ((boot_verdict \<times> int \<times> int) res \<times> api) option" where
  "wait_boot_settled js settings_out start ps api =
     (case get_settings settings_out api of
        (Inl e, api) \<Rightarrow> Some (Inl e, api)
      | (Inr resp, api) \<Rightarrow>
          (case settle_plan js resp of
             Inl e \<Rightarrow> Some (Inl e, api)
           | Inr (wanted, only_signal, possible) \<Rightarrow>
               if \<not> possible then Some (Inr (No_Signal_Possible, 0, 0), api)
               else settle_loop js wanted only_signal (start + BOOT_SETTLE_MAX_S) ps (tracker0 start, api)))"

section \<open>The quiescent reading\<close>

fun quiescent_samples :: "(response \<Rightarrow> json res) \<Rightarrow> nat \<Rightarrow> reply list \<Rightarrow> int \<Rightarrow> json option \<Rightarrow> api \<Rightarrow> ((int \<times> json option) res \<times> api) option" where
  "quiescent_samples js 0 outs best data api = Some (Inr (best, data), api)"
| "quiescent_samples js (Suc n) [] best data api = None"
| "quiescent_samples js (Suc n) (out # outs) best data api =
     (case get_info out api of
        (Inl e, api) \<Rightarrow> Some (Inl e, api)
      | (Inr resp, api) \<Rightarrow>
          (case read_info js resp of
             Inl e \<Rightarrow> Some (Inl e, api)
           | Inr (info, free) \<Rightarrow> quiescent_samples js n outs (if free > best then free else best) (Some info) (pause SAMPLE_GAP_S api)))"

definition free_heap_quiescent :: "(response \<Rightarrow> json res) \<Rightarrow> reply list \<Rightarrow> api \<Rightarrow> ((int \<times> json option) res \<times> api) option" where
  "free_heap_quiescent js outs api = quiescent_samples js SAMPLES outs (-1) None api"

section \<open>The two tests\<close>

record heap_config =
  heap_baseline_verdict :: "boot_verdict option"
  heap_baseline :: "int option"

record baseline_env =
  be_settings :: reply
  be_start :: time
  be_infos :: "(time \<times> reply) list"
  be_samples :: "reply list"

text \<open>The fields the report prints.\<close>

definition print_fields :: "string list \<Rightarrow> json option \<Rightarrow> unit res" where
  "print_fields keys data =
     (case data of
        None \<Rightarrow> Inl TypeError
      | Some info \<Rightarrow> foldr (\<lambda>k r. rbind (jindex k info) (\<lambda>_. r)) keys (Inr ()))"

definition test_heap_baseline :: "(response \<Rightarrow> json res) \<Rightarrow> baseline_env \<Rightarrow> api \<Rightarrow> heap_config \<Rightarrow> (unit res \<times> heap_config) option" where
  "test_heap_baseline js env api config =
     (let config = config\<lparr>heap_baseline_verdict := Some Wait_Errored\<rparr> in
      case wait_boot_settled js (be_settings env) (be_start env) (be_infos env) api of
        None \<Rightarrow> None
      | Some (Inl e, api) \<Rightarrow> Some (Inl e, config)
      | Some (Inr (verdict, settle_samples, settle_free), api) \<Rightarrow>
          (let config = (if verdict \<notin> set USABLE_VERDICTS then config\<lparr>heap_baseline_verdict := Some verdict\<rparr> else config) in
           if verdict = No_Signal_Possible then Some (Inl AssertionError, config)
           else if verdict = Heap_Unsettled \<or> verdict = No_Init_Signal then Some (Inl AssertionError, config)
           else
             (case free_heap_quiescent js (be_samples env) api of
                None \<Rightarrow> None
              | Some (Inl e, api) \<Rightarrow> Some (Inl e, config)
              | Some (Inr (free, data), api) \<Rightarrow>
                  (let config = config\<lparr>heap_baseline := Some free, heap_baseline_verdict := Some verdict\<rparr> in
                   Some (rbind (print_fields [''heap_total'', ''heap_min_free''] data) (\<lambda>_. if 0 < free then Inr () else Inl AssertionError), config)))))"

text \<open>\<open>pytest.skip\<close>, the assertion on the collection order, the leak assertion and any other exception apart.\<close>

datatype leak_outcome = Skipped boot_verdict | NoBaseline | NoLeak int | Leak int | LeakCheckRaised exn

definition compare_heap :: "(response \<Rightarrow> json res) \<Rightarrow> reply list \<Rightarrow> api \<Rightarrow> heap_config \<Rightarrow> leak_outcome option" where
  "compare_heap js outs api config =
     (case heap_baseline config of
        None \<Rightarrow> Some NoBaseline
      | Some baseline \<Rightarrow>
          (case free_heap_quiescent js outs api of
             None \<Rightarrow> None
           | Some (Inl e, api) \<Rightarrow> Some (LeakCheckRaised e)
           | Some (Inr (free, data), api) \<Rightarrow>
               (case print_fields [''heap_min_free''] data of
                  Inl e \<Rightarrow> Some (LeakCheckRaised e)
                | Inr _ \<Rightarrow>
                    (let delta = baseline - free in
                     Some (if delta \<le> HEAP_LEAK_TOLERANCE_BYTES then NoLeak delta else Leak delta)))))"

definition test_heap_no_leak :: "(response \<Rightarrow> json res) \<Rightarrow> reply list \<Rightarrow> api \<Rightarrow> heap_config \<Rightarrow> leak_outcome option" where
  "test_heap_no_leak js outs api config =
     (case heap_baseline_verdict config of
        Some v \<Rightarrow> if v \<notin> set USABLE_VERDICTS then Some (Skipped v) else compare_heap js outs api config
      | None \<Rightarrow> compare_heap js outs api config)"

section \<open>What a verdict says about the samples\<close>

text \<open>A sample as the loop reads it: when, the free heap, whether the modes agree and whether it carries an init signal.\<close>

record obs =
  ob_time :: time
  ob_free :: int
  ob_agree :: bool
  ob_signal :: bool

definition observe :: "(response \<Rightarrow> json res) \<Rightarrow> json list \<Rightarrow> bool \<Rightarrow> time \<times> reply \<Rightarrow> obs option" where
  "observe js wanted only_signal p =
     (case fst (snd p) of
        Inl _ \<Rightarrow> None
      | Inr resp \<Rightarrow>
          (case rbind (read_info js resp) (\<lambda>(info, free). rbind (port_modes info) (\<lambda>active. Inr (info, free, active))) of
             Inl _ \<Rightarrow> None
           | Inr (info, free, active) \<Rightarrow>
               Some \<lparr>ob_time = fst p, ob_free = free, ob_agree = list_all2 jeq active wanted,
                     ob_signal = (init_signal info active only_signal = Inr True)\<rparr>))"

text \<open>The times of the samples that fell by more than the noise.\<close>

fun drop_times :: "int option \<Rightarrow> obs list \<Rightarrow> time list" where
  "drop_times prev [] = []"
| "drop_times prev (x # xs) =
     (if (case prev of Some f \<Rightarrow> ob_free x < f - BOOT_SETTLE_NOISE_B | None \<Rightarrow> False) then [ob_time x] else []) @
     drop_times (Some (ob_free x)) xs"

text \<open>The times from which the modes agree and a signal has been seen.\<close>

fun ready_times :: "bool \<Rightarrow> obs list \<Rightarrow> time list" where
  "ready_times init [] = []"
| "ready_times init (x # xs) =
     (if ob_agree x \<and> (init \<or> ob_signal x) then [ob_time x] else []) @ ready_times (init \<or> ob_signal x) xs"

definition summary :: "time \<Rightarrow> obs list \<Rightarrow> tracker" where
  "summary start xs =
     \<lparr>tk_prev = (if xs = [] then None else Some (ob_free (last xs))),
      ready_since = (case ready_times False xs of [] \<Rightarrow> None | t # _ \<Rightarrow> Some t),
      heap_steady_since = last (start # drop_times None xs),
      init_observed = list_ex ob_signal xs,
      tk_samples = int (length xs),
      tk_free = (if xs = [] then 0 else ob_free (last xs))\<rparr>"

lemma drop_times_snoc:
  "drop_times p (xs @ [x]) = drop_times p xs @
     (if (case (if xs = [] then p else Some (ob_free (last xs))) of Some f \<Rightarrow> ob_free x < f - BOOT_SETTLE_NOISE_B | None \<Rightarrow> False)
      then [ob_time x] else [])"
  by (induction xs arbitrary: p) auto

lemma ready_times_snoc:
  "ready_times i (xs @ [x]) = ready_times i xs @ (if ob_agree x \<and> (i \<or> list_ex ob_signal xs \<or> ob_signal x) then [ob_time x] else [])"
  by (induction xs arbitrary: i) auto

lemma summary_snoc:
  assumes "init \<longleftrightarrow> list_ex ob_signal xs \<or> ob_signal x" "list_all2 jeq active wanted \<longleftrightarrow> ob_agree x"
  shows "track wanted active init (ob_time x) (ob_free x) (summary start xs) = summary start (xs @ [x])"
  using assms by (auto simp: track_def summary_def drop_times_snoc ready_times_snoc split: list.split)

lemma summary_Nil: "summary start [] = tracker0 start"
  by (simp add: summary_def tracker0_def)

lemma settle_pass_obs:
  assumes "settle_pass js wanted only deadline now out (summary start xs, api) = r"
    and "case r of Stop (Inl _, _) \<Rightarrow> False | _ \<Rightarrow> True"
  shows "\<exists>x. observe js wanted only (now, out) = Some x \<and>
    (case r of
       Next (tk, _) \<Rightarrow> tk = summary start (xs @ [x])
     | Stop (Inr (v, n, f), _) \<Rightarrow> n = int (length xs + 1) \<and> f = ob_free x \<and>
         (\<exists>active. list_all2 jeq active wanted = ob_agree x \<and> decide wanted active deadline now (summary start (xs @ [x])) = Some v)
     | Stop (Inl _, _) \<Rightarrow> False)"
proof -
  let ?tk = "summary start xs"
  obtain resp api1 where 1: "get_info out api = (Inr resp, api1)"
    using assms by (cases "get_info out api") (auto simp: settle_pass_def split: sum.splits)
  then have o: "fst out = Inr resp" by (simp add: get_info_def session_request_def)
  from assms 1 obtain info free active init where
    2: "read_info js resp = Inr (info, free)" "port_modes info = Inr active"
      "(if init_observed ?tk then Inr True else init_signal info active only) = Inr init"
    by (auto simp: settle_pass_def rbind_def split: sum.splits prod.splits)
  let ?x = "\<lparr>ob_time = now, ob_free = free, ob_agree = list_all2 jeq active wanted, ob_signal = (init_signal info active only = Inr True)\<rparr>"
  have x: "observe js wanted only (now, out) = Some ?x" using o 2 by (simp add: observe_def)
  have "init \<longleftrightarrow> list_ex ob_signal xs \<or> ob_signal ?x" using 2(3) by (auto simp: summary_def split: if_splits)
  from summary_snoc [OF this, of active wanted start]
  have t: "track wanted active init now free ?tk = summary start (xs @ [?x])" by simp
  have n: "tk_samples (summary start (xs @ [?x])) = int (length xs + 1)" "tk_free (summary start (xs @ [?x])) = free"
    by (simp_all add: summary_def)
  have "settle_pass js wanted only deadline now out (?tk, api) =
     (case decide wanted active deadline now (summary start (xs @ [?x])) of
        Some v \<Rightarrow> Stop (Inr (v, int (length xs + 1), free), api1)
      | None \<Rightarrow> Next (summary start (xs @ [?x]), pause BOOT_SETTLE_POLL_S api1))"
    using 1 2 t n by (simp add: settle_pass_def split: option.split)
  with assms(1) x show ?thesis by (cases "decide wanted active deadline now (summary start (xs @ [?x]))") auto
qed

lemma settle_loop_obs:
  assumes "settle_loop js wanted only deadline ps (summary start xs, api) = Some (Inr (v, n, f), api')"
  shows "\<exists>ys x active. map (observe js wanted only) (take (length (ys @ [x])) ps) = map Some (ys @ [x]) \<and>
     n = int (length (xs @ ys @ [x])) \<and> f = ob_free x \<and> list_all2 jeq active wanted = ob_agree x \<and>
     decide wanted active deadline (ob_time x) (summary start (xs @ ys @ [x])) = Some v"
  using assms
proof (induction ps arbitrary: xs api)
  case (Cons p ps)
  obtain now out where p: "p = (now, out)" by (cases p)
  let ?r = "settle_pass js wanted only deadline now out (summary start xs, api)"
  have "case ?r of Stop (Inl _, _) \<Rightarrow> False | _ \<Rightarrow> True" using Cons.prems p by (auto split: flow.splits)
  from settle_pass_obs [OF refl this] obtain x where x: "observe js wanted only (now, out) = Some x"
    "case ?r of
       Next (tk, _) \<Rightarrow> tk = summary start (xs @ [x])
     | Stop (Inr (v, n, f), _) \<Rightarrow> n = int (length xs + 1) \<and> f = ob_free x \<and>
         (\<exists>active. list_all2 jeq active wanted = ob_agree x \<and> decide wanted active deadline now (summary start (xs @ [x])) = Some v)
     | Stop (Inl _, _) \<Rightarrow> False" by blast
  have t: "ob_time x = now" using x(1) by (auto simp: observe_def split: sum.splits prod.splits)
  show ?case
  proof (cases ?r)
    case (Next s)
    then obtain api1 where s: "s = (summary start (xs @ [x]), api1)" using x(2) by (cases s) auto
    then have "settle_loop js wanted only deadline ps (summary start (xs @ [x]), api1) = Some (Inr (v, n, f), api')"
      using Cons.prems p Next by simp
    from Cons.IH [OF this] obtain ys y active where y: "map (observe js wanted only) (take (length (ys @ [y])) ps) = map Some (ys @ [y])"
      "n = int (length ((xs @ [x]) @ ys @ [y]))" "f = ob_free y" "list_all2 jeq active wanted = ob_agree y"
      "decide wanted active deadline (ob_time y) (summary start ((xs @ [x]) @ ys @ [y])) = Some v" by blast
    have "map (observe js wanted only) (take (length ((x # ys) @ [y])) (p # ps)) = map Some ((x # ys) @ [y]) \<and>
      n = int (length (xs @ (x # ys) @ [y])) \<and> f = ob_free y \<and> list_all2 jeq active wanted = ob_agree y \<and>
      decide wanted active deadline (ob_time y) (summary start (xs @ (x # ys) @ [y])) = Some v"
      using y x(1) p by simp
    then show ?thesis by blast
  next
    case (Stop r)
    then have "r = (Inr (v, n, f), api')" using Cons.prems p by simp
    with x Stop t obtain active where "n = int (length xs + 1)" "f = ob_free x" "list_all2 jeq active wanted = ob_agree x"
      "decide wanted active deadline (ob_time x) (summary start (xs @ [x])) = Some v" by auto
    then have "map (observe js wanted only) (take (length ([] @ [x])) (p # ps)) = map Some ([] @ [x]) \<and>
      n = int (length (xs @ [] @ [x])) \<and> f = ob_free x \<and> list_all2 jeq active wanted = ob_agree x \<and>
      decide wanted active deadline (ob_time x) (summary start (xs @ [] @ [x])) = Some v"
      using x(1) p by simp
    then show ?thesis by blast
  qed
qed simp

lemma drop_times_subset: "set (drop_times p xs) \<subseteq> ob_time ` set xs"
  by (induction xs arbitrary: p) auto

lemma ready_times_subset: "set (ready_times i xs) \<subseteq> ob_time ` set xs"
  by (induction xs arbitrary: i) auto

lemma sorted_drop_times: "sorted (map ob_time xs) \<Longrightarrow> sorted (drop_times p xs)"
  using drop_times_subset by (induction xs arbitrary: p) fastforce+

lemma sorted_le_last: "sorted xs \<Longrightarrow> t \<in> set xs \<Longrightarrow> t \<le> last xs"
  by (induction xs) auto

lemma drops_before_steady:
  assumes "sorted (start # map ob_time xs)" "t \<in> set (drop_times None xs)"
  shows "t \<le> last (start # drop_times None xs)"
proof -
  have "sorted (start # drop_times None xs)" using assms(1) sorted_drop_times [of xs None] drop_times_subset [of None xs] by fastforce
  then show ?thesis using sorted_le_last assms(2) by (metis list.set_intros(2))
qed

lemma observed_times: "map (observe js wanted only) ps = map Some xs \<Longrightarrow> map ob_time xs = map fst ps"
proof (induction xs arbitrary: ps)
  case (Cons x xs)
  then obtain p qs where "ps = p # qs" "observe js wanted only p = Some x" "map (observe js wanted only) qs = map Some xs" by (cases ps) auto
  moreover from this(2) have "ob_time x = fst p" by (auto simp: observe_def split: sum.splits prod.splits)
  ultimately show ?case using Cons.IH by simp
qed simp

text \<open>Nothing fell by more than the noise in the last \<open>_BOOT_SETTLE_STABLE_S\<close> seconds.\<close>

definition quiet :: "obs list \<Rightarrow> bool" where
  "quiet xs \<longleftrightarrow> (\<forall>t \<in> set (drop_times None xs). t \<le> ob_time (last xs) - BOOT_SETTLE_STABLE_S)"

lemma decide_sound:
  assumes "decide wanted active (start + BOOT_SETTLE_MAX_S) (ob_time (last xs)) (summary start xs) = Some v"
    and "list_all2 jeq active wanted = ob_agree (last xs)" and "sorted (start # map ob_time xs)" and "xs \<noteq> []"
  shows "case v of
     Settled \<Rightarrow> ob_agree (last xs) \<and> list_ex ob_signal xs \<and> quiet xs \<and>
       (\<exists>t \<in> set (ready_times False xs). t \<le> ob_time (last xs) - BOOT_SETTLE_STABLE_S)
   | Modes_Unconverged \<Rightarrow> start + BOOT_SETTLE_MAX_S \<le> ob_time (last xs) \<and> quiet xs \<and> list_ex ob_signal xs
   | No_Init_Signal \<Rightarrow> start + BOOT_SETTLE_MAX_S \<le> ob_time (last xs) \<and> quiet xs \<and> \<not> list_ex ob_signal xs
   | Heap_Unsettled \<Rightarrow> start + BOOT_SETTLE_MAX_S \<le> ob_time (last xs) \<and> \<not> quiet xs
   | _ \<Rightarrow> False"
proof -
  let ?s = "last (start # drop_times None xs)" and ?now = "ob_time (last xs)"
  have quiet: "quiet xs" if "BOOT_SETTLE_STABLE_S \<le> ?now - ?s"
    using that drops_before_steady [OF assms(3)] by (fastforce simp: quiet_def)
  have loud: "\<not> quiet xs" if "?now - ?s < BOOT_SETTLE_STABLE_S" "start + BOOT_SETTLE_MAX_S \<le> ?now"
  proof -
    have "?s \<noteq> start" using that by (auto simp: BOOT_SETTLE_STABLE_S_def BOOT_SETTLE_MAX_S_def)
    then have "?s \<in> set (drop_times None xs)" by (cases "drop_times None xs = []") auto
    then show ?thesis using that(1) by (fastforce simp: quiet_def)
  qed
  have d: "heap_steady_since (summary start xs) = ?s" "init_observed (summary start xs) = list_ex ob_signal xs"
    "ready_since (summary start xs) = (case ready_times False xs of [] \<Rightarrow> None | t # _ \<Rightarrow> Some t)"
    by (simp_all add: summary_def)
  show ?thesis using assms(1,2) quiet loud unfolding decide_def d
    by (cases "ready_times False xs") (auto split: if_splits)
qed

text \<open>C13: the boot verdict is what the samples show. On a monotonic clock, a wait that returns a verdict after \<open>n\<close> samples returns
  \<open>Settled\<close> only when the last sample's modes agree with the settings, some sample proved that the ports were initialised, agreement
  and proof go back at least the stable window, and free heap did not fall by more than the noise within that window. Otherwise the
  deadline has passed: \<open>Heap_Unsettled\<close> means that it did fall within the window, \<open>No_Init_Signal\<close> that no sample carried a proof, and
  \<open>Modes_Unconverged\<close> that one did. \<open>No_Signal_Possible\<close> comes from the settings alone, without a sample.\<close>

theorem boot_verdict_sound:
  assumes run: "wait_boot_settled js settings_out start ps api = Some (Inr (v, n, f), api')"
    and clock: "sorted (start # map fst ps)"
  shows "\<exists>resp wanted only_signal possible. fst settings_out = Inr resp \<and> settle_plan js resp = Inr (wanted, only_signal, possible) \<and>
     (v = No_Signal_Possible \<longleftrightarrow> \<not> possible) \<and> (v = No_Signal_Possible \<longrightarrow> n = 0) \<and> v \<noteq> Wait_Errored \<and>
     (possible \<longrightarrow> (\<exists>xs. xs \<noteq> [] \<and> n = int (length xs) \<and> f = ob_free (last xs) \<and>
        map (observe js wanted only_signal) (take (length xs) ps) = map Some xs \<and>
        (case v of
           Settled \<Rightarrow> ob_agree (last xs) \<and> list_ex ob_signal xs \<and> quiet xs \<and>
             (\<exists>t \<in> set (ready_times False xs). t \<le> ob_time (last xs) - BOOT_SETTLE_STABLE_S)
         | Modes_Unconverged \<Rightarrow> start + BOOT_SETTLE_MAX_S \<le> ob_time (last xs) \<and> quiet xs \<and> list_ex ob_signal xs
         | No_Init_Signal \<Rightarrow> start + BOOT_SETTLE_MAX_S \<le> ob_time (last xs) \<and> quiet xs \<and> \<not> list_ex ob_signal xs
         | Heap_Unsettled \<Rightarrow> start + BOOT_SETTLE_MAX_S \<le> ob_time (last xs) \<and> \<not> quiet xs
         | _ \<Rightarrow> False)))"
proof -
  obtain resp api1 where g: "get_settings settings_out api = (Inr resp, api1)" using run
    by (cases "get_settings settings_out api") (auto simp: wait_boot_settled_def split: sum.splits)
  then have o: "fst settings_out = Inr resp" by (simp add: get_settings_def session_request_def)
  obtain wanted only possible where p: "settle_plan js resp = Inr (wanted, only, possible)"
    using run g by (auto simp: wait_boot_settled_def split: sum.splits prod.splits)
  show ?thesis
  proof (cases possible)
    case False
    then have "v = No_Signal_Possible" "n = 0" using run g p by (auto simp: wait_boot_settled_def)
    then show ?thesis using o p False by auto
  next
    case True
    then have "settle_loop js wanted only (start + BOOT_SETTLE_MAX_S) ps (summary start [], api1) = Some (Inr (v, n, f), api')"
      using run g p by (simp add: wait_boot_settled_def summary_Nil)
    from settle_loop_obs [OF this] obtain ys x active where x:
      "map (observe js wanted only) (take (length (ys @ [x])) ps) = map Some (ys @ [x])" "n = int (length (ys @ [x]))" "f = ob_free x"
      "list_all2 jeq active wanted = ob_agree x" "decide wanted active (start + BOOT_SETTLE_MAX_S) (ob_time x) (summary start (ys @ [x])) = Some v"
      by auto
    have "sorted (start # map ob_time (ys @ [x]))" unfolding observed_times [OF x(1)] using clock
      by (auto simp: take_map [symmetric] sorted_wrt_take dest!: in_set_takeD)
    from decide_sound [OF _ _ this, of wanted active v] x(4,5) have d: "case v of
           Settled \<Rightarrow> ob_agree (last (ys @ [x])) \<and> list_ex ob_signal (ys @ [x]) \<and> quiet (ys @ [x]) \<and>
             (\<exists>t \<in> set (ready_times False (ys @ [x])). t \<le> ob_time (last (ys @ [x])) - BOOT_SETTLE_STABLE_S)
         | Modes_Unconverged \<Rightarrow> start + BOOT_SETTLE_MAX_S \<le> ob_time (last (ys @ [x])) \<and> quiet (ys @ [x]) \<and> list_ex ob_signal (ys @ [x])
         | No_Init_Signal \<Rightarrow> start + BOOT_SETTLE_MAX_S \<le> ob_time (last (ys @ [x])) \<and> quiet (ys @ [x]) \<and> \<not> list_ex ob_signal (ys @ [x])
         | Heap_Unsettled \<Rightarrow> start + BOOT_SETTLE_MAX_S \<le> ob_time (last (ys @ [x])) \<and> \<not> quiet (ys @ [x])
         | _ \<Rightarrow> False" by simp
    then have v: "v \<noteq> No_Signal_Possible" "v \<noteq> Wait_Errored" by (cases v; simp)+
    have "ys @ [x] \<noteq> [] \<and> n = int (length (ys @ [x])) \<and> f = ob_free (last (ys @ [x]))" using x(2,3) by simp
    with d x(1) v True o p show ?thesis by blast
  qed
qed

text \<open>The wait ends when a clock reading reaches the deadline, whatever the replies.\<close>

lemma wait_boot_settled_returns:
  assumes "(t, out) \<in> set ps" "start + BOOT_SETTLE_MAX_S \<le> t"
  shows "wait_boot_settled js settings_out start ps api \<noteq> None"
proof -
  have "settle_loop js wanted only (start + BOOT_SETTLE_MAX_S) ps s \<noteq> None" for wanted only s
    using assms
  proof (induction ps arbitrary: s)
    case (Cons p ps)
    obtain now o1 where p: "p = (now, o1)" by (cases p)
    obtain tk a where s: "s = (tk, a)" by (cases s)
    have "settle_pass js wanted only (start + BOOT_SETTLE_MAX_S) now o1 s \<noteq> Next s'" if "start + BOOT_SETTLE_MAX_S \<le> now" for s'
      using that s by (auto simp: settle_pass_def decide_def split: sum.splits prod.splits)
    then show ?case using Cons p by (cases "settle_pass js wanted only (start + BOOT_SETTLE_MAX_S) now o1 s") auto
  qed simp
  then show ?thesis by (auto simp: wait_boot_settled_def split: sum.splits prod.splits)
qed

section \<open>The shared configuration\<close>

definition usable :: "boot_verdict option \<Rightarrow> bool" where
  "usable v \<longleftrightarrow> (case v of Some v \<Rightarrow> v \<in> set USABLE_VERDICTS | None \<Rightarrow> False)"

lemma decide_not_errored: "decide wanted active deadline now tk = Some v \<Longrightarrow> v \<noteq> Wait_Errored"
  by (auto simp: decide_def split: if_splits)

lemma wait_not_errored:
  assumes "wait_boot_settled js settings_out start ps api = Some (Inr (v, n, f), api')"
  shows "v \<noteq> Wait_Errored"
proof -
  have "v = No_Signal_Possible \<or> (\<exists>wanted only api1. settle_loop js wanted only (start + BOOT_SETTLE_MAX_S) ps (summary start [], api1) = Some (Inr (v, n, f), api'))"
    using assms by (auto simp: wait_boot_settled_def summary_Nil split: sum.splits prod.splits if_splits)
  then show ?thesis
  proof
    assume "\<exists>wanted only api1. settle_loop js wanted only (start + BOOT_SETTLE_MAX_S) ps (summary start [], api1) = Some (Inr (v, n, f), api')"
    then show ?thesis by (elim exE) (drule settle_loop_obs, elim exE conjE, rule decide_not_errored)
  qed simp
qed

lemma heap_baseline_config:
  assumes run: "test_heap_baseline js env api config = Some (r, config')" and fresh: "heap_baseline config = None"
  shows "heap_baseline_verdict config' \<noteq> None \<and> (usable (heap_baseline_verdict config') \<longleftrightarrow> heap_baseline config' \<noteq> None)"
proof -
  obtain w api1 where w: "wait_boot_settled js (be_settings env) (be_start env) (be_infos env) api = Some (w, api1)"
    using run by (cases "wait_boot_settled js (be_settings env) (be_start env) (be_infos env) api") (auto simp: test_heap_baseline_def Let_def)
  show ?thesis
  proof (cases w)
    case (Inl e)
    then show ?thesis using run fresh w by (auto simp: test_heap_baseline_def usable_def USABLE_VERDICTS_def)
  next
    case (Inr x)
    obtain v n f where x: "x = (v, n, f)" by (cases x)
    have ne: "v \<noteq> Wait_Errored" using w Inr x wait_not_errored by blast
    show ?thesis
    proof (cases "v \<in> set USABLE_VERDICTS")
      case False
      then have "v = No_Signal_Possible \<or> v = Heap_Unsettled \<or> v = No_Init_Signal" using ne by (cases v) (auto simp: USABLE_VERDICTS_def)
      then show ?thesis using run fresh w Inr x False by (auto simp: test_heap_baseline_def usable_def)
    next
      case True
      then have "v \<noteq> No_Signal_Possible" "v \<noteq> Heap_Unsettled" "v \<noteq> No_Init_Signal" by (auto simp: USABLE_VERDICTS_def)
      moreover obtain q api2 where "free_heap_quiescent js (be_samples env) api1 = Some (q, api2)"
        using run w Inr x True calculation by (auto simp: test_heap_baseline_def Let_def split: option.splits)
      moreover have "Wait_Errored \<notin> set USABLE_VERDICTS" by (simp add: USABLE_VERDICTS_def)
      ultimately show ?thesis using run fresh w Inr x True
        by (cases q) (auto simp: test_heap_baseline_def usable_def Let_def)
    qed
  qed
qed

lemma quiescent_samples_max:
  assumes "quiescent_samples js k outs best data api = Some (Inr (b, d), api')"
  shows "k \<le> length outs \<and> (\<exists>fs. length fs = k \<and> b = foldl max best fs \<and>
     list_all2 (\<lambda>out free. \<exists>resp info. fst out = Inr resp \<and> read_info js resp = Inr (info, free)) (take k outs) fs)"
  using assms
proof (induction k arbitrary: outs best data api)
  case (Suc k)
  then obtain out outs' where o: "outs = out # outs'" by (cases outs) auto
  obtain resp api1 where g: "get_info out api = (Inr resp, api1)" using Suc.prems o
    by (cases "get_info out api") (auto split: sum.splits)
  then have out: "fst out = Inr resp" by (simp add: get_info_def session_request_def)
  obtain info free where i: "read_info js resp = Inr (info, free)" using Suc.prems o g by (auto split: sum.splits prod.splits)
  have "quiescent_samples js k outs' (max best free) (Some info) (pause SAMPLE_GAP_S api1) = Some (Inr (b, d), api')"
    using Suc.prems o g i by (auto simp: max_def split: if_splits)
  from Suc.IH [OF this] obtain fs where "k \<le> length outs'" "length fs = k" "b = foldl max (max best free) fs"
    "list_all2 (\<lambda>out free. \<exists>resp info. fst out = Inr resp \<and> read_info js resp = Inr (info, free)) (take k outs') fs" by blast
  then have "Suc k \<le> length outs \<and> length (free # fs) = Suc k \<and> b = foldl max best (free # fs) \<and>
     list_all2 (\<lambda>out free. \<exists>resp info. fst out = Inr resp \<and> read_info js resp = Inr (info, free)) (take (Suc k) outs) (free # fs)"
    using o out i by auto
  then show ?case by blast
qed simp

text \<open>C14: the two heap tests agree on the baseline. However the baseline test ends, with a verdict, an assertion or an exception anywhere,
  the leak test that follows skips when no usable baseline was recorded and otherwise compares against the recorded one: it never
  blames the collection order, and it reports a leak only when a baseline taken under a usable verdict exceeds the largest free
  heap of its own samples by more than the tolerance.\<close>

theorem leak_check_sound:
  assumes base: "test_heap_baseline js env api config = Some (r, config')" and fresh: "heap_baseline config = None"
    and check: "test_heap_no_leak js outs api2 config' = Some outcome"
  shows "outcome \<noteq> NoBaseline \<and>
    ((\<exists>v. outcome = Skipped v \<and> heap_baseline_verdict config' = Some v \<and> v \<notin> set USABLE_VERDICTS) \<longleftrightarrow> heap_baseline config' = None) \<and>
    (\<forall>d. outcome = Leak d \<longrightarrow> usable (heap_baseline_verdict config') \<and> HEAP_LEAK_TOLERANCE_BYTES < d \<and>
      (\<exists>b fs. heap_baseline config' = Some b \<and> length fs = SAMPLES \<and> d = b - foldl max (-1) fs \<and>
        list_all2 (\<lambda>out free. \<exists>resp info. fst out = Inr resp \<and> read_info js resp = Inr (info, free)) (take SAMPLES outs) fs))"
proof -
  have c: "heap_baseline_verdict config' \<noteq> None" "usable (heap_baseline_verdict config') \<longleftrightarrow> heap_baseline config' \<noteq> None"
    using heap_baseline_config [OF base fresh] by auto
  show ?thesis
  proof (cases "heap_baseline config'")
    case None
    then show ?thesis using c(1,2) check by (auto simp: usable_def test_heap_no_leak_def split: option.splits if_splits)
  next
    case (Some b)
    then have u: "usable (heap_baseline_verdict config')" using c(2) by simp
    then have k: "compare_heap js outs api2 config' = Some outcome"
      using check by (auto simp: usable_def test_heap_no_leak_def split: option.splits if_splits)
    have leak: "\<exists>b fs. heap_baseline config' = Some b \<and> length fs = SAMPLES \<and> d = b - foldl max (-1) fs \<and>
        list_all2 (\<lambda>out free. \<exists>resp info. fst out = Inr resp \<and> read_info js resp = Inr (info, free)) (take SAMPLES outs) fs"
      "HEAP_LEAK_TOLERANCE_BYTES < d" if "outcome = Leak d" for d
    proof -
      from k that Some obtain free data api3 where q: "free_heap_quiescent js outs api2 = Some (Inr (free, data), api3)" "d = b - free"
        "HEAP_LEAK_TOLERANCE_BYTES < d"
        by (auto simp: compare_heap_def Let_def split: option.splits sum.splits prod.splits if_splits)
      from quiescent_samples_max q(1) Some q(2)
      show "\<exists>b fs. heap_baseline config' = Some b \<and> length fs = SAMPLES \<and> d = b - foldl max (-1) fs \<and>
        list_all2 (\<lambda>out free. \<exists>resp info. fst out = Inr resp \<and> read_info js resp = Inr (info, free)) (take SAMPLES outs) fs"
        unfolding free_heap_quiescent_def by blast
      show "HEAP_LEAK_TOLERANCE_BYTES < d" by (rule q(3))
    qed
    have "outcome \<noteq> NoBaseline" "\<forall>v. outcome \<noteq> Skipped v"
      using k Some by (auto simp: compare_heap_def Let_def split: option.splits sum.splits prod.splits if_splits)
    then show ?thesis using leak u Some by auto
  qed
qed

section \<open>Runs\<close>

definition hs_info :: "int \<Rightarrow> json" where
  "hs_info free = JObj [(''rs485_1'', JObj [(''port_mode'', JStr ''tcp_bridge'')]), (''rs485_2'', JObj [(''port_mode'', JStr ''disabled'')]),
     (''heap_free'', JNum (of_int free)), (''heap_total'', JNum 400000), (''heap_min_free'', JNum 200000)]"

definition hs_js :: "response \<Rightarrow> json res" where
  "hs_js r = Inr (hs_info (300000 - 1000 * int (length (resp_text r))))"

definition hs_reply :: "nat \<Rightarrow> reply" where
  "hs_reply k = (Inr \<lparr>status_code = 200, resp_text = replicate k CHR ''x''\<rparr>, [])"

definition hs_api :: api where "hs_api = new_api 0 None"

definition hs_got :: "string \<Rightarrow> rat \<Rightarrow> api \<Rightarrow> api" where
  "hs_got path tmo api = snd (session_request (hs_reply 0) ''GET'' path None tmo api)"

lemma hs_read [simp]:
  "get_info (hs_reply k) api = (Inr \<lparr>status_code = 200, resp_text = replicate k CHR ''x''\<rparr>, hs_got ''/info'' 10 api)"
  "get_settings (hs_reply k) api = (Inr \<lparr>status_code = 200, resp_text = replicate k CHR ''x''\<rparr>, hs_got ''/settings'' 30 api)"
  "read_info hs_js \<lparr>status_code = 200, resp_text = replicate k CHR ''x''\<rparr> = Inr (hs_info (300000 - 1000 * int k), 300000 - 1000 * int k)"
  by (simp_all add: get_info_def get_settings_def session_request_def hs_got_def hs_reply_def read_info_def hs_js_def jindex_def hs_info_def
      del: of_int_diff)

lemma hs_modes [simp]:
  "port_modes (hs_info f) = Inr [JStr ''tcp_bridge'', JStr ''disabled'']"
  "settle_plan hs_js \<lparr>status_code = 200, resp_text = t\<rparr> = Inr ([JStr ''tcp_bridge'', JStr ''disabled''], False, True)"
  "init_signal (hs_info f) [JStr ''tcp_bridge'', JStr ''disabled''] b = Inr True"
  by (simp_all add: port_modes_def PORT_KEYS_def jget_def hs_info_def settle_plan_def hs_js_def is_disabled_def MODE_DISABLED_def init_signal_def)

lemma hs_pass:
  "settle_pass hs_js [JStr ''tcp_bridge'', JStr ''disabled''] b d now (hs_reply k) (tk, api) =
     (let tk = track [JStr ''tcp_bridge'', JStr ''disabled''] [JStr ''tcp_bridge'', JStr ''disabled''] True now (300000 - 1000 * int k) tk in
      case decide [JStr ''tcp_bridge'', JStr ''disabled''] [JStr ''tcp_bridge'', JStr ''disabled''] d now tk of
        Some v \<Rightarrow> Stop (Inr (v, tk_samples tk, tk_free tk), hs_got ''/info'' 10 api)
      | None \<Rightarrow> Next (tk, pause BOOT_SETTLE_POLL_S (hs_got ''/info'' 10 api)))"
  unfolding settle_pass_def by (simp add: Let_def)

lemmas hs_defs = wait_boot_settled_def hs_pass track_def decide_def tracker0_def BOOT_SETTLE_MAX_S_def BOOT_SETTLE_STABLE_S_def
  BOOT_SETTLE_NOISE_B_def BOOT_SETTLE_POLL_S_def

lemma hs_settles:
  "\<exists>api'. wait_boot_settled hs_js (hs_reply 0) 0 [(1, hs_reply 0), (2, hs_reply 20), (3, hs_reply 20), (4, hs_reply 20), (5, hs_reply 20)] hs_api =
     Some (Inr (Settled, 5, 280000), api')"
  by (simp add: hs_defs)

theorem boot_verdict_sound_witness:
  "\<exists>wanted xs. length xs = 5 \<and> quiet xs \<and> list_ex ob_signal xs \<and> ob_agree (last xs) \<and>
     map (observe hs_js wanted False) [(1, hs_reply 0), (2, hs_reply 20), (3, hs_reply 20), (4, hs_reply 20), (5, hs_reply 20)] = map Some xs"
proof -
  let ?ps = "[(1, hs_reply 0), (2, hs_reply 20), (3, hs_reply 20), (4, hs_reply 20), (5, hs_reply 20)] :: (time \<times> reply) list"
  obtain api' where "wait_boot_settled hs_js (hs_reply 0) 0 ?ps hs_api = Some (Inr (Settled, 5, 280000), api')" using hs_settles by blast
  from boot_verdict_sound [OF this] have "\<exists>resp wanted only possible. fst (hs_reply 0) = Inr resp \<and> settle_plan hs_js resp = Inr (wanted, only, possible) \<and>
      (\<exists>xs. 5 = int (length xs) \<and> map (observe hs_js wanted only) (take (length xs) ?ps) = map Some xs \<and>
        ob_agree (last xs) \<and> list_ex ob_signal xs \<and> quiet xs)"
    by (simp only: boot_verdict.case boot_verdict.distinct simp_thms) (simp, meson)
  then obtain wanted only xs where "settle_plan hs_js \<lparr>status_code = 200, resp_text = []\<rparr> = Inr (wanted, only, True)"
    and xs: "5 = int (length xs)" "map (observe hs_js wanted only) (take (length xs) ?ps) = map Some xs"
      "ob_agree (last xs) \<and> list_ex ob_signal xs \<and> quiet xs" by (auto simp: hs_reply_def simp del: int_ops)
  then have "only = False" "length xs = 5" by simp_all
  moreover from this(2) have "take (length xs) ?ps = ?ps" by simp
  ultimately show ?thesis using xs(2,3) by metis
qed

text \<open>A heap that falls by a thousand bytes with every sample counts as steady: only a drop above the noise between two
  consecutive samples is seen.\<close>

lemma settled_while_falling:
  "\<exists>api'. wait_boot_settled hs_js (hs_reply 0) 0
     [(0, hs_reply 0), (1/4, hs_reply 1), (1/2, hs_reply 2), (3/4, hs_reply 3), (1, hs_reply 4), (5/4, hs_reply 5), (3/2, hs_reply 6),
      (7/4, hs_reply 7), (2, hs_reply 8), (9/4, hs_reply 9), (5/2, hs_reply 10), (11/4, hs_reply 11), (3, hs_reply 12)] hs_api =
     Some (Inr (Settled, 13, 288000), api')"
  by (simp add: hs_defs)

lemma hs_quiescent: "\<exists>api'. free_heap_quiescent hs_js (replicate 4 (hs_reply k)) api = Some (Inr (max (-1) (300000 - 1000 * int k), Some (hs_info (300000 - 1000 * int k))), api')"
  by (auto simp: free_heap_quiescent_def SAMPLES_def numeral_eq_Suc max_def)

definition hs_env :: baseline_env where
  "hs_env = \<lparr>be_settings = hs_reply 0, be_start = 0, be_infos = [(1, hs_reply 0), (2, hs_reply 20), (3, hs_reply 20), (4, hs_reply 20), (5, hs_reply 20)],
     be_samples = replicate 4 (hs_reply 0)\<rparr>"

lemma hs_print: "print_fields [''heap_total'', ''heap_min_free''] (Some (hs_info f)) = Inr ()" "print_fields [''heap_min_free''] (Some (hs_info f)) = Inr ()"
  by (simp_all add: print_fields_def jindex_def hs_info_def)

lemma hs_baseline:
  "test_heap_baseline hs_js hs_env hs_api \<lparr>heap_baseline_verdict = None, heap_baseline = None\<rparr> =
     Some (Inr (), \<lparr>heap_baseline_verdict = Some Settled, heap_baseline = Some 300000\<rparr>)"
proof -
  obtain api1 where 1: "wait_boot_settled hs_js (be_settings hs_env) (be_start hs_env) (be_infos hs_env) hs_api = Some (Inr (Settled, 5, 280000), api1)"
    using hs_settles by (auto simp: hs_env_def)
  obtain api2 where "free_heap_quiescent hs_js (be_samples hs_env) api1 = Some (Inr (300000, Some (hs_info 300000)), api2)"
    using hs_quiescent [of 0 api1] by (auto simp: hs_env_def)
  with 1 show ?thesis by (simp add: test_heap_baseline_def hs_print USABLE_VERDICTS_def)
qed

theorem leak_check_sound_witness:
  "\<exists>config. test_heap_baseline hs_js hs_env hs_api \<lparr>heap_baseline_verdict = None, heap_baseline = None\<rparr> = Some (Inr (), config) \<and>
     test_heap_no_leak hs_js (replicate 4 (hs_reply 20)) hs_api config = Some (Leak 20000) \<and>
     usable (heap_baseline_verdict config) \<and> HEAP_LEAK_TOLERANCE_BYTES < 20000"
proof -
  let ?c = "\<lparr>heap_baseline_verdict = Some Settled, heap_baseline = Some 300000\<rparr>"
  obtain api' where "free_heap_quiescent hs_js (replicate 4 (hs_reply 20)) hs_api = Some (Inr (280000, Some (hs_info 280000)), api')"
    using hs_quiescent [of 20 hs_api] by auto
  then have l: "test_heap_no_leak hs_js (replicate 4 (hs_reply 20)) hs_api ?c = Some (Leak 20000)"
    by (simp add: test_heap_no_leak_def compare_heap_def USABLE_VERDICTS_def hs_print HEAP_LEAK_TOLERANCE_BYTES_def)
  from leak_check_sound [OF hs_baseline _ l] l hs_baseline show ?thesis by simp
qed

end
