(* ===== verification/Serial_Log.thy ===== *)
theory Serial_Log
  imports Py_Text Deadline_Loop
begin

text \<open>
  Evidence from the QEMU serial log: the baseline offset taken before an event, the part of the log
  written since, and the scan of \<open>_sessions_restored_after_reboot\<close> in
  \<open>api_tests/33_test_auth_settings.py\<close> for the decision of the boot that followed a reboot. A read of
  the log yields its content or an error; the log is taken as one character per byte.
\<close>

section \<open>Reading the log\<close>

text \<open>\<open>os.path.getsize\<close>, or its \<open>OSError\<close>; the baseline is \<open>None\<close> when the log cannot be examined.\<close>

definition serial_log_offset :: "int res \<Rightarrow> int option res" where
  "serial_log_offset stat =
     (case stat of Inr n \<Rightarrow> Inr (Some n) | Inl e \<Rightarrow> if is_OSError e then Inr None else Inl e)"

text \<open>\<open>open\<close>, \<open>seek(offset)\<close>, \<open>read()\<close>; an \<open>OSError\<close> reads as nothing.\<close>

definition log_tail :: "int \<Rightarrow> string res \<Rightarrow> string res" where
  "log_tail offset content =
     (case content of Inr c \<Rightarrow> Inr (drop (nat offset) c) | Inl e \<Rightarrow> if is_OSError e then Inr [] else Inl e)"

text \<open>\<open>s.rfind(sub)\<close>.\<close>

fun py_rfind :: "string \<Rightarrow> string \<Rightarrow> int" where
  "py_rfind [] sub = (if sub = [] then 0 else -1)"
| "py_rfind (c # s) sub =
     (let r = py_rfind s sub in
      if 0 \<le> r then r + 1 else if py_startswith (c # s) sub then 0 else -1)"

text \<open>\<open>s.splitlines()\<close>, with the line boundaries among the characters of a byte.\<close>

definition is_line_break :: "char \<Rightarrow> bool" where
  "is_line_break c \<longleftrightarrow> (of_char c :: nat) \<in> {10, 11, 12, 13, 28, 29, 30, 133}"

fun lines_from :: "string \<Rightarrow> string \<Rightarrow> string list" where
  "lines_from l [] = (if l = [] then [] else [l])"
| "lines_from l (c # s) =
     (if c = CHR 0x0D then
        (case s of
           CHR 0x0A # s' \<Rightarrow> l # lines_from [] s'
         | _ \<Rightarrow> l # lines_from [] s)
      else if is_line_break c then l # lines_from [] s
      else lines_from (l @ [c]) s)"

definition py_splitlines :: "string \<Rightarrow> string list" where
  "py_splitlines s = lines_from [] s"

section \<open>The decision after a reboot\<close>

definition MARK_RESTORED :: string where "MARK_RESTORED = ''Saved auth sessions were loaded''"
definition MARK_WIPED :: string where "MARK_WIPED = ''Auth sessions were reset''"

text \<open>\<open>None\<close>: neither marker is there.\<close>

definition auth_decision :: "string \<Rightarrow> bool option" where
  "auth_decision tail =
     (let restored = py_rfind tail MARK_RESTORED;
          wiped = py_rfind tail MARK_WIPED in
      if restored \<noteq> -1 \<or> wiped \<noteq> -1 then Some (restored > wiped) else None)"

text \<open>A pass: what the read yields and the clock reading after it.\<close>

fun auth_scan :: "int \<Rightarrow> time \<Rightarrow> (string res \<times> time) list \<Rightarrow> bool option res option" where
  "auth_scan offset deadline [] = None"
| "auth_scan offset deadline ((content, now) # passes) =
     (case log_tail offset content of
        Inl e \<Rightarrow> Some (Inl e)
      | Inr tail \<Rightarrow>
          (case auth_decision tail of
             Some b \<Rightarrow> Some (Inr (Some b))
           | None \<Rightarrow> if deadline \<le> now then Some (Inr None) else auth_scan offset deadline passes))"

definition sessions_restored_after_reboot :: "int option \<Rightarrow> rat \<Rightarrow> time \<Rightarrow> (string res \<times> time) list \<Rightarrow> bool option res option" where
  "sessions_restored_after_reboot offset read_timeout start passes =
     (case offset of
        None \<Rightarrow> Some (Inr None)
      | Some offset \<Rightarrow> auth_scan offset (start + read_timeout) passes)"

section \<open>Searching\<close>

lemma startswith_iff: "py_startswith s p \<longleftrightarrow> (\<exists>t. s = p @ t)"
  by (auto simp: py_startswith_def) (metis append_take_drop_id)

lemma py_in_iff: "py_in sub s \<longleftrightarrow> (\<exists>a b. s = a @ sub @ b)"
proof (induction s)
  case Nil
  show ?case by auto
next
  case (Cons c s)
  have "py_startswith (c # s) sub \<or> (\<exists>a b. s = a @ sub @ b) \<longleftrightarrow> (\<exists>a b. c # s = a @ sub @ b)"
    unfolding startswith_iff by (metis append_Cons append_Nil list.exhaust_sel list.sel(3))
  then show ?case using Cons by simp
qed

text \<open>\<open>rfind\<close> is the last place where the text occurs.\<close>

lemma py_rfind_bound: "-1 \<le> py_rfind s sub \<and> py_rfind s sub \<le> int (length s)"
  by (induction s) (auto simp: Let_def)

lemma py_rfind_occurs:
  "0 \<le> py_rfind s sub \<Longrightarrow> py_startswith (drop (nat (py_rfind s sub)) s) sub"
proof (induction s)
  case (Cons c s)
  show ?case
  proof (cases "0 \<le> py_rfind s sub")
    case True
    then show ?thesis using Cons.IH by (simp add: nat_add_distrib)
  next
    case False
    then show ?thesis using Cons.prems by (auto simp: Let_def split: if_splits)
  qed
qed (auto simp: py_startswith_def split: if_splits)

lemma py_rfind_last:
  "i \<le> length s \<Longrightarrow> py_startswith (drop i s) sub \<Longrightarrow> int i \<le> py_rfind s sub"
proof (induction s arbitrary: i)
  case Nil
  then show ?case by (simp add: py_startswith_def split: if_splits)
next
  case (Cons c s)
  show ?case
  proof (cases i)
    case 0
    then show ?thesis using Cons.prems by (auto simp: Let_def)
  next
    case (Suc k)
    then have "int k \<le> py_rfind s sub" using Cons by simp
    then show ?thesis using Suc by simp
  qed
qed

lemma py_rfind_in: "py_rfind s sub \<noteq> -1 \<longleftrightarrow> py_in sub s"
proof
  assume "py_rfind s sub \<noteq> -1"
  then have "0 \<le> py_rfind s sub" using py_rfind_bound [of s sub] by linarith
  from py_rfind_occurs [OF this] show "py_in sub s" unfolding startswith_iff py_in_iff by (metis append_take_drop_id)
next
  assume "py_in sub s"
  then obtain a b where "s = a @ sub @ b" unfolding py_in_iff by blast
  then have "int (length a) \<le> py_rfind s sub" by (intro py_rfind_last) (auto simp: startswith_iff)
  then show "py_rfind s sub \<noteq> -1" by linarith
qed

section \<open>What the answer means\<close>

definition marker_at :: "string \<Rightarrow> nat \<Rightarrow> string \<Rightarrow> bool" where
  "marker_at m i s \<longleftrightarrow> i \<le> length s \<and> py_startswith (drop i s) m"

lemma markers_differ: "\<not> (py_startswith s MARK_RESTORED \<and> py_startswith s MARK_WIPED)"
  by (cases s) (auto simp: startswith_iff MARK_RESTORED_def MARK_WIPED_def)

lemma rfind_marker: "py_rfind s m \<noteq> -1 \<Longrightarrow> marker_at m (nat (py_rfind s m)) s"
  using py_rfind_occurs [of s m] py_rfind_bound [of s m] by (auto simp: marker_at_def)

lemma rfind_none: "py_rfind s m = -1 \<Longrightarrow> \<not> marker_at m i s"
  using py_rfind_last [of i s m] by (auto simp: marker_at_def)

definition no_marker :: "string \<Rightarrow> bool" where
  "no_marker tail \<longleftrightarrow> \<not> py_in MARK_RESTORED tail \<and> \<not> py_in MARK_WIPED tail"

definition last_marker :: "bool \<Rightarrow> string \<Rightarrow> bool" where
  "last_marker b tail \<longleftrightarrow> (\<exists>i. marker_at (if b then MARK_RESTORED else MARK_WIPED) i tail \<and>
     (\<forall>j. marker_at MARK_RESTORED j tail \<or> marker_at MARK_WIPED j tail \<longrightarrow> j \<le> i))"

lemma auth_decision_None: "auth_decision tail = None \<longleftrightarrow> no_marker tail"
  by (simp add: auth_decision_def no_marker_def Let_def flip: py_rfind_in)

lemma auth_decision_Some:
  assumes "auth_decision tail = Some b"
  shows "last_marker b tail"
proof -
  let ?r = "py_rfind tail MARK_RESTORED" and ?w = "py_rfind tail MARK_WIPED"
  from assms have b: "?r \<noteq> -1 \<or> ?w \<noteq> -1" "b \<longleftrightarrow> ?r > ?w" by (auto simp: auth_decision_def Let_def split: if_splits)
  have later: "int j \<le> ?r" if "marker_at MARK_RESTORED j tail" for j using that py_rfind_last by (auto simp: marker_at_def)
  have later': "int j \<le> ?w" if "marker_at MARK_WIPED j tail" for j using that py_rfind_last by (auto simp: marker_at_def)
  show ?thesis
  proof (cases b)
    case True
    then have "?r \<noteq> -1" using b py_rfind_bound [of tail MARK_WIPED] by auto
    then have "marker_at MARK_RESTORED (nat ?r) tail" by (rule rfind_marker)
    moreover have "j \<le> nat ?r" if "marker_at MARK_RESTORED j tail \<or> marker_at MARK_WIPED j tail" for j
      using that later [of j] later' [of j] True b(2) by linarith
    ultimately show ?thesis using True by (auto simp: last_marker_def)
  next
    case False
    then have "?w \<noteq> -1" using b py_rfind_bound [of tail MARK_RESTORED] py_rfind_bound [of tail MARK_WIPED] by auto
    then have "marker_at MARK_WIPED (nat ?w) tail" by (rule rfind_marker)
    moreover have "j \<le> nat ?w" if "marker_at MARK_RESTORED j tail \<or> marker_at MARK_WIPED j tail" for j
      using that later [of j] later' [of j] False b(2) by linarith
    ultimately show ?thesis using False by (auto simp: last_marker_def)
  qed
qed

lemma auth_scan_returns:
  assumes "auth_scan offset deadline passes = Some (Inr ans)"
  shows "\<exists>pre content now rest tail. passes = pre @ (content, now) # rest \<and>
     list_all (\<lambda>p. \<exists>t. log_tail offset (fst p) = Inr t \<and> no_marker t) pre \<and>
     log_tail offset content = Inr tail \<and> auth_decision tail = ans \<and> (ans = None \<longrightarrow> deadline \<le> now)"
  using assms
proof (induction passes)
  case (Cons p passes)
  obtain content now where p: "p = (content, now)" by (cases p)
  from Cons.prems p obtain tail where t: "log_tail offset content = Inr tail" by (auto split: sum.splits)
  show ?case
  proof (cases "auth_decision tail = None \<and> now < deadline")
    case True
    with Cons.prems p t have "auth_scan offset deadline passes = Some (Inr ans)" by (simp split: if_splits)
    from Cons.IH [OF this] obtain pre content' now' rest tail' where
      1: "passes = pre @ (content', now') # rest" "list_all (\<lambda>p. \<exists>t. log_tail offset (fst p) = Inr t \<and> no_marker t) pre"
        "log_tail offset content' = Inr tail'" "auth_decision tail' = ans" "ans = None \<longrightarrow> deadline \<le> now'"
      by (elim exE conjE) (rule that; assumption)
    have "p # passes = (p # pre) @ (content', now') # rest" "list_all (\<lambda>p. \<exists>t. log_tail offset (fst p) = Inr t \<and> no_marker t) (p # pre)"
      using 1(1,2) True t p auth_decision_None [of tail] by simp_all
    then show ?thesis by (intro exI conjI) (assumption | rule 1(3-5))+
  next
    case False
    with Cons.prems p t have "auth_decision tail = ans \<and> (ans = None \<longrightarrow> deadline \<le> now)" by (auto split: option.splits if_splits)
    moreover have "p # passes = [] @ (content, now) # passes" "list_all (\<lambda>p. \<exists>t. log_tail offset (fst p) = Inr t \<and> no_marker t) []"
      using p by simp_all
    ultimately show ?thesis using t by (intro exI conjI) (assumption | erule conjunct1 conjunct2)+
  qed
qed simp

text \<open>C25: the answer about the last boot. A definite answer comes from the part of the log written since the baseline: the last of the
  two markers there is the one the answer names, and no earlier read showed any. Without a baseline the answer is unknown,
  whatever the log holds; with one it is unknown only after the deadline, when the last read showed neither marker.\<close>

theorem sessions_restored_answer:
  assumes "sessions_restored_after_reboot offset read_timeout start passes = Some (Inr ans)"
  shows "case offset of
      None \<Rightarrow> ans = None
    | Some off \<Rightarrow> \<exists>pre content now rest tail. passes = pre @ (content, now) # rest \<and>
        list_all (\<lambda>p. \<exists>t. log_tail off (fst p) = Inr t \<and> no_marker t) pre \<and> log_tail off content = Inr tail \<and>
        (case ans of None \<Rightarrow> no_marker tail \<and> start + read_timeout \<le> now | Some b \<Rightarrow> last_marker b tail)"
proof (cases offset)
  case None
  then show ?thesis using assms by (simp add: sessions_restored_after_reboot_def)
next
  case (Some off)
  with assms have "auth_scan off (start + read_timeout) passes = Some (Inr ans)" by (simp add: sessions_restored_after_reboot_def)
  from auth_scan_returns [OF this] obtain pre content now rest tail where
    1: "passes = pre @ (content, now) # rest" "list_all (\<lambda>p. \<exists>t. log_tail off (fst p) = Inr t \<and> no_marker t) pre"
      "log_tail off content = Inr tail" "auth_decision tail = ans" "ans = None \<longrightarrow> start + read_timeout \<le> now"
    by (elim exE conjE) (rule that; assumption)
  have "case ans of None \<Rightarrow> no_marker tail \<and> start + read_timeout \<le> now | Some b \<Rightarrow> last_marker b tail"
    using 1(4,5) auth_decision_None [of tail] auth_decision_Some [of tail] by (cases ans) simp_all
  then show ?thesis unfolding Some option.case by (intro exI conjI) (rule 1(1-3) | assumption)+
qed

text \<open>The marker of the first boot, before the baseline, does not answer for the second.\<close>

theorem sessions_restored_answer_witness:
  "sessions_restored_after_reboot (Some 33) 10 0
     [(Inr (MARK_RESTORED @ ''.'' @ [CHR 0x0A]), 1), (Inr (MARK_RESTORED @ ''.'' @ [CHR 0x0A] @ MARK_WIPED @ [CHR 0x0A]), 2)] = Some (Inr (Some False)) \<and>
   last_marker False (MARK_WIPED @ [CHR 0x0A])"
proof -
  let ?old = "MARK_RESTORED @ ''.'' @ [CHR 0x0A]"
  let ?ps = "[(Inr ?old, 1), (Inr (?old @ MARK_WIPED @ [CHR 0x0A]), 2)] :: (string res \<times> time) list"
  have n: "length ?old = 33" by (simp add: MARK_RESTORED_def)
  then have t: "log_tail 33 (Inr ?old) = Inr []" "log_tail 33 (Inr (?old @ MARK_WIPED @ [CHR 0x0A])) = Inr (MARK_WIPED @ [CHR 0x0A])"
    by (simp_all add: log_tail_def)
  have d: "auth_decision [] = None" "auth_decision (MARK_WIPED @ [CHR 0x0A]) = Some False" by code_simp+
  have run: "sessions_restored_after_reboot (Some 33) 10 0 ?ps = Some (Inr (Some False))"
    using t d by (simp add: sessions_restored_after_reboot_def)
  from sessions_restored_answer [OF this] obtain pre content now rest tail where
    1: "?ps = pre @ (content, now) # rest" "log_tail 33 content = Inr tail" "last_marker False tail" by auto
  from 1(1) have "content = Inr ?old \<or> content = Inr (?old @ MARK_WIPED @ [CHR 0x0A])" by (auto simp: Cons_eq_append_conv)
  moreover have "\<not> last_marker False []" by (simp add: last_marker_def marker_at_def MARK_WIPED_def py_startswith_def)
  ultimately have "last_marker False (MARK_WIPED @ [CHR 0x0A])" using 1(2,3) t by auto
  with run show ?thesis by simp
qed

end
