(* ===== verification/Button_Evidence.thy ===== *)
theory Button_Evidence
  imports Serial_Log Io_Bus Client_Mode
begin

text \<open>
  The factory-reset test of \<open>api_tests/47_test_io_indication.py\<close>: it holds the config button on the IO
  bus, waits for the setting to revert, and when it does not, decides from the firmware's serial log
  whether the firmware is at fault. The log scan, the parsed guest timestamps, the lower bound on the
  guest's own hold time, the classification and the whole test with its restore are modelled; what
  the assertions and skips print is kept as data.
\<close>

section \<open>Constants and markers\<close>

definition FW_LONG_PRESS_THRESHOLD_S :: rat where "FW_LONG_PRESS_THRESHOLD_S = 5"
definition FACTORY_RESET_HOLD_S :: rat where "FACTORY_RESET_HOLD_S = 12"
definition REVERT_POLL_MAX_S :: rat where "REVERT_POLL_MAX_S = 30"
definition LONG_PRESS_VERDICT_MARGIN_S :: rat where "LONG_PRESS_VERDICT_MARGIN_S = 1"
definition SERIAL_SCAN_MAX_S :: rat where "SERIAL_SCAN_MAX_S = 10"

definition MARK_PRESS :: string where "MARK_PRESS = ''Button press event, counter:''"
definition MARK_LONG_PRESS :: string where "MARK_LONG_PRESS = ''Button long press event, hold time:''"
definition MARK_RESET_TRIGGERED :: string where "MARK_RESET_TRIGGERED = ''Factory reset triggered by 5-second config button hold!''"
definition MARK_RESET_STARTED :: string where "MARK_RESET_STARTED = ''Resetting all settings to factory defaults...''"
definition MARK_RESET_COMPLETED :: string where "MARK_RESET_COMPLETED = ''Factory reset completed!''"
definition MARK_TERM_KEY_WRITTEN :: string where "MARK_TERM_KEY_WRITTEN = ''Set default 485_term_1 = ''"

section \<open>Guest timestamps\<close>

text \<open>\<open>^[VDIWE] \((\d+)\)\<close>: the timestamp at the head of a log line.\<close>

definition log_ts :: "string \<Rightarrow> int option" where
  "log_ts line =
     (case line of
        l # CHR '' '' # CHR ''('' # t \<Rightarrow>
          (let ds = takeWhile is_digit t in
           if l \<in> set ''VDIWE'' \<and> ds \<noteq> [] \<and> take 1 (dropWhile is_digit t) = '')''
           then py_int ds else None)
      | _ \<Rightarrow> None)"

fun timestamps_from :: "int option \<times> int option \<Rightarrow> string list \<Rightarrow> int option \<times> int option" where
  "timestamps_from acc [] = acc"
| "timestamps_from (press_ts, last_ts) (line # lines) =
     (case log_ts line of
        None \<Rightarrow> timestamps_from (press_ts, last_ts) lines
      | Some ts \<Rightarrow> timestamps_from (if py_in MARK_PRESS line then Some ts else press_ts, Some ts) lines)"

definition parse_log_timestamps :: "string \<Rightarrow> int option \<times> int option" where
  "parse_log_timestamps tail = timestamps_from (None, None) (py_splitlines tail)"

record markers =
  press :: bool
  long_press :: bool
  reset_triggered :: bool
  reset_started :: bool
  reset_completed :: bool
  term_key_written :: bool
  press_ts_ms :: "int option"
  last_ts_ms :: "int option"
  read_at :: time

definition guest_held_ms_after_press :: "markers \<Rightarrow> time \<Rightarrow> rat option" where
  "guest_held_ms_after_press m release_at_host =
     (case (press_ts_ms m, last_ts_ms m) of
        (Some press_ts, Some last_ts) \<Rightarrow>
          (let host_elapsed_ms = (read_at m - release_at_host) * 1000 in
           Some ((of_int last_ts - host_elapsed_ms) - of_int press_ts))
      | _ \<Rightarrow> None)"

section \<open>Scanning the log\<close>

definition markers_in :: "string \<Rightarrow> time \<Rightarrow> markers" where
  "markers_in tail stamp =
     (let (press_ts, last_ts) = parse_log_timestamps tail in
      \<lparr>press = py_in MARK_PRESS tail, long_press = py_in MARK_LONG_PRESS tail,
       reset_triggered = py_in MARK_RESET_TRIGGERED tail, reset_started = py_in MARK_RESET_STARTED tail,
       reset_completed = py_in MARK_RESET_COMPLETED tail, term_key_written = py_in MARK_TERM_KEY_WRITTEN tail,
       press_ts_ms = press_ts, last_ts_ms = last_ts, read_at = stamp\<rparr>)"

text \<open>A pass: what the read yields, the stamp taken after it, and the reading compared with the deadline.\<close>

type_synonym scan = "string res \<times> time \<times> time"

fun marker_scan :: "int \<Rightarrow> time \<Rightarrow> scan list \<Rightarrow> markers option res option" where
  "marker_scan offset deadline [] = None"
| "marker_scan offset deadline ((content, stamp, now) # scans) =
     (case log_tail offset content of
        Inl e \<Rightarrow> Some (Inl e)
      | Inr tail \<Rightarrow>
          if py_strip tail = [] then
            (if deadline \<le> now then Some (Inr None) else marker_scan offset deadline scans)
          else
            (let found = markers_in tail stamp in
             if reset_completed found \<or> deadline \<le> now then Some (Inr (Some found))
             else marker_scan offset deadline scans))"

definition button_markers_since :: "int option \<Rightarrow> time \<Rightarrow> scan list \<Rightarrow> markers option res option" where
  "button_markers_since offset start scans =
     (case offset of
        None \<Rightarrow> Some (Inr None)
      | Some offset \<Rightarrow> marker_scan offset (start + SERIAL_SCAN_MAX_S) scans)"

section \<open>Verdicts\<close>

text \<open>The assertions that accuse, the one that cannot classify, and the skips, with what they state.\<close>

datatype accusation =
    CompletedButUnchanged json
  | KeyWrittenButUnchanged json
  | LongPressMissed rat
  | Unclassified

datatype disarmed =
    RereadFailed
  | TriggeredNotCompleted
  | PressNeverSeen
  | HeldTooShort "rat option"

datatype factory_outcome = Passed | Accused accusation | Disarmed disarmed | TestRaised exn

definition term_of :: "(response \<Rightarrow> json res) \<Rightarrow> response \<Rightarrow> json res" where
  "term_of js resp = rbind (js resp) (\<lambda>doc. rbind (jindex ''rs485_1'' doc) (jindex ''term''))"

definition checked_term :: "(response \<Rightarrow> json res) \<Rightarrow> response \<Rightarrow> json res" where
  "checked_term js resp = (if status_code resp \<noteq> 200 then Inl AssertionError else term_of js resp)"

text \<open>\<open>_reread_term\<close>: \<open>Inl\<close> is how it ends the test.\<close>

definition reread_term :: "(response \<Rightarrow> json res) \<Rightarrow> reply \<Rightarrow> api \<Rightarrow> (factory_outcome + json) \<times> api" where
  "reread_term js out api =
     (case get_settings out api of
        (Inl e, api) \<Rightarrow> (Inl (if e = RequestException then Disarmed RereadFailed else TestRaised e), api)
      | (Inr resp, api) \<Rightarrow>
          (case checked_term js resp of
             Inl e \<Rightarrow> (Inl (TestRaised e), api)
           | Inr term \<Rightarrow> (Inr term, api)))"

definition VERDICT_THRESHOLD_MS :: rat where
  "VERDICT_THRESHOLD_MS = (FW_LONG_PRESS_THRESHOLD_S + LONG_PRESS_VERDICT_MARGIN_S) * 1000"

definition classify :: "(response \<Rightarrow> json res) \<Rightarrow> markers \<Rightarrow> time \<Rightarrow> reply \<Rightarrow> api \<Rightarrow> factory_outcome \<times> api" where
  "classify js m release_at_host out api =
     (if reset_completed m then
        (case reread_term js out api of
           (Inl r, api) \<Rightarrow> (r, api)
         | (Inr term, api) \<Rightarrow> (if term = JBool True then Passed else Accused (CompletedButUnchanged term), api))
      else if term_key_written m then
        (case reread_term js out api of
           (Inl r, api) \<Rightarrow> (r, api)
         | (Inr term, api) \<Rightarrow> (if term = JBool True then Passed else Accused (KeyWrittenButUnchanged term), api))
      else if long_press m \<or> reset_triggered m \<or> reset_started m then (Disarmed TriggeredNotCompleted, api)
      else if \<not> press m then (Disarmed PressNeverSeen, api)
      else
        (let guest_held_ms = guest_held_ms_after_press m release_at_host in
         case guest_held_ms of
           Some held \<Rightarrow>
             if VERDICT_THRESHOLD_MS \<le> held then (Accused (LongPressMissed held), api) else (Disarmed (HeldTooShort guest_held_ms), api)
         | None \<Rightarrow> (Disarmed (HeldTooShort guest_held_ms), api)))"

section \<open>The test\<close>

record factory_env =
  fe_get :: reply
  fe_post :: reply
  fe_check :: reply
  fe_open :: "time \<times> pump_run"
  fe_offset :: "int res"
  fe_press :: press_env
  fe_pump :: pump_run
  fe_poll_start :: time
  fe_polls :: "(time \<times> reply) list"
  fe_scan_start :: time
  fe_scans :: "scan list"
  fe_reread :: reply
  fe_restore :: reply

definition term_false_doc :: json where
  "term_false_doc = JObj [(''rs485_1'', JObj [(''term'', JBool False)])]"

text \<open>Step 1: set the non-default value and confirm it.\<close>

definition set_term_false :: "(response \<Rightarrow> json res) \<Rightarrow> reply \<Rightarrow> reply \<Rightarrow> api \<Rightarrow> unit res \<times> api" where
  "set_term_false js post check api =
     (case update_settings post term_false_doc api of
        (Inl e, api) \<Rightarrow> (Inl e, api)
      | (Inr resp, api) \<Rightarrow>
          (case settings_accepted js resp of
             Inl e \<Rightarrow> (Inl e, api)
           | Inr _ \<Rightarrow>
               (case get_settings check api of
                  (Inl e, api) \<Rightarrow> (Inl e, api)
                | (Inr resp, api) \<Rightarrow>
                    (rbind (checked_term js resp) (\<lambda>term. if term = JBool False then Inr () else Inl AssertionError), api))))"

text \<open>Step 2: the baseline of the log, the press and the pump after it; the result is the baseline and the release stamp.\<close>

definition press_phase :: "factory_env \<Rightarrow> (int option \<times> time) res option" where
  "press_phase env =
     (case io_open (fst (fe_open env)) (snd (fe_open env)) of
        None \<Rightarrow> None
      | Some (Inl e, _) \<Rightarrow> Some (Inl e)
      | Some (Inr _, bus) \<Rightarrow>
          (case serial_log_offset (fe_offset env) of
             Inl e \<Rightarrow> Some (Inl e)
           | Inr offset \<Rightarrow>
               (case press_button FACTORY_RESET_HOLD_S (fe_press env) bus of
                  None \<Rightarrow> None
                | Some (Inl e, _) \<Rightarrow> Some (Inl e)
                | Some (Inr release_at_host, bus) \<Rightarrow>
                    (case pump 2 (fe_pump env) bus of
                       None \<Rightarrow> None
                     | Some (Inl e, _) \<Rightarrow> Some (Inl e)
                     | Some (Inr _, _) \<Rightarrow> Some (Inr (offset, release_at_host))))))"

text \<open>Step 3: poll for the revert; the state is the last value read.\<close>

definition revert_pass :: "(response \<Rightarrow> json res) \<Rightarrow> reply \<Rightarrow> json option \<times> api \<Rightarrow> (json option \<times> api, (json option \<times> api) + (exn \<times> api)) flow" where
  "revert_pass js out s =
     (case get_settings out (snd s) of
        (Inl e, api) \<Rightarrow> Stop (Inr (e, api))
      | (Inr resp, api) \<Rightarrow>
          (case checked_term js resp of
             Inl e \<Rightarrow> Stop (Inr (e, api))
           | Inr term \<Rightarrow> if term = JBool True then Stop (Inl (Some term, api)) else Next (Some term, pause (1/2) api)))"

definition revert_poll :: "(response \<Rightarrow> json res) \<Rightarrow> time \<Rightarrow> (time \<times> reply) list \<Rightarrow> api \<Rightarrow> (json option res \<times> api) option" where
  "revert_poll js start polls api =
     (case deadline_loop (\<lambda>_. True) (start + REVERT_POLL_MAX_S) (revert_pass js) polls (None, api) of
        None \<Rightarrow> None
      | Some (Stopped (Inl (term, api)), _) \<Rightarrow> Some (Inr term, api)
      | Some (Stopped (Inr (e, api)), _) \<Rightarrow> Some (Inl e, api)
      | Some (Expired (term, api), _) \<Rightarrow> Some (Inr term, api)
      | Some (Done (term, api), _) \<Rightarrow> Some (Inr term, api))"

text \<open>The \<open>try\<close> body: steps 1 to 4.\<close>

definition factory_body :: "(response \<Rightarrow> json res) \<Rightarrow> factory_env \<Rightarrow> api \<Rightarrow> (factory_outcome \<times> api) option" where
  "factory_body js env api =
     (case set_term_false js (fe_post env) (fe_check env) api of
        (Inl e, api) \<Rightarrow> Some (TestRaised e, api)
      | (Inr _, api) \<Rightarrow>
          (case press_phase env of
             None \<Rightarrow> None
           | Some (Inl e) \<Rightarrow> Some (TestRaised e, api)
           | Some (Inr (serial_offset, release_at_host)) \<Rightarrow>
               (case revert_poll js (fe_poll_start env) (fe_polls env) api of
                  None \<Rightarrow> None
                | Some (Inl e, api) \<Rightarrow> Some (TestRaised e, api)
                | Some (Inr term_after, api) \<Rightarrow>
                    if term_after = Some (JBool True) then Some (Passed, api)
                    else
                      (case button_markers_since serial_offset (fe_scan_start env) (fe_scans env) of
                         None \<Rightarrow> None
                       | Some (Inl e) \<Rightarrow> Some (TestRaised e, api)
                       | Some (Inr None) \<Rightarrow> Some (Accused Unclassified, api)
                       | Some (Inr (Some m)) \<Rightarrow> Some (classify js m release_at_host (fe_reread env) api)))))"

text \<open>The \<open>finally\<close> block keeps the outcome unless the restore raises something other than a transport error.\<close>

definition test_factory_reset_long_press :: "(response \<Rightarrow> json res) \<Rightarrow> factory_env \<Rightarrow> api \<Rightarrow> (factory_outcome \<times> api) option" where
  "test_factory_reset_long_press js env api =
     (case get_settings (fe_get env) api of
        (Inl e, api) \<Rightarrow> Some (TestRaised e, api)
      | (Inr resp, api) \<Rightarrow>
          (case (if status_code resp \<noteq> 200 then Inl AssertionError else js resp) of
             Inl e \<Rightarrow> Some (TestRaised e, api)
           | Inr original_settings \<Rightarrow>
               (case factory_body js env api of
                  None \<Rightarrow> None
                | Some (r, api) \<Rightarrow>
                    (case update_settings (fe_restore env) original_settings api of
                       (Inl e, api) \<Rightarrow> Some (if e = RequestException then r else TestRaised e, api)
                     | (Inr _, api) \<Rightarrow> Some (r, api)))))"

section \<open>The guest's clock\<close>

lemma timestamps_from_source:
  assumes "timestamps_from (p, l) lines = (p', l')"
  shows "(p' = p \<or> (\<exists>line \<in> set lines. py_in MARK_PRESS line \<and> log_ts line = p')) \<and>
     (l' = l \<or> (\<exists>line \<in> set lines. log_ts line = l' \<and> l' \<noteq> None))"
  using assms
proof (induction lines arbitrary: p l)
  case (Cons line lines)
  show ?case
  proof (cases "log_ts line")
    case None
    then show ?thesis using Cons by fastforce
  next
    case (Some ts)
    then have "timestamps_from (if py_in MARK_PRESS line then Some ts else p, Some ts) lines = (p', l')" using Cons.prems by simp
    from Cons.IH [OF this] Some show ?thesis by (auto split: if_splits)
  qed
qed simp

lemma parse_source:
  assumes "parse_log_timestamps tail = (Some p, Some l)"
  shows "\<exists>line \<in> set (py_splitlines tail). py_in MARK_PRESS line \<and> log_ts line = Some p"
    "\<exists>line \<in> set (py_splitlines tail). log_ts line = Some l"
  using timestamps_from_source [of None None "py_splitlines tail" "Some p" "Some l"] assms by (auto simp: parse_log_timestamps_def)

text \<open>A guest clock, in milliseconds over the host's: it never goes back and never runs ahead of the host.\<close>

definition guest_clock :: "(time \<Rightarrow> rat) \<Rightarrow> bool" where
  "guest_clock g \<longleftrightarrow> (\<forall>a b. a \<le> b \<longrightarrow> g a \<le> g b \<and> g b - g a \<le> (b - a) * 1000)"

text \<open>A timestamped line of the log was written at some instant up to \<open>stamp\<close>, and its timestamp is that instant's whole millisecond.\<close>

definition stamped_by :: "(time \<Rightarrow> rat) \<Rightarrow> time \<Rightarrow> string \<Rightarrow> bool" where
  "stamped_by g stamp line \<longleftrightarrow> (\<forall>ts. log_ts line = Some ts \<longrightarrow> (\<exists>em \<le> stamp. of_int ts \<le> g em \<and> g em < of_int ts + 1))"

lemma held_is_lower_bound:
  assumes "guest_clock g" "release \<le> read_at m" "em \<le> read_at m" "of_int last_ts \<le> g em"
    and "press_ts_ms m = Some press_ts" "last_ts_ms m = Some last_ts" "guest_held_ms_after_press m release = Some held"
  shows "held \<le> g release - of_int press_ts"
proof -
  have held: "held = (of_int last_ts - (read_at m - release) * 1000) - of_int press_ts"
    using assms(5-7) by (simp add: guest_held_ms_after_press_def)
  have "of_int last_ts - (read_at m - release) * 1000 \<le> g release"
  proof (cases "release \<le> em")
    case True
    then have "g em - g release \<le> (em - release) * 1000" using assms(1) by (simp add: guest_clock_def)
    moreover have "(em - release) * 1000 \<le> (read_at m - release) * 1000" using assms(3) by simp
    ultimately show ?thesis using assms(4) by linarith
  next
    case False
    then have "g em \<le> g release" using assms(1) by (simp add: guest_clock_def)
    then show ?thesis using assms(2,4) by (simp add: algebra_simps)
  qed
  then show ?thesis using held by simp
qed

section \<open>What a verdict rests on\<close>

lemma marker_scan_found:
  assumes "marker_scan offset deadline scans = Some (Inr (Some m))"
  shows "\<exists>content stamp now tail. (content, stamp, now) \<in> set scans \<and> log_tail offset content = Inr tail \<and> m = markers_in tail stamp"
  using assms
proof (induction scans)
  case (Cons p scans)
  obtain content stamp now where p: "p = (content, stamp, now)" by (cases p)
  from Cons.prems p obtain tail where t: "log_tail offset content = Inr tail" by (auto split: sum.splits)
  from Cons.prems p t have "m = markers_in tail stamp \<or> marker_scan offset deadline scans = Some (Inr (Some m))"
    by (auto simp: Let_def split: if_splits)
  then show ?case using Cons.IH p t by fastforce
qed simp

lemma markers_in_simps [simp]:
  "press (markers_in tail stamp) = py_in MARK_PRESS tail" "long_press (markers_in tail stamp) = py_in MARK_LONG_PRESS tail"
  "reset_completed (markers_in tail stamp) = py_in MARK_RESET_COMPLETED tail"
  "term_key_written (markers_in tail stamp) = py_in MARK_TERM_KEY_WRITTEN tail"
  "read_at (markers_in tail stamp) = stamp"
  "(press_ts_ms (markers_in tail stamp), last_ts_ms (markers_in tail stamp)) = parse_log_timestamps tail"
  by (simp_all add: markers_in_def split: prod.split)

text \<open>The four requests of the body leave the client's base URL alone.\<close>

lemma base_url_calls:
  "get_settings out api = (r, api') \<Longrightarrow> base_url api' = base_url api"
  "update_settings out d api = (r, api') \<Longrightarrow> base_url api' = base_url api"
  by (auto simp: get_settings_def update_settings_def session_request_def)

lemma press_phase_release: "press_phase env = Some (Inr (off, release)) \<Longrightarrow> release = release_clock (fe_press env) \<and> serial_log_offset (fe_offset env) = Inr off"
  by (auto simp: press_phase_def press_button_def split: option.splits sum.splits prod.splits)

lemma test_outcome_body:
  assumes "test_factory_reset_long_press js env api = Some (r, api')" "\<And>e. r \<noteq> TestRaised e"
  shows "\<exists>resp orig api1 api2. fst (fe_get env) = Inr resp \<and> js resp = Inr orig \<and> factory_body js env api1 = Some (r, api2) \<and>
     requests api' = requests api2 @ [\<lparr>meth = ''POST'', url = base_url api2 @ ''/settings'', req_json = Some orig, req_timeout = 30\<rparr>]"
proof -
  obtain resp api1 where g: "get_settings (fe_get env) api = (Inr resp, api1)"
    using assms by (cases "get_settings (fe_get env) api") (auto simp: test_factory_reset_long_press_def split: sum.splits)
  then have o: "fst (fe_get env) = Inr resp" by (simp add: get_settings_def session_request_def)
  obtain orig where j: "js resp = Inr orig" "status_code resp = 200"
    using assms g by (auto simp: test_factory_reset_long_press_def split: sum.splits if_splits)
  obtain r2 api2 where b: "factory_body js env api1 = Some (r2, api2)"
    using assms(1) g j by (auto simp: test_factory_reset_long_press_def split: option.splits)
  obtain u api3 where u: "update_settings (fe_restore env) orig api2 = (u, api3)" by (cases "update_settings (fe_restore env) orig api2")
  have "r2 = r" "api3 = api'" using assms g j b u by (auto simp: test_factory_reset_long_press_def split: sum.splits if_splits)
  moreover have "requests api3 = requests api2 @ [\<lparr>meth = ''POST'', url = base_url api2 @ ''/settings'', req_json = Some orig, req_timeout = 30\<rparr>]"
    using u by (auto simp: update_settings_def dest: session_request_requests)
  ultimately show ?thesis using o j b by blast
qed

lemma body_classified:
  assumes "factory_body js env api = Some (r, api')" "r \<noteq> Passed" "r \<noteq> Accused Unclassified" "\<And>e. r \<noteq> TestRaised e"
  shows "\<exists>off content stamp now tail api1. (content, stamp, now) \<in> set (fe_scans env) \<and> serial_log_offset (fe_offset env) = Inr (Some off) \<and>
     log_tail off content = Inr tail \<and> classify js (markers_in tail stamp) (release_clock (fe_press env)) (fe_reread env) api1 = (r, api')"
proof -
  from assms obtain off release m api1 where
    1: "press_phase env = Some (Inr (off, release))" "button_markers_since off (fe_scan_start env) (fe_scans env) = Some (Inr (Some m))"
      "classify js m release (fe_reread env) api1 = (r, api')"
    by (auto simp: factory_body_def split: option.splits sum.splits prod.splits if_splits)
  from 1(2) obtain off' where off: "off = Some off'" by (auto simp: button_markers_since_def split: option.splits)
  with 1(2) have "marker_scan off' (fe_scan_start env + SERIAL_SCAN_MAX_S) (fe_scans env) = Some (Inr (Some m))"
    by (simp add: button_markers_since_def)
  from marker_scan_found [OF this] obtain content stamp now tail where
    2: "(content, stamp, now) \<in> set (fe_scans env)" "log_tail off' content = Inr tail" "m = markers_in tail stamp" by blast
  with 1 off press_phase_release [OF 1(1)] show ?thesis by auto
qed

text \<open>The scans of a run read what the guest had written by then, after the button was released.\<close>

definition faithful_log :: "(time \<Rightarrow> rat) \<Rightarrow> factory_env \<Rightarrow> bool" where
  "faithful_log g env \<longleftrightarrow> (\<forall>(content, stamp, now) \<in> set (fe_scans env). release_clock (fe_press env) \<le> stamp \<and>
     (\<forall>off tail. serial_log_offset (fe_offset env) = Inr (Some off) \<longrightarrow> log_tail off content = Inr tail \<longrightarrow>
        list_all (stamped_by g stamp) (py_splitlines tail)))"

lemma classify_LongPressMissed:
  assumes "classify js m release out api = (Accused (LongPressMissed held), api')"
  shows "\<not> long_press m \<and> press m \<and> guest_held_ms_after_press m release = Some held \<and> VERDICT_THRESHOLD_MS \<le> held"
  using assms by (auto simp: classify_def reread_term_def Let_def split: if_splits option.splits sum.splits prod.splits)

text \<open>C8: the firmware is accused of a missed long press only when it had the time. If the guest's clock never runs ahead of the host's,
  and the log was read as the guest had written it, then an accusation of a missed long press means: since the baseline the firmware
  logged a press and no long press, and between the instant it logged that press and the host's release its own clock advanced by
  more than the firmware's threshold. A guest that was starved of ticks is never accused.\<close>

theorem long_press_accusation_sound:
  assumes run: "test_factory_reset_long_press js env api = Some (Accused (LongPressMissed held), api')"
    and clock: "guest_clock g" and log: "faithful_log g env"
  shows "\<exists>off content stamp now tail line ts seen. (content, stamp, now) \<in> set (fe_scans env) \<and>
     serial_log_offset (fe_offset env) = Inr (Some off) \<and> log_tail off content = Inr tail \<and> \<not> py_in MARK_LONG_PRESS tail \<and>
     line \<in> set (py_splitlines tail) \<and> py_in MARK_PRESS line \<and> log_ts line = Some ts \<and>
     seen \<le> stamp \<and> of_int ts \<le> g seen \<and> g seen < of_int ts + 1 \<and>
     FW_LONG_PRESS_THRESHOLD_S * 1000 < g (release_clock (fe_press env)) - g seen"
proof -
  let ?R = "release_clock (fe_press env)"
  from test_outcome_body [OF run] obtain api1 api2 where "factory_body js env api1 = Some (Accused (LongPressMissed held), api2)" by auto
  from body_classified [OF this] obtain off content stamp now tail api3 where
    1: "(content, stamp, now) \<in> set (fe_scans env)" "serial_log_offset (fe_offset env) = Inr (Some off)" "log_tail off content = Inr tail"
      "classify js (markers_in tail stamp) ?R (fe_reread env) api3 = (Accused (LongPressMissed held), api2)" by auto
  let ?m = "markers_in tail stamp"
  have m: "\<not> py_in MARK_LONG_PRESS tail" "guest_held_ms_after_press ?m ?R = Some held" "VERDICT_THRESHOLD_MS \<le> held"
    using classify_LongPressMissed [OF 1(4)] by simp_all
  from m(2) obtain p l where pl: "press_ts_ms ?m = Some p" "last_ts_ms ?m = Some l"
    by (cases "press_ts_ms ?m"; cases "last_ts_ms ?m") (simp_all add: guest_held_ms_after_press_def del: markers_in_simps)
  then have "parse_log_timestamps tail = (Some p, Some l)" using markers_in_simps(6) [of tail stamp] by simp
  from parse_source [OF this] obtain line line' where
    lines: "line \<in> set (py_splitlines tail)" "py_in MARK_PRESS line" "log_ts line = Some p" "line' \<in> set (py_splitlines tail)" "log_ts line' = Some l"
    by blast
  have s: "?R \<le> stamp" "list_all (stamped_by g stamp) (py_splitlines tail)" using log 1(1-3) by (auto simp: faithful_log_def)
  then have "stamped_by g stamp line" "stamped_by g stamp line'" using lines by (auto simp: list_all_iff)
  then obtain seen em where
    seen: "seen \<le> stamp" "of_int p \<le> g seen" "g seen < of_int p + 1" and em: "em \<le> stamp" "of_int l \<le> g em"
    using lines(3,5) by (auto simp: stamped_by_def)
  have "held \<le> g ?R - of_int p"
    using held_is_lower_bound [OF clock _ _ em(2) pl m(2)] s(1) em(1) by simp
  then have "FW_LONG_PRESS_THRESHOLD_S * 1000 < g ?R - g seen"
    using m(3) seen(3) by (simp add: VERDICT_THRESHOLD_MS_def FW_LONG_PRESS_THRESHOLD_S_def LONG_PRESS_VERDICT_MARGIN_S_def)
  with 1(1-3) m(1) lines seen show ?thesis by blast
qed

definition reports :: "(response \<Rightarrow> json res) \<Rightarrow> reply \<Rightarrow> json \<Rightarrow> bool" where
  "reports js out term \<longleftrightarrow> (\<exists>resp. fst out = Inr resp \<and> checked_term js resp = Inr term)"

lemma reread_reports: "reread_term js out api = (Inr term, api') \<Longrightarrow> reports js out term"
  by (auto simp: reread_term_def reports_def get_settings_def session_request_def split: sum.splits prod.splits)

lemma reread_not_passed: "reread_term js out api = (Inl r, api') \<Longrightarrow> r = Disarmed RereadFailed \<or> (\<exists>e. r = TestRaised e)"
  by (auto simp: reread_term_def split: sum.splits prod.splits if_splits)

lemma classify_backed:
  assumes "classify js m release out api = (r, api')"
  shows "case r of
      Passed \<Rightarrow> reports js out (JBool True)
    | Accused (CompletedButUnchanged t) \<Rightarrow> reset_completed m \<and> reports js out t \<and> t \<noteq> JBool True
    | Accused (KeyWrittenButUnchanged t) \<Rightarrow> term_key_written m \<and> reports js out t \<and> t \<noteq> JBool True
    | _ \<Rightarrow> True"
  using assms
  by (auto simp: classify_def Let_def split: if_splits option.splits sum.splits prod.splits
      dest: reread_reports reread_not_passed)

lemma revert_poll_True:
  assumes "revert_poll js start polls api = Some (Inr (Some (JBool True)), api')"
  shows "\<exists>p \<in> set polls. reports js (snd p) (JBool True)"
proof -
  have inv: "\<exists>p \<in> set ps. reports js (snd p) (JBool True)"
    if "deadline_loop (\<lambda>_. True) d (revert_pass js) ps (t, a) = Some (out, rest)" "t \<noteq> Some (JBool True)"
      "(case out of Stopped (Inl (t', _)) \<Rightarrow> t' | Stopped (Inr _) \<Rightarrow> None | Expired (t', _) \<Rightarrow> t' | Done (t', _) \<Rightarrow> t') = Some (JBool True)" for d ps t a out rest
    using that
  proof (induction ps arbitrary: t a)
    case (Cons p ps)
    obtain now o1 where p: "p = (now, o1)" by (cases p)
    show ?case
    proof (cases "now < d")
      case False
      then show ?thesis using Cons.prems p by (auto simp: loop_simps)
    next
      case True
      show ?thesis
      proof (cases "revert_pass js o1 (t, a)")
        case (Next s)
        then obtain t' a' where s: "s = (Some t', a')" "t' \<noteq> JBool True" by (auto simp: revert_pass_def split: sum.splits prod.splits if_splits)
        then have "deadline_loop (\<lambda>_. True) d (revert_pass js) ps (Some t', a') = Some (out, rest)"
          using Cons.prems(1) p True Next by (simp add: loop_simps)
        from Cons.IH [OF this _ Cons.prems(3)] s(2) show ?thesis by auto
      next
        case (Stop r)
        then have "out = Stopped r" using Cons.prems(1) p True by (simp add: loop_simps)
        with Stop Cons.prems(3) have "reports js o1 (JBool True)"
          by (auto simp: revert_pass_def reports_def get_settings_def session_request_def split: sum.splits prod.splits if_splits)
        then show ?thesis using p by auto
      qed
    qed
  qed (simp add: loop_simps)
  from assms obtain out rest where "deadline_loop (\<lambda>_. True) (start + REVERT_POLL_MAX_S) (revert_pass js) polls (None, api) = Some (out, rest)"
    "(case out of Stopped (Inl (t', _)) \<Rightarrow> t' | Stopped (Inr _) \<Rightarrow> None | Expired (t', _) \<Rightarrow> t' | Done (t', _) \<Rightarrow> t') = Some (JBool True)"
    by (auto simp: revert_poll_def split: option.splits outcome.splits sum.splits prod.splits)
  from inv [OF this(1) _ this(2)] show ?thesis by simp
qed

lemma body_backed:
  assumes "factory_body js env api = Some (r, api')"
  shows "case r of
      Passed \<Rightarrow> (\<exists>p \<in> set (fe_polls env). reports js (snd p) (JBool True)) \<or> reports js (fe_reread env) (JBool True)
    | Accused (CompletedButUnchanged t) \<Rightarrow> reports js (fe_reread env) t \<and> t \<noteq> JBool True
    | Accused (KeyWrittenButUnchanged t) \<Rightarrow> reports js (fe_reread env) t \<and> t \<noteq> JBool True
    | _ \<Rightarrow> True"
proof -
  have c: "(\<exists>m release api1. classify js m release (fe_reread env) api1 = (r, api')) \<or>
      (r = Passed \<and> (\<exists>api1 api2. revert_poll js (fe_poll_start env) (fe_polls env) api1 = Some (Inr (Some (JBool True)), api2))) \<or>
      (\<exists>e. r = TestRaised e) \<or> r = Accused Unclassified"
    using assms by (auto simp: factory_body_def split: option.splits sum.splits prod.splits if_splits)
  then show ?thesis
  proof (elim disjE exE conjE)
    fix m release api1 assume "classify js m release (fe_reread env) api1 = (r, api')"
    from classify_backed [OF this] show ?thesis by (cases r) (auto split: accusation.splits)
  qed (auto dest: revert_poll_True)
qed


section \<open>Runs\<close>

definition fr_js :: "response \<Rightarrow> json res" where
  "fr_js r = Inr (JObj [(''success'', JBool True), (''rs485_1'', JObj [(''term'', JBool (resp_text r = ''t''))])])"

definition fr_reply :: "string \<Rightarrow> reply" where "fr_reply t = (Inr \<lparr>status_code = 200, resp_text = t\<rparr>, [])"

definition fr_idle :: pump_in where "fr_idle = \<lparr>check_at = 0, sub_at = 0, rcv = DgramTimeout\<rparr>"

text \<open>The device keeps the value; the log is \<open>serial\<close>, read 35 seconds after the release.\<close>

definition fr_env :: "string \<Rightarrow> factory_env" where
  "fr_env serial =
     \<lparr>fe_get = fr_reply ''t'', fe_post = fr_reply ''f'', fe_check = fr_reply ''f'', fe_open = (0, 0, [(1, fr_idle)]), fe_offset = Inr 0,
      fe_press = \<lparr>hold_from = 1, hold_clock = [(13, ())], release_clock = 13, confirm_from = 13, confirm_passes = [(15, 15, [])]\<rparr>,
      fe_pump = (15, [(17, fr_idle)]), fe_poll_start = 17, fe_polls = [(18, fr_reply ''f''), (47, fr_reply ''f'')],
      fe_scan_start = 47, fe_scans = [(Inr serial, 48, 57)], fe_reread = fr_reply ''f'', fe_restore = fr_reply ''t''\<rparr>"

definition fr_api :: api where "fr_api = new_api 0 None"

definition fr_held_log :: string where
  "fr_held_log = ''I (2000) b: Button press event, counter: 1'' @ [CHR 0x0A] @ ''I (48000) s: GET'' @ [CHR 0x0A]"

lemma fr_press_phase: "press_phase (fr_env serial) = Some (Inr (Some 0, 13))"
  by (simp add: press_phase_def fr_env_def io_open_def pump_def press_button_def press_hold_def press_release_def FACTORY_RESET_HOLD_S_def
      serial_log_offset_def loop_simps Let_def)

lemma fr_calls [simp]:
  "fst (get_settings (fr_reply t) api) = Inr \<lparr>status_code = 200, resp_text = t\<rparr>"
  "fst (update_settings (fr_reply t) d api) = Inr \<lparr>status_code = 200, resp_text = t\<rparr>"
  "checked_term fr_js \<lparr>status_code = 200, resp_text = t\<rparr> = Inr (JBool (t = ''t''))"
  "settings_accepted fr_js \<lparr>status_code = 200, resp_text = t\<rparr> = Inr ()"
  by (simp_all add: get_settings_def update_settings_def session_request_def fr_reply_def checked_term_def term_of_def fr_js_def jindex_def
      settings_accepted_def jget_def)

lemma fr_split: "get_settings (fr_reply t) api = (x, a) \<Longrightarrow> x = Inr \<lparr>status_code = 200, resp_text = t\<rparr>"
  "update_settings (fr_reply t) d api = (x, a) \<Longrightarrow> x = Inr \<lparr>status_code = 200, resp_text = t\<rparr>"
  using fr_calls(1) [of t api] fr_calls(2) [of t d api] by simp_all

lemma fr_polls: "\<exists>api'. revert_poll fr_js 17 [(18, fr_reply ''f''), (47, fr_reply ''f'')] api = Some (Inr (Some (JBool False)), api')"
  by (auto simp: revert_poll_def loop_simps revert_pass_def REVERT_POLL_MAX_S_def dest!: fr_split split: prod.splits)

lemma fr_set: "\<exists>api'. set_term_false fr_js (fr_reply ''f'') (fr_reply ''f'') api = (Inr (), api')"
  by (auto simp: set_term_false_def dest!: fr_split split: prod.splits)

lemma fr_test:
  assumes "\<And>api. \<exists>api'. classify fr_js (markers_in serial 48) 13 (fr_reply ''f'') api = (r, api')" "py_strip serial \<noteq> []"
  shows "\<exists>api'. test_factory_reset_long_press fr_js (fr_env serial) fr_api = Some (r, api')"
proof -
  have b: "\<exists>api'. factory_body fr_js (fr_env serial) api = Some (r, api')" for api
  proof -
    obtain a1 where 1: "set_term_false fr_js (fr_reply ''f'') (fr_reply ''f'') api = (Inr (), a1)" using fr_set by blast
    obtain a2 where 2: "revert_poll fr_js 17 [(18, fr_reply ''f''), (47, fr_reply ''f'')] a1 = Some (Inr (Some (JBool False)), a2)"
      using fr_polls by blast
    have "button_markers_since (Some 0) 47 [(Inr serial, 48, 57)] = Some (Inr (Some (markers_in serial 48)))"
      using assms(2) by (simp add: button_markers_since_def log_tail_def SERIAL_SCAN_MAX_S_def Let_def)
    then show ?thesis using 1 2 assms(1) [of a2] fr_press_phase by (simp add: factory_body_def fr_env_def)
  qed
  show ?thesis
  proof (cases "get_settings (fr_reply ''t'') fr_api")
    case (Pair x a)
    then have x: "x = Inr \<lparr>status_code = 200, resp_text = ''t''\<rparr>" by (rule fr_split)
    obtain a' where a': "factory_body fr_js (fr_env serial) a = Some (r, a')" using b by blast
    obtain y a'' where "update_settings (fr_reply ''t'') (JObj [(''success'', JBool True), (''rs485_1'', JObj [(''term'', JBool True)])]) a' = (y, a'')" by fastforce
    moreover from this have "y = Inr \<lparr>status_code = 200, resp_text = ''t''\<rparr>" by (rule fr_split)
    ultimately show ?thesis using Pair x a' by (simp add: test_factory_reset_long_press_def fr_env_def fr_js_def)
  qed
qed

lemma fr_held_parse:
  "parse_log_timestamps fr_held_log = (Some 2000, Some 48000)" "py_strip fr_held_log \<noteq> []"
  "py_splitlines fr_held_log = [''I (2000) b: Button press event, counter: 1'', ''I (48000) s: GET'']"
  "log_ts ''I (2000) b: Button press event, counter: 1'' = Some 2000" "log_ts ''I (48000) s: GET'' = Some 48000"
  by code_simp+

lemma fr_held_markers:
  "py_in MARK_PRESS fr_held_log" "\<not> py_in MARK_LONG_PRESS fr_held_log" "\<not> py_in MARK_RESET_TRIGGERED fr_held_log"
  "\<not> py_in MARK_RESET_STARTED fr_held_log" "\<not> py_in MARK_RESET_COMPLETED fr_held_log" "\<not> py_in MARK_TERM_KEY_WRITTEN fr_held_log"
  by code_simp+

lemma fr_held_run: "\<exists>api'. test_factory_reset_long_press fr_js (fr_env fr_held_log) fr_api = Some (Accused (LongPressMissed 11000), api')"
proof (rule fr_test)
  have "guest_held_ms_after_press (markers_in fr_held_log 48) 13 = Some 11000"
    by (simp add: guest_held_ms_after_press_def fr_held_parse)
  moreover have "reset_triggered (markers_in fr_held_log 48) = False" "reset_started (markers_in fr_held_log 48) = False"
    using fr_held_markers by (simp_all add: markers_in_def fr_held_parse)
  ultimately show "\<exists>api'. classify fr_js (markers_in fr_held_log 48) 13 (fr_reply ''f'') api = (Accused (LongPressMissed 11000), api')" for api
    using fr_held_markers
    by (simp add: classify_def VERDICT_THRESHOLD_MS_def FW_LONG_PRESS_THRESHOLD_S_def LONG_PRESS_VERDICT_MARGIN_S_def)
qed (rule fr_held_parse)

lemma fr_faithful: "faithful_log (\<lambda>t. 1000 * t) (fr_env fr_held_log)"
proof -
  have "stamped_by (\<lambda>t. 1000 * t) 48 ''I (2000) b: Button press event, counter: 1''"
    unfolding stamped_by_def using fr_held_parse(4) by (auto intro!: exI [of _ 2])
  moreover have "stamped_by (\<lambda>t. 1000 * t) 48 ''I (48000) s: GET''"
    unfolding stamped_by_def using fr_held_parse(5) by (auto intro!: exI [of _ 48])
  ultimately show ?thesis
    by (auto simp: faithful_log_def fr_env_def serial_log_offset_def log_tail_def fr_held_parse(3))
qed

theorem long_press_accusation_sound_witness:
  "(\<exists>api'. test_factory_reset_long_press fr_js (fr_env fr_held_log) fr_api = Some (Accused (LongPressMissed 11000), api')) \<and>
   (\<exists>line ts seen. line \<in> set (py_splitlines fr_held_log) \<and> py_in MARK_PRESS line \<and> log_ts line = Some ts \<and> of_int ts \<le> 1000 * seen \<and>
     FW_LONG_PRESS_THRESHOLD_S * 1000 < 1000 * 13 - 1000 * (seen :: time))"
proof -
  have g: "guest_clock (\<lambda>t. 1000 * t)" by (simp add: guest_clock_def)
  obtain api' where run: "test_factory_reset_long_press fr_js (fr_env fr_held_log) fr_api = Some (Accused (LongPressMissed 11000), api')"
    using fr_held_run by blast
  from long_press_accusation_sound [OF run g fr_faithful] run show ?thesis
    by (auto simp: fr_env_def serial_log_offset_def log_tail_def)
qed

definition fr_done_log :: string where
  "fr_done_log = ''I (48000) m: Factory reset completed! Settings will revert to defaults.'' @ [CHR 0x0A]"


end
