(* ===== verification/Auth_Sessions.thy ===== *)
theory Auth_Sessions
  imports Timed_World Serial_Log
begin

text \<open>
  The session tests of \<open>api_tests/33_test_auth_settings.py\<close> on the world of \<^theory_text>\<open>Timed_World\<close>: waiting for a
  stable device, the reboot sent with a given session, re-arming the fixture, and the tests that fill
  the device's ring of sessions, reboot it and check which sessions survived. The serial log is a
  function of the clock, like the device a parameter.
\<close>

section \<open>Plain sessions\<close>

definition MAX_SESSIONS :: nat where "MAX_SESSIONS = 10"

definition auth_request :: "string \<Rightarrow> request" where
  "auth_request b = \<lparr>meth = ''POST'', url = b @ ''/auth'',
     req_json = Some (JObj [(''login'', JStr DEFAULT_LOGIN), (''pass'', JStr DEFAULT_PASSWORD)]), req_timeout = 20\<rparr>"

definition session_request_of :: "string \<Rightarrow> request" where
  "session_request_of b = \<lparr>meth = ''GET'', url = b @ ''/session'', req_json = None, req_timeout = 10\<rparr>"

definition logout_request :: "string \<Rightarrow> request" where
  "logout_request b = \<lparr>meth = ''POST'', url = b @ ''/logout'', req_json = None, req_timeout = 10\<rparr>"

definition reboot_request :: "string \<Rightarrow> request" where
  "reboot_request b = \<lparr>meth = ''POST'', url = b @ ''/cmd'', req_json = Some (JObj [(''cmd'', JStr ''reboot'')]), req_timeout = 30\<rparr>"

definition sid_jar :: "string \<Rightarrow> jar" where "sid_jar sid = [(''session_id'', sid)]"

definition assert_that :: "bool \<Rightarrow> unit step" where
  "assert_that b = wret (if b then Inr () else Inl AssertionError)"

section \<open>Waiting for a stable device\<close>

definition up_request :: "string \<Rightarrow> request" where
  "up_request b = \<lparr>meth = ''GET'', url = b @ ''/favicon.webp'', req_json = None, req_timeout = 5\<rparr>"

definition answers_up :: "response \<Rightarrow> bool" where
  "answers_up resp \<longleftrightarrow> status_code resp \<in> {200, 401, 403}"

definition up_probe :: "net \<Rightarrow> string \<Rightarrow> jar \<Rightarrow> (bool \<times> jar) step" where
  "up_probe net b j =
     wbind (wsleep 1) (\<lambda>_.
     wcatch (\<lambda>e. e = RequestException)
       (wbind (session_send net j (up_request b)) (\<lambda>(resp, j). wret (Inr (answers_up resp, j))))
       (\<lambda>_. wret (Inr (False, j))))"

text \<open>The state of the loop: the jar of its session and the counter \<open>consecutive\<close>.\<close>

definition up_pass :: "net \<Rightarrow> string \<Rightarrow> int \<Rightarrow> jar \<times> int \<Rightarrow> ((jar \<times> int) + unit) step" where
  "up_pass net b stable_polls s =
     wbind (up_probe net b (fst s)) (\<lambda>(up, j).
       wret (Inr
         (if up then (if stable_polls \<le> snd s + 1 then Inr () else Inl (j, snd s + 1))
          else Inl (j, 0))))"

definition wait_device_up :: "net \<Rightarrow> string \<Rightarrow> rat \<Rightarrow> bool step" where
  "wait_device_up net b tmo =
     wbind (\<lambda>w. state_loop (clock w + tmo) (up_pass net b 3) ([], 0) w) (\<lambda>r. wret (Inr (r \<noteq> None)))"

section \<open>Rebooting and re-arming\<close>

text \<open>The warnings of the two helpers are not modelled: what they swallow is.\<close>

definition reboot_with_session :: "net \<Rightarrow> string \<Rightarrow> string \<Rightarrow> unit step" where
  "reboot_with_session net b sid =
     wcatch (\<lambda>e. e = RequestException)
       (wbind (session_send net (sid_jar sid) (reboot_request b)) (\<lambda>(resp, j). assert_that (status_code resp = 200)))
       (\<lambda>_. wret (Inr ()))"

definition rearm_api_session :: "net \<Rightarrow> unit step" where
  "rearm_api_session net = wcatch is_Exception (fixture_wait_for_ready net 300 1) (\<lambda>_. wret (Inr ()))"

section \<open>The serial scan in the world\<close>

type_synonym serial = "time \<Rightarrow> string res"

partial_function (option) scan_loop :: "serial \<Rightarrow> int \<Rightarrow> time \<Rightarrow> bool option step" where
  "scan_loop serial offset d w =
     (case log_tail offset (serial (clock w)) of
        Inl e \<Rightarrow> Some (Inl e, w)
      | Inr tail \<Rightarrow>
          (case auth_decision tail of
             Some b \<Rightarrow> Some (Inr (Some b), w)
           | None \<Rightarrow>
               if d \<le> clock w then Some (Inr None, w)
               else scan_loop serial offset d (w\<lparr>clock := clock w + 1/2, hist := hist w @ [Slept (1/2)]\<rparr>)))"

section \<open>Filling the ring\<close>

definition login_once :: "(response \<Rightarrow> json res) \<Rightarrow> net \<Rightarrow> string \<Rightarrow> string step" where
  "login_once js net b =
     wbind (wsleep (3/10)) (\<lambda>_.
     wbind (session_send net [] (auth_request b)) (\<lambda>(resp, j).
     wbind (assert_that (status_code resp = 200)) (\<lambda>_.
     wbind (wret (rbind (js resp) (\<lambda>doc. jget doc ''auth'' JNull))) (\<lambda>v.
     wbind (assert_that (v = JBool True)) (\<lambda>_.
     wret (case map_of j ''session_id'' of Some sid \<Rightarrow> Inr sid | None \<Rightarrow> Inl AssertionError))))))"

text \<open>The list of the sessions created so far outlives a login that raises: the cleanup walks it.\<close>

fun fill_ring :: "(response \<Rightarrow> json res) \<Rightarrow> net \<Rightarrow> string \<Rightarrow> nat \<Rightarrow> string list \<Rightarrow> (unit res \<times> string list) step" where
  "fill_ring js net b 0 sids = wret (Inr (Inr (), sids))"
| "fill_ring js net b (Suc n) sids = (\<lambda>w.
     (case login_once js net b w of
        None \<Rightarrow> None
      | Some (Inl e, w) \<Rightarrow> Some (Inr (Inl e, sids), w)
      | Some (Inr sid, w) \<Rightarrow> fill_ring js net b n (sids @ [sid]) w))"

definition session_status :: "net \<Rightarrow> string \<Rightarrow> string \<Rightarrow> int step" where
  "session_status net b sid = wbind (session_send net (sid_jar sid) (session_request_of b)) (\<lambda>(resp, j). wret (Inr (status_code resp)))"

fun check_sessions :: "net \<Rightarrow> string \<Rightarrow> string list \<Rightarrow> unit step" where
  "check_sessions net b [] = wret (Inr ())"
| "check_sessions net b (sid # sids) =
     wbind (session_status net b sid) (\<lambda>st. wbind (assert_that (st = 200)) (\<lambda>_. check_sessions net b sids))"

fun logout_all :: "net \<Rightarrow> string \<Rightarrow> string list \<Rightarrow> unit step" where
  "logout_all net b [] = wret (Inr ())"
| "logout_all net b (sid # sids) =
     wbind (wsleep (15/100)) (\<lambda>_.
     wbind (wcatch (\<lambda>e. e = RequestException)
              (wbind (session_send net (sid_jar sid) (logout_request b)) (\<lambda>_. wret (Inr ()))) (\<lambda>_. wret (Inr ()))) (\<lambda>_.
     logout_all net b sids))"

section \<open>The tests\<close>

text \<open>From the baseline of the log to the device answering again, in AU-05 and AU-06.\<close>

definition reboot_and_wait :: "net \<Rightarrow> serial \<Rightarrow> (time \<Rightarrow> int res) \<Rightarrow> string \<Rightarrow> string \<Rightarrow> unit step" where
  "reboot_and_wait net serial stat b sid w =
     (case serial_log_offset (stat (clock w)) of
        Inl e \<Rightarrow> Some (Inl e, w)
      | Inr None \<Rightarrow> Some (Inl AssertionError, w)
      | Inr (Some offset) \<Rightarrow>
          wbind (reboot_with_session net b sid) (\<lambda>_.
          wbind (\<lambda>w. scan_loop serial offset (clock w + 600) w) (\<lambda>restored.
          wbind (wret (case restored of None \<Rightarrow> Inl AssertionError | Some False \<Rightarrow> Inl SkipException | Some True \<Rightarrow> Inr ())) (\<lambda>_.
          wbind (wait_device_up net b 1800) assert_that))) w)"

text \<open>\<open>try: body finally: log out <these sessions>, re-arm\<close>.\<close>

definition with_cleanup :: "net \<Rightarrow> string \<Rightarrow> (string list \<Rightarrow> string list) \<Rightarrow> unit step \<Rightarrow> (unit res \<times> string list) step \<Rightarrow> (string list \<Rightarrow> unit step) \<Rightarrow> unit step" where
  "with_cleanup net b these rearm fill rest w =
     (case fill w of
        None \<Rightarrow> None
      | Some (Inl e, w) \<Rightarrow> Some (Inl e, w)
      | Some (Inr (r, sids), w) \<Rightarrow>
          wfinally (case r of Inl e \<Rightarrow> wret (Inl e) | Inr _ \<Rightarrow> rest sids)
            (\<lambda>_. wbind (logout_all net b (these sids)) (\<lambda>_. rearm)) w)"

definition au05_rest :: "net \<Rightarrow> serial \<Rightarrow> (time \<Rightarrow> int res) \<Rightarrow> string \<Rightarrow> string list \<Rightarrow> unit step" where
  "au05_rest net serial stat b sids =
     wbind (reboot_and_wait net serial stat b (last sids)) (\<lambda>_. check_sessions net b sids)"

definition test_au05 :: "(response \<Rightarrow> json res) \<Rightarrow> net \<Rightarrow> serial \<Rightarrow> (time \<Rightarrow> int res) \<Rightarrow> string \<Rightarrow> unit step" where
  "test_au05 js net serial stat b =
     with_cleanup net b id (rearm_api_session net) (fill_ring js net b MAX_SESSIONS []) (au05_rest net serial stat b)"

definition au06_rest :: "net \<Rightarrow> serial \<Rightarrow> (time \<Rightarrow> int res) \<Rightarrow> string \<Rightarrow> string list \<Rightarrow> unit step" where
  "au06_rest net serial stat b sids =
     wbind (wsleep 1) (\<lambda>_.
     wbind (session_status net b (sids ! 0)) (\<lambda>st.
     wbind (assert_that (st = 401)) (\<lambda>_.
     wbind (reboot_and_wait net serial stat b (last sids)) (\<lambda>_.
     check_sessions net b (drop 1 sids)))))"

definition test_au06 :: "(response \<Rightarrow> json res) \<Rightarrow> net \<Rightarrow> serial \<Rightarrow> (time \<Rightarrow> int res) \<Rightarrow> string \<Rightarrow> unit step" where
  "test_au06 js net serial stat b =
     with_cleanup net b (drop 1) (rearm_api_session net) (fill_ring js net b (MAX_SESSIONS + 1) []) (au06_rest net serial stat b)"

text \<open>AU-02 re-authenticates with a bare \<open>auth()\<close> and asserts on it.\<close>

definition reauth :: "(response \<Rightarrow> json res) \<Rightarrow> net \<Rightarrow> unit step" where
  "reauth js net =
     wbind (wsleep (1/2)) (\<lambda>_.
     wbind (fixture_call net (\<lambda>out. auth out DEFAULT_LOGIN DEFAULT_PASSWORD)) (\<lambda>resp.
     wbind (assert_that (status_code resp = 200)) (\<lambda>_.
     wbind (wret (rbind (js resp) (\<lambda>doc. jget doc ''auth'' JNull))) (\<lambda>v. assert_that (v = JBool True)))))"

definition test_au02 :: "(response \<Rightarrow> json res) \<Rightarrow> net \<Rightarrow> string \<Rightarrow> unit step" where
  "test_au02 js net b =
     with_cleanup net b (drop 1) (reauth js net) (fill_ring js net b (MAX_SESSIONS + 1) [])
       (\<lambda>sids.
         wbind (wsleep 1) (\<lambda>_.
         wbind (session_status net b (sids ! 0)) (\<lambda>st.
         wbind (assert_that (st = 401)) (\<lambda>_.
         wbind (session_status net b (sids ! 10)) (\<lambda>st. assert_that (st = 200))))))"

section \<open>A stable device\<close>

text \<open>Probes, one per jar, each after its sleep and each answered.\<close>

fun probes :: "string \<Rightarrow> jar list \<Rightarrow> event list" where
  "probes b [] = []"
| "probes b (j # js) = Slept 1 # SentAs j (up_request b) # probes b js"

fun all_answered :: "net \<Rightarrow> string \<Rightarrow> event list \<Rightarrow> jar list \<Rightarrow> bool" where
  "all_answered net b h [] \<longleftrightarrow> True"
| "all_answered net b h (j # js) \<longleftrightarrow>
     (\<exists>resp. fst (snd (net (h @ [Slept 1]) j (up_request b))) = Inr resp \<and> answers_up resp) \<and>
     all_answered net b (h @ [Slept 1, SentAs j (up_request b)]) js"

definition streak :: "net \<Rightarrow> string \<Rightarrow> nat \<Rightarrow> event list \<Rightarrow> bool" where
  "streak net b k h \<longleftrightarrow> (\<exists>h0 js. h = h0 @ probes b js \<and> length js = k \<and> all_answered net b h0 js)"

lemma probes_snoc: "probes b (js @ [j]) = probes b js @ [Slept 1, SentAs j (up_request b)]"
  by (induction js) auto

lemma all_answered_snoc:
  "all_answered net b h (js @ [j]) \<longleftrightarrow> all_answered net b h js \<and>
     (\<exists>resp. fst (snd (net (h @ probes b js @ [Slept 1]) j (up_request b))) = Inr resp \<and> answers_up resp)"
  by (induction js arbitrary: h) auto

lemma streak_0: "streak net b 0 h"
  unfolding streak_def by (intro exI [of _ h] exI [of _ "[]"]) simp

lemma streak_Suc:
  assumes "streak net b k h" "fst (snd (net (h @ [Slept 1]) j (up_request b))) = Inr resp" "answers_up resp"
  shows "streak net b (Suc k) (h @ [Slept 1, SentAs j (up_request b)])"
proof -
  from assms(1) obtain h0 js where h: "h = h0 @ probes b js" "length js = k" "all_answered net b h0 js" by (auto simp: streak_def)
  have "h @ [Slept 1, SentAs j (up_request b)] = h0 @ probes b (js @ [j])" "length (js @ [j]) = Suc k" "all_answered net b h0 (js @ [j])"
    using h assms(2,3) by (simp_all add: probes_snoc all_answered_snoc)
  then show ?thesis unfolding streak_def by blast
qed

lemma up_probe_True:
  assumes "up_probe net b j w = Some (Inr (True, j'), w')" "streak net b k (hist w)"
  shows "streak net b (Suc k) (hist w')"
proof -
  from assms(1) obtain resp where "fst (snd (net (hist w @ [Slept 1]) j (up_request b))) = Inr resp" "answers_up resp"
    "hist w' = hist w @ [Slept 1, SentAs j (up_request b)]"
    by (auto simp: up_probe_def step_eqs wsleep_def session_send_def map_sum_def split: prod.splits sum.splits)
  then show ?thesis using streak_Suc [OF assms(2)] by simp
qed

lemma up_loop_streak:
  assumes "state_loop d (up_pass net b n) (j, c) w = Some (r, w')" "0 \<le> c" "streak net b (nat c) (hist w)" "r = Inr (Some ())"
  shows "\<exists>k. n \<le> int k \<and> streak net b k (hist w')"
  using assms
proof (induction "(j, c)" w r w' arbitrary: j c rule: state_loop_induct)
  case (stopped w r w')
  then have "up_pass net b n (j, c) w = Some (Inr (Inr ()), w')" by (auto split: sum.splits)
  then obtain j' where "up_probe net b j w = Some (Inr (True, j'), w')" "n \<le> c + 1"
    by (auto simp: up_pass_def wbind_eq_Some split: if_splits)
  from up_probe_True [OF this(1) stopped(5)] this(2) stopped(4) show ?case by (intro exI [of _ "Suc (nat c)"]) auto
next
  case (again w s1 w1 r w')
  from again(2) obtain up j' where p: "up_probe net b j w = Some (Inr (up, j'), w1)" "s1 = (if up then (j', c + 1) else (j', 0))"
    by (auto simp: up_pass_def wbind_eq_Some split: if_splits)
  show ?case
  proof (cases up)
    case True
    then have "streak net b (nat (c + 1)) (hist w1)" using up_probe_True [of net b j w j' w1 "nat c"] p(1) again.prems by (simp add: nat_add_distrib)
    then show ?thesis using again p(2) True by auto
  next
    case False
    then show ?thesis using again p(2) streak_0 by auto
  qed
qed simp

lemma takes_up_pass:
  assumes "keeps_timeouts net"
  shows "takes 6 (up_pass net b n s)"
  unfolding up_pass_def up_probe_def
proof (rule takes_mono)
  show "takes ((1 + ((req_timeout (up_request b) + 0) + 0)) + 0) (wbind (wbind (wsleep 1) (\<lambda>_.
     wcatch (\<lambda>e. e = RequestException)
       (wbind (session_send net (fst s) (up_request b)) (\<lambda>(resp, j). wret (Inr (answers_up resp, j))))
       (\<lambda>_. wret (Inr (False, fst s))))) (\<lambda>(up, j). wret (Inr
         (if up then (if n \<le> snd s + 1 then Inr () else Inl (j, snd s + 1)) else Inl (j, 0)))))"
    using assms by (intro takes_intros) (simp_all add: up_request_def)
qed (simp add: up_request_def)

lemma up_pass_paces: "keeps_timeouts net \<Longrightarrow> up_pass net b n s w = Some (r, w') \<Longrightarrow> clock w + 1 \<le> clock w'"
  by (auto simp: up_pass_def up_probe_def step_eqs wsleep_def session_send_def split: prod.splits dest!: keeps_timeoutsD)

section \<open>Scanning the log\<close>

lemma scan_loop_returns:
  "\<exists>r w' es. scan_loop serial offset d w = Some (r, w') \<and> clock w \<le> clock w' \<and> clock w' \<le> max (clock w) (d + 1/2) \<and>
     (\<forall>b. r = Inr (Some b) \<longrightarrow> (\<exists>tail. log_tail offset (serial (clock w')) = Inr tail \<and> auth_decision tail = Some b))"
proof (induction "nat \<lceil>(d - clock w) * 2\<rceil>" arbitrary: w rule: less_induct)
  case less
  show ?case
  proof (cases "\<exists>tail. log_tail offset (serial (clock w)) = Inr tail \<and> auth_decision tail = None \<and> clock w < d")
    case False
    then show ?thesis by (auto simp: scan_loop.simps [of serial offset d w] split: sum.splits option.splits)
  next
    case True
    let ?w = "w\<lparr>clock := clock w + 1/2, hist := hist w @ [Slept (1/2)]\<rparr>"
    have s: "scan_loop serial offset d w = scan_loop serial offset d ?w" using True by (auto simp: scan_loop.simps [of serial offset d w])
    have "nat \<lceil>(d - clock ?w) * 2\<rceil> < nat \<lceil>(d - clock w) * 2\<rceil>" using True by (simp add: algebra_simps) linarith
    from less [OF this] s True show ?thesis by fastforce
  qed
qed

lemma takes_scan: "0 \<le> tmo \<Longrightarrow> takes (tmo + 1/2) (\<lambda>w. scan_loop serial offset (clock w + tmo) w)"
  unfolding takes_def using scan_loop_returns [of serial offset] by fastforce

lemma scan_loop_answer:
  assumes "scan_loop serial offset d w = Some (Inr (Some b), w')"
  shows "clock w \<le> clock w'" "\<exists>tail. log_tail offset (serial (clock w')) = Inr tail \<and> last_marker b tail"
  using scan_loop_returns [of serial offset d w] assms by (auto dest: auth_decision_Some)

section \<open>What a passing ring test has seen\<close>

text \<open>The device granted this session to a login.\<close>

definition granted :: "(response \<Rightarrow> json res) \<Rightarrow> net \<Rightarrow> string \<Rightarrow> string \<Rightarrow> bool" where
  "granted js net b sid \<longleftrightarrow> (\<exists>h dur resp j. net h [] (auth_request b) = (dur, Inr resp, j) \<and> status_code resp = 200 \<and>
     rbind (js resp) (\<lambda>doc. jget doc ''auth'' JNull) = Inr (JBool True) \<and> map_of j ''session_id'' = Some sid)"

text \<open>How the device answers \<open>/session\<close> for a session, after the history \<open>h\<close>.\<close>

definition answers_session :: "net \<Rightarrow> string \<Rightarrow> event list \<Rightarrow> string \<Rightarrow> int \<Rightarrow> bool" where
  "answers_session net b h sid st \<longleftrightarrow>
     (\<exists>resp. fst (snd (net h (sid_jar sid) (session_request_of b))) = Inr resp \<and> status_code resp = st)"

fun all_alive :: "net \<Rightarrow> string \<Rightarrow> event list \<Rightarrow> string list \<Rightarrow> bool" where
  "all_alive net b h [] \<longleftrightarrow> True"
| "all_alive net b h (sid # sids) \<longleftrightarrow>
     answers_session net b h sid 200 \<and> all_alive net b (h @ [SentAs (sid_jar sid) (session_request_of b)]) sids"

text \<open>Between the time \<open>t0\<close> and the history \<open>h\<close> the device booted and restored its sessions, and came back stable.\<close>

definition rebooted_clean :: "net \<Rightarrow> serial \<Rightarrow> (time \<Rightarrow> int res) \<Rightarrow> string \<Rightarrow> time \<Rightarrow> event list \<Rightarrow> bool" where
  "rebooted_clean net serial stat b t0 h \<longleftrightarrow> (\<exists>offset t tail k. stat t0 = Inr offset \<and> t0 \<le> t \<and>
     log_tail offset (serial t) = Inr tail \<and> last_marker True tail \<and> 3 \<le> k \<and> streak net b k h)"

lemma assert_that_eq [simp]: "assert_that p w = Some (Inr u, w') \<longleftrightarrow> p \<and> w' = w"
  by (simp add: assert_that_def)

lemma takes_assert [takes_intros]: "takes 0 (assert_that p)"
  unfolding assert_that_def by (rule takes_wret)

lemma session_status_eq:
  assumes "session_status net b sid w = Some (Inr st, w')"
  shows "answers_session net b (hist w) sid st" "hist w' = hist w @ [SentAs (sid_jar sid) (session_request_of b)]"
  using assms by (auto simp: session_status_def wbind_eq_Some session_send_def answers_session_def map_sum_def split: prod.splits sum.splits)

lemma check_sessions_alive: "check_sessions net b sids w = Some (Inr (), w') \<Longrightarrow> all_alive net b (hist w) sids"
proof (induction sids arbitrary: w)
  case (Cons sid sids)
  then obtain w1 where 1: "session_status net b sid w = Some (Inr 200, w1)" "check_sessions net b sids w1 = Some (Inr (), w')"
    by (auto simp: wbind_eq_Some)
  from session_status_eq [OF 1(1)] Cons.IH [OF 1(2)] show ?case by simp
qed simp

lemma login_once_granted: "login_once js net b w = Some (Inr sid, w') \<Longrightarrow> granted js net b sid"
  by (auto simp: login_once_def wbind_eq_Some wsleep_def session_send_def granted_def map_sum_def split: prod.splits sum.splits option.splits)
     blast

lemma fill_ring_granted:
  "fill_ring js net b n sids w = Some (Inr (Inr (), sids'), w') \<Longrightarrow> list_all (granted js net b) sids \<Longrightarrow>
     length sids' = length sids + n \<and> list_all (granted js net b) sids'"
proof (induction n arbitrary: sids w)
  case (Suc n)
  from Suc.prems(1) obtain sid w1 where 1: "login_once js net b w = Some (Inr sid, w1)" "fill_ring js net b n (sids @ [sid]) w1 = Some (Inr (Inr (), sids'), w')"
    by (auto split: option.splits sum.splits prod.splits)
  from Suc.IH [OF 1(2)] login_once_granted [OF 1(1)] Suc.prems(2) show ?case by simp
qed simp

lemma wait_device_up_streak:
  assumes "wait_device_up net b tmo w = Some (Inr True, w')"
  shows "\<exists>k \<ge> 3. streak net b k (hist w')"
proof -
  from assms have "state_loop (clock w + tmo) (up_pass net b 3) ([], 0) w = Some (Inr (Some ()), w')"
    by (auto simp: wait_device_up_def wbind_eq_Some)
  from up_loop_streak [OF this] streak_0 [of net b "hist w"] obtain k where "3 \<le> int k" "streak net b k (hist w')" by auto
  then show ?thesis by (intro exI [of _ k]) auto
qed

lemma takes_reboot [takes_intros]:
  assumes "keeps_timeouts net"
  shows "takes 30 (reboot_with_session net b sid)"
proof -
  have "takes ((req_timeout (reboot_request b) + 0) + 0) (reboot_with_session net b sid)"
    unfolding reboot_with_session_def using assms by (intro takes_intros) (simp_all add: reboot_request_def)
  then show ?thesis by (simp add: reboot_request_def)
qed

lemma reboot_and_wait_clean:
  assumes "keeps_timeouts net" "reboot_and_wait net serial stat b sid w = Some (Inr (), w')"
  shows "rebooted_clean net serial stat b (clock w) (hist w')"
proof -
  from assms(2) obtain offset w1 w2 where 1: "stat (clock w) = Inr offset" "reboot_with_session net b sid w = Some (Inr (), w1)"
    "scan_loop serial offset (clock w1 + 600) w1 = Some (Inr (Some True), w2)" "wait_device_up net b 1800 w2 = Some (Inr True, w')"
    by (auto simp: reboot_and_wait_def serial_log_offset_def wbind_eq_Some split: sum.splits option.splits if_splits bool.splits)
  have "clock w \<le> clock w2" using takes_grows [OF 1(2) takes_reboot [OF assms(1)]] scan_loop_answer(1) [OF 1(3)] by simp
  then show ?thesis
    using 1(1) scan_loop_answer(2) [OF 1(3)] wait_device_up_streak [OF 1(4)] unfolding rebooted_clean_def by blast
qed

lemma with_cleanup_passes:
  assumes "with_cleanup net b these rearm fill rest w = Some (Inr (), w')"
  obtains sids w1 w2 where "fill w = Some (Inr (Inr (), sids), w1)" "rest sids w1 = Some (Inr (), w2)"
  using assms by (auto simp: with_cleanup_def wfinally_eq_Some split: option.splits sum.splits prod.splits)


text \<open>AU-06 passes on the same evidence for the sessions after the first, which the device had refused before the reboot.\<close>

theorem ring_wrap_pass_evidence:
  assumes "keeps_timeouts net" "test_au06 js net serial stat b w = Some (Inr (), w')"
  shows "\<exists>sid sids t0 h0 h. length sids = MAX_SESSIONS \<and> list_all (granted js net b) (sid # sids) \<and>
     answers_session net b h0 sid 401 \<and> rebooted_clean net serial stat b t0 h \<and> all_alive net b h sids"
proof -
  from assms(2) obtain sids w1 w2 where 1: "fill_ring js net b (MAX_SESSIONS + 1) [] w = Some (Inr (Inr (), sids), w1)"
    "au06_rest net serial stat b sids w1 = Some (Inr (), w2)" unfolding test_au06_def by (rule with_cleanup_passes)
  from 1(2) obtain w3 w4 w5 where 2: "session_status net b (sids ! 0) w3 = Some (Inr 401, w4)"
    "reboot_and_wait net serial stat b (last sids) w4 = Some (Inr (), w5)" "check_sessions net b (drop 1 sids) w5 = Some (Inr (), w2)"
    by (auto simp: au06_rest_def wbind_eq_Some)
  have g: "length sids = MAX_SESSIONS + 1" "list_all (granted js net b) sids" using fill_ring_granted [OF 1(1)] by simp_all
  then obtain sid rest where "sids = sid # rest" by (cases sids) auto
  then show ?thesis
    using g session_status_eq(1) [OF 2(1)] reboot_and_wait_clean [OF assms(1) 2(2)] check_sessions_alive [OF 2(3)]
    by (intro exI [of _ sid] exI [of _ rest] exI [of _ "clock w4"] exI [of _ "hist w3"] exI [of _ "hist w5"]) simp
qed

section \<open>The cleanup\<close>

text \<open>What the cleanup leaves in the history: a logout for each session.\<close>

definition logouts :: "string \<Rightarrow> string list \<Rightarrow> event list" where
  "logouts b sids = concat (map (\<lambda>sid. [Slept (15/100), SentAs (sid_jar sid) (logout_request b)]) sids)"

lemma logout_all_runs:
  assumes "transport_only net" "keeps_timeouts net"
  shows "\<exists>w'. logout_all net b sids w = Some (Inr (), w') \<and> hist w' = hist w @ logouts b sids \<and>
     clock w \<le> clock w' \<and> clock w' \<le> clock w + of_nat (length sids) * (1015/100)"
proof (induction sids arbitrary: w)
  case (Cons sid sids)
  let ?rq = "logout_request b" and ?h = "hist w @ [Slept (15/100)]"
  obtain d r j where n: "net ?h (sid_jar sid) ?rq = (d, r, j)" by (metis prod_cases3)
  then have d: "0 \<le> d" "d \<le> 10" using keeps_timeoutsD [OF assms(2) n] by (simp_all add: logout_request_def)
  have e: "e = RequestException" if "r = Inl e" for e using assms(1) n that unfolding transport_only_def by (metis fst_conv snd_conv)
  let ?w = "w\<lparr>clock := clock w + 15/100 + d, hist := ?h @ [SentAs (sid_jar sid) ?rq]\<rparr>"
  have "logout_all net b (sid # sids) w = logout_all net b sids ?w"
    using n e by (cases r) (auto simp: step_defs session_send_def)
  moreover obtain w' where 1: "logout_all net b sids ?w = Some (Inr (), w')" "hist w' = hist ?w @ logouts b sids" "clock ?w \<le> clock w'"
    "clock w' \<le> clock ?w + of_nat (length sids) * (1015/100)" using Cons.IH [of ?w] by blast
  have "clock w' \<le> clock w + of_nat (length (sid # sids)) * (1015/100)"
    using 1(4) d unfolding list.size(4) of_nat_add of_nat_1 distrib_right by simp
  ultimately show ?case using 1 d by (intro exI [of _ w']) (simp add: logouts_def)
qed (simp add: wret_def logouts_def)

lemma rearm_runs:
  assumes "transport_only net" "keeps_timeouts net"
  shows "\<exists>w' es. rearm_api_session net w = Some (Inr (), w') \<and> hist w' = hist w @ es \<and> clock w \<le> clock w' \<and> clock w' \<le> clock w + 323"
proof -
  have t: "takes ((300 + (1 + 11 + 11)) + 0) (rearm_api_session net)"
    unfolding rearm_api_session_def by (intro takes_wcatch takes_wait_for_ready takes_wret assms(2)) simp_all
  have f: "fails_in (\<lambda>_. False) (rearm_api_session net)"
    unfolding rearm_api_session_def by (rule fails_wcatch [OF fails_fixture_wait [OF assms(1)] fails_wret]) simp
  have m: "emits (\<lambda>_. True) (rearm_api_session net)" unfolding rearm_api_session_def by (intro emits_intros) simp_all
  obtain r w' where r: "rearm_api_session net w = Some (r, w')" "clock w \<le> clock w'" "clock w' \<le> clock w + ((300 + (1 + 11 + 11)) + 0)"
    by (rule takes_E [OF t])
  from r(1) f obtain u where "r = Inr u" by (cases r) (auto simp: fails_in_def)
  with r emitsD [OF m r(1)] show ?thesis by auto
qed

lemma with_cleanup_runs:
  assumes net: "transport_only net" "keeps_timeouts net"
    and fill: "fill w = Some (Inr (fr, sids), w1)"
    and rest: "(case fr of Inl e \<Rightarrow> wret (Inl e) | Inr _ \<Rightarrow> rest sids) w1 = Some (r, w2)"
  shows "\<exists>w' es. with_cleanup net b these (rearm_api_session net) fill rest w = Some (r, w') \<and>
     hist w' = hist w2 @ logouts b (these sids) @ es \<and> clock w' \<le> clock w2 + of_nat (length (these sids)) * (1015/100) + 323"
proof -
  obtain w3 where 3: "logout_all net b (these sids) w2 = Some (Inr (), w3)" "hist w3 = hist w2 @ logouts b (these sids)"
    "clock w3 \<le> clock w2 + of_nat (length (these sids)) * (1015/100)" using logout_all_runs [OF net] by blast
  obtain w4 es where 4: "rearm_api_session net w3 = Some (Inr (), w4)" "hist w4 = hist w3 @ es" "clock w4 \<le> clock w3 + 323"
    using rearm_runs [OF net] by blast
  have "with_cleanup net b these (rearm_api_session net) fill rest w = Some (r, w4)"
    using fill rest 3(1) 4(1) by (simp add: with_cleanup_def wfinally_def wbind_def)
  then show ?thesis using 3 4 by auto
qed

lemma takes_login:
  assumes "keeps_timeouts net"
  shows "takes (203/10) (login_once js net b)"
proof -
  have "takes (3/10 + (req_timeout (auth_request b) + (0 + (0 + (0 + 0))))) (login_once js net b)"
    unfolding login_once_def using assms by (intro takes_intros) (simp_all add: auth_request_def)
  then show ?thesis by (simp add: auth_request_def)
qed

lemma fill_ring_runs:
  assumes "keeps_timeouts net"
  shows "\<exists>fr sids' w'. fill_ring js net b n sids w = Some (Inr (fr, sids'), w') \<and> length sids' \<le> length sids + n \<and>
     clock w \<le> clock w' \<and> clock w' \<le> clock w + of_nat n * (203/10)"
proof (induction n arbitrary: sids w)
  case (Suc n)
  obtain r w1 where 1: "login_once js net b w = Some (r, w1)" "clock w \<le> clock w1" "clock w1 \<le> clock w + 203/10"
    by (rule takes_E [OF takes_login [OF assms]])
  show ?case
  proof (cases r)
    case (Inl e)
    have "(0::rat) \<le> of_nat n * (203/10)" by simp
    then have "clock w1 \<le> clock w + of_nat (Suc n) * (203/10)" using 1(3) unfolding of_nat_Suc distrib_right by simp
    then show ?thesis using 1 Inl by (intro exI [of _ "Inl e"] exI [of _ sids] exI [of _ w1]) simp
  next
    case (Inr sid)
    obtain fr sids' w' where 2: "fill_ring js net b n (sids @ [sid]) w1 = Some (Inr (fr, sids'), w')" "length sids' \<le> length (sids @ [sid]) + n"
      "clock w1 \<le> clock w'" "clock w' \<le> clock w1 + of_nat n * (203/10)" using Suc.IH by blast
    have "clock w' \<le> clock w + of_nat (Suc n) * (203/10)" using 1(3) 2(4) unfolding of_nat_Suc distrib_right by simp
    then show ?thesis using 1 2 Inr by (intro exI [of _ fr] exI [of _ sids'] exI [of _ w']) simp
  qed
qed (simp add: wret_def)

lemma takes_wait_up:
  assumes "keeps_timeouts net" "0 \<le> tmo"
  shows "takes (tmo + 6) (wait_device_up net b tmo)"
proof -
  have "takes (tmo + 6) (\<lambda>w. state_loop (clock w + tmo) (up_pass net b 3) ([], 0) w)"
    by (rule takes_state_loop [where eps = 1]) (auto intro: takes_up_pass up_pass_paces assms)
  then have "takes ((tmo + 6) + 0) (wait_device_up net b tmo)" unfolding wait_device_up_def by (intro takes_intros)
  then show ?thesis by simp
qed

lemma takes_reboot_and_wait:
  assumes "keeps_timeouts net"
  shows "takes (24365/10) (reboot_and_wait net serial stat b sid)"
  unfolding takes_def
proof
  fix w
  have t: "takes (30 + ((600 + 1/2) + (0 + ((1800 + 6) + 0))))
     (wbind (reboot_with_session net b sid) (\<lambda>_.
      wbind (\<lambda>w. scan_loop serial offset (clock w + 600) w) (\<lambda>restored.
      wbind (wret (case restored of None \<Rightarrow> Inl AssertionError | Some False \<Rightarrow> Inl SkipException | Some True \<Rightarrow> Inr ())) (\<lambda>_.
      wbind (wait_device_up net b 1800) assert_that))))" for offset
    by (intro takes_wbind takes_wret takes_reboot takes_scan takes_wait_up takes_assert assms) simp_all
  show "\<exists>r w'. reboot_and_wait net serial stat b sid w = Some (r, w') \<and> clock w \<le> clock w' \<and> clock w' \<le> clock w + 24365/10"
    unfolding reboot_and_wait_def
  proof (cases "serial_log_offset (stat (clock w))")
    case (Inr o')
    then show "\<exists>r w'. (case serial_log_offset (stat (clock w)) of
        Inl e \<Rightarrow> Some (Inl e, w)
      | Inr None \<Rightarrow> Some (Inl AssertionError, w)
      | Inr (Some offset) \<Rightarrow>
          wbind (reboot_with_session net b sid) (\<lambda>_.
          wbind (\<lambda>w. scan_loop serial offset (clock w + 600) w) (\<lambda>restored.
          wbind (wret (case restored of None \<Rightarrow> Inl AssertionError | Some False \<Rightarrow> Inl SkipException | Some True \<Rightarrow> Inr ())) (\<lambda>_.
          wbind (wait_device_up net b 1800) assert_that))) w) = Some (r, w') \<and> clock w \<le> clock w' \<and> clock w' \<le> clock w + 24365/10"
      by (cases o') (use t [unfolded takes_def, rule_format, of _ w] in auto)
  qed auto
qed

lemma takes_check_sessions:
  assumes "keeps_timeouts net"
  shows "takes (of_nat (length sids) * 10) (check_sessions net b sids)"
proof (induction sids)
  case (Cons sid sids)
  have "takes (req_timeout (session_request_of b) + 0) (session_status net b sid)"
    unfolding session_status_def using assms by (intro takes_intros) (simp_all add: session_request_of_def)
  then have "takes 10 (session_status net b sid)" by (simp add: session_request_of_def)
  from takes_wbind [OF this takes_wbind [OF takes_assert Cons.IH]] show ?case by (simp add: algebra_simps)
qed (simp add: takes_wret)



section \<open>A device that passes\<close>

text \<open>Every request is answered at once, with 200 and a session.\<close>

definition ring_net :: net where
  "ring_net h j rq = (0, Inr \<lparr>status_code = 200, resp_text = []\<rparr>, sid_jar ''s'')"

definition ring_js :: "response \<Rightarrow> json res" where
  "ring_js resp = Inr (JObj [(''auth'', JBool True)])"

definition ring_world :: world where
  "ring_world = \<lparr>clock = 0, hist = [], fixture = new_api 0 (Some ''d'')\<rparr>"

lemma ring_net_keeps: "keeps_timeouts ring_net" "transport_only ring_net"
  by (simp_all add: keeps_timeouts_def transport_only_def ring_net_def)

lemma ring_fill: "\<exists>w'. fill_ring ring_js ring_net b n sids w = Some (Inr (Inr (), sids @ replicate n ''s''), w')"
proof (induction n arbitrary: sids w)
  case (Suc n)
  have "\<exists>w'. login_once ring_js ring_net b w = Some (Inr ''s'', w')"
    by (simp add: login_once_def step_defs session_send_def ring_net_def ring_js_def assert_that_def jget_def sid_jar_def)
  then obtain w1 where 1: "login_once ring_js ring_net b w = Some (Inr ''s'', w1)" by blast
  with Suc.IH [of "sids @ [''s'']" w1] show ?case by simp
qed (simp add: wret_def)

lemma ring_up: "0 < tmo \<Longrightarrow> 3 < tmo \<Longrightarrow> \<exists>w'. wait_device_up ring_net b tmo w = Some (Inr True, w')"
  by (simp add: wait_device_up_def state_loop.simps up_pass_def up_probe_def step_defs session_send_def ring_net_def answers_up_def)

lemma ring_check: "\<exists>w'. check_sessions ring_net b sids w = Some (Inr (), w')"
  by (induction sids arbitrary: w) (simp_all add: step_defs session_status_def session_send_def ring_net_def assert_that_def)

lemma ring_reboot: "\<exists>w'. reboot_and_wait ring_net (\<lambda>_. Inr MARK_RESTORED) (\<lambda>_. Inr 0) b sid w = Some (Inr (), w')"
proof -
  have 1: "\<exists>w1. reboot_with_session ring_net b sid w = Some (Inr (), w1)"
    by (simp add: reboot_with_session_def step_defs session_send_def ring_net_def assert_that_def)
  have d: "auth_decision MARK_RESTORED = Some True" by code_simp
  have 2: "scan_loop (\<lambda>_. Inr MARK_RESTORED) 0 t w1 = Some (Inr (Some True), w1)" for t w1
    using d by (simp add: scan_loop.simps log_tail_def)
  from 1 obtain w1 where 1: "reboot_with_session ring_net b sid w = Some (Inr (), w1)" by blast
  obtain w2 where "wait_device_up ring_net b 1800 w1 = Some (Inr True, w2)" using ring_up [of 1800 b w1] by auto
  then show ?thesis using 1 2 by (simp add: reboot_and_wait_def serial_log_offset_def wbind_def wret_def assert_that_def)
qed

lemma ring_passes: "\<exists>w'. test_au05 ring_js ring_net (\<lambda>_. Inr MARK_RESTORED) (\<lambda>_. Inr 0) b w = Some (Inr (), w')"
proof -
  let ?rest = "au05_rest ring_net (\<lambda>_. Inr MARK_RESTORED) (\<lambda>_. Inr 0) b" and ?fill = "fill_ring ring_js ring_net b MAX_SESSIONS []"
  obtain sids w1 where 1: "?fill w = Some (Inr (Inr (), sids), w1)" using ring_fill by blast
  obtain w2 where 2: "reboot_and_wait ring_net (\<lambda>_. Inr MARK_RESTORED) (\<lambda>_. Inr 0) b (last sids) w1 = Some (Inr (), w2)" using ring_reboot by blast
  obtain w3 where "check_sessions ring_net b sids w2 = Some (Inr (), w3)" using ring_check by blast
  with 2 have "(case Inr () of Inl e \<Rightarrow> wret (Inl e) | Inr _ \<Rightarrow> ?rest sids) w1 = Some (Inr (), w3)" by (simp add: au05_rest_def wbind_def)
  from with_cleanup_runs [where fill = ?fill and rest = ?rest and these = id and b = b, OF ring_net_keeps(2,1) 1 this]
  show ?thesis unfolding test_au05_def by blast
qed




end
