(* ===== verification/Spec2Isabelle.thy ===== *)
theory Spec2Isabelle
  imports Rtu_Slave Register_Csv Qemu_Ports Io_Bus Tree_Lock Packet_Injector Unity_Junit Sniffer_Poll Idf_Patch Polling_Client Self_Unit
    Echo_Bridge Reconnect_Server Client_Mode Gateway_Client Cache_Poll Web_Port Heap_Session Button_Evidence Auth_Sessions
begin

text \<open>
  Verification of the Python tooling of wb-mge, a Modbus gateway on an ESP32: the helpers and tests in
  \<open>api_tests/\<close> that drive the firmware in QEMU, the report converter \<open>scripts/unity_to_junit.py\<close> and the
  patch driver \<open>patches/apply_idf_patch.py\<close>. (All paths are relative to \<open>src/\<close>.)

  \<^bold>\<open>The program.\<close> A run takes the lock of the working tree (\<open>tree_lock.py\<close>), derives the ports of its slot
  (\<open>qemu_ports.py\<close>), starts QEMU and talks to the device on four sides: HTTP (\<open>api_client.py\<close>), Modbus TCP
  and transparent TCP (\<open>modbus_helpers.py\<close>, \<open>conftest.py\<close> and the drivers inside the tests), the emulated
  RS-485 bus as a socket (\<open>rtu_slave_helpers.py\<close>, \<open>packet_injector.py\<close>), and the virtual IO bus
  (\<open>io_bus_helpers.py\<close>). The sniffer is watched over HTTP and a WebSocket (\<open>sniffer_helpers.py\<close>); what the
  firmware did during a boot is read from its serial log. The tests turn these observations into verdicts.

  \<^bold>\<open>Modelling.\<close> A function of the source is a definition of the same name where the name is free. Integers
  are \<open>int\<close>, bytes are 8-bit words, text is a list of characters, seconds are rationals. An exception is a
  value of \<open>exn\<close> and a fallible result is a sum, so that each \<open>raise\<close>, \<open>except\<close> and \<open>finally\<close> of the source is
  a branch. What the tooling only calls (the device, sockets, the clock, \<open>requests\<close>, the WebSocket package,
  the \<open>patch\<close> command, the kernel's scheduling) is an argument: a list of outcomes consumed in order, a
  function, or, for the helpers that share a history, the network of \<^theory_text>\<open>Timed_World\<close>. Assumptions on such
  an argument (a server that answers honestly, requests that keep to their timeouts, a guest clock that does
  not lead the host's) are premises of the theorems that need them.

  \<^bold>\<open>Foundations.\<close>
  \<^item> \<^theory_text>\<open>Py_Prelude\<close>: exceptions, results, bytes, \<open>struct\<close>; \<^theory_text>\<open>Py_Text\<close>: the string methods.
  \<^item> \<^theory_text>\<open>Stream_Parser\<close>: the locale of an incremental parser and the fact that no cut of the stream into chunks
    can be observed; interpreted on the slave's parser in \<^theory_text>\<open>Rtu_Slave\<close>.
  \<^item> \<^theory_text>\<open>Deadline_Loop\<close>: the \<open>while time.monotonic() < deadline\<close> loop over given clock readings, with the locale
    of its invariants; interpreted on the loops of \<^theory_text>\<open>Io_Bus\<close> and \<^theory_text>\<open>Modbus_Tcp\<close>.
  \<^item> \<^theory_text>\<open>Timed_World\<close>: steps on a world of clock, history and shared client; sequencing, \<open>try\<close>, \<open>finally\<close>, loops to a
    deadline; rules for how long a step takes, what it adds to the history and how it may fail; and the proof
    that its readiness wait is the one of \<^theory_text>\<open>Api_Client\<close>.

  \<^bold>\<open>The bus.\<close>
  \<^item> \<^theory_text>\<open>Rtu_Codec\<close>: CRC-16 and the frame builders of \<open>packet_injector.py\<close> and \<open>rtu_slave_helpers.py\<close>. The two CRC
    routines agree, a frame with its CRC appended is accepted, and one changed within two adjacent bytes is not.
  \<^item> \<^theory_text>\<open>Rtu_Slave\<close>: the simulated slave. It answers every request once however the stream is cut, recovers
    after noise, keeps a bounded remainder; and it dies on a read of more than 127 registers.
  \<^item> \<^theory_text>\<open>Packet_Injector\<close>: the traffic generator; no history of its calls leaks a socket.

  \<^bold>\<open>TCP.\<close>
  \<^item> \<^theory_text>\<open>Modbus_Tcp\<close>, \<^theory_text>\<open>Register_Csv\<close>: the client of \<open>modbus_helpers.py\<close>: receives that end, decoders, the pass over
    the register map that accounts for every register, and the CSV map it reads.
  \<^item> \<^theory_text>\<open>Bridge_Admission\<close>: how a test obtains a bridge connection (\<open>conftest.py\<close>); \<^theory_text>\<open>Echo_Bridge\<close>: the two echo ends
    and the round trip through a transparent bridge (tests 25, 32, 42).
  \<^item> \<^theory_text>\<open>Gateway_Client\<close>: the clients of tests 41 and 42; \<^theory_text>\<open>Self_Unit\<close>: the decoders of test 43.
  \<^item> \<^theory_text>\<open>Polling_Client\<close> (test 37) and \<^theory_text>\<open>Reconnect_Server\<close> (test 32): threads that share state, as interleaved
    steps of single accesses; their invariants hold in every reachable state.

  \<^bold>\<open>HTTP.\<close>
  \<^item> \<^theory_text>\<open>Api_Client\<close>: every method of \<open>WBMGEAPI\<close>; \<^theory_text>\<open>Client_Mode\<close>: port setup and restore of tests 25 and 32.
  \<^item> \<^theory_text>\<open>Sniffer_Poll\<close>: the sniffer's WebSocket, its status poll and settle window; \<^theory_text>\<open>Cache_Poll\<close>: the register
    cache as test 42 watches it.
  \<^item> \<^theory_text>\<open>Web_Port\<close> (test 40): the move of the web port and the restore. A passing run has restored the port,
    the teardown never hides a failure, and the whole fits the timeout computed from the budgets.
  \<^item> \<^theory_text>\<open>Heap_Session\<close> (test 00): the wait for a booted device, the baseline and the leak verdict.
  \<^item> \<^theory_text>\<open>Auth_Sessions\<close> (test 33): reboots with a full ring of sessions; what a passing run has seen, and a
    cleanup that keeps the body's outcome and logs every session out.

  \<^bold>\<open>Evidence of the device.\<close>
  \<^item> \<^theory_text>\<open>Io_Bus\<close>: the virtual IO bus client and the button press.
  \<^item> \<^theory_text>\<open>Serial_Log\<close>: the part of the log since a baseline and the markers in it (tests 33 and 47).
  \<^item> \<^theory_text>\<open>Button_Evidence\<close> (test 47): the factory-reset verdict; the firmware is accused only when its own clock
    shows the hold.

  \<^bold>\<open>The run and its tools.\<close>
  \<^item> \<^theory_text>\<open>Tree_Lock\<close>: the lock on a model of inodes, open file descriptions and \<open>flock\<close>, with all interleavings of
    any number of processes: at most one holder, also after the file was tampered with, as long as it is
    found intact; and a wrapper that reports success only for a protected run. \<^theory_text>\<open>Qemu_Ports\<close>: different slots share no port.
  \<^item> \<^theory_text>\<open>Unity_Junit\<close>: the report converter; \<^theory_text>\<open>Idf_Patch\<close>: the patch driver, which is idempotent and whose backups
    keep the originals.

  \<^bold>\<open>Across components.\<close> This theory joins the gateway client of \<^theory_text>\<open>Gateway_Client\<close> to the slave of \<^theory_text>\<open>Rtu_Slave\<close>
  through a gateway that re-frames: a read returns the slave's value in any segmentation on either side.

  \<^bold>\<open>Termination.\<close> No definition uses fuel. Loops over given outcomes are structural on the list of outcomes, and a
  list that ends before the loop does yields \<open>None\<close> or a running status, never a result. The parsers and
  receives that recurse on a remainder have a termination proof. The loops of \<^theory_text>\<open>Timed_World\<close> and the log scan of
  \<^theory_text>\<open>Auth_Sessions\<close> may run forever and are partial functions into \<open>option\<close>; that they come back, and by when, is
  proved from the pace of a pass.

  \<^bold>\<open>Not modelled.\<close> The firmware in \<open>main/\<close> and its unit tests, which rest on FreeRTOS, lwIP and ESP-IDF; the web
  interface; the fixtures and hooks of \<open>conftest.py\<close> around the QEMU process; the bodies of the remaining tests,
  which are straight sequences of requests and assertions; the production client \<open>wb_test.py\<close>; the build
  files. Messages, logging and warnings are left out, or kept as the data they render where a verdict depends on
  them.
\<close>

section \<open>Properties across components\<close>

text \<open>C12: a register read end to end. The gateway client sends its request; the gateway, which passes unit, function and data
  between the TCP and the serial framing, hands it to the simulated slave in any pieces; the slave answers exactly once; and
  from the gateway's answer, in any segmentation, the client returns the slave's value, counts the read and is in step for
  the next one.\<close>

theorem gateway_read_end_to_end:
  assumes slave: "serving s" "drop_count s \<le> 0" "\<not> stop_event s" "map_of (exception_fc s) 3 = None"
    and request: "in_H addr" "1 \<le> cnt" "cnt \<le> 125"
    and client: "1 \<le> c_tid c" "c_tid c \<le> 65535" "calm (rxq (c_sock c))" "tx_oracle (c_sock c) = []"
    and serial_side: "orderly evs" "concat (deliveries evs) = bus_request (read_frame (c_tid c) SLAVE_ID 3 addr cnt)"
      "rtu_run s True evs = (s', buf, status)"
    and tcp_side: "stream (rxq (c_sock c)) =
        gateway_answer (read_frame (c_tid c) SLAVE_ID 3 addr cnt) (last (sent s')) @ tail"
  shows "status = Running \<and> length (sent s') = Suc (length (sent s)) \<and> request_count s' = request_count s + 1 \<and>
     (\<exists>c'. drive_once addr cnt c = (Inr (Some (fake_value s)), c') \<and> c_ok c' = c_ok c + 1 \<and> c_errors c' = c_errors c \<and>
        txd (c_sock c') = txd (c_sock c) @ [read_frame (c_tid c) SLAVE_ID 3 addr cnt] \<and> stream (rxq (c_sock c')) = tail)"
proof -
  let ?q = "(SLAVE_ID, 3, addr, cnt)"
  have v: "0 \<le> fake_value s" "fake_value s \<le> 65535" using slave(1) by (simp_all add: serving_def)
  have r: "readable s ?q" using slave(4) request by (simp add: SLAVE_ID_def in_H_def)
  have t: "status = Running" "sent s' = sent s @ [reply_of (fake_value s) ?q]" "request_count s' = request_count s + 1"
    using slave_serves_requests [of s "[?q]" evs] r slave(1-3) serial_side by (auto simp: bus_request_eq)
  obtain k where k: "nat cnt = Suc k" using request(2) by (cases "nat cnt") auto
  have h: "in_H (c_tid c)" "in_H cnt" "is_byte SLAVE_ID" using client(1,2) request by (simp_all add: in_H_def is_byte_def SLAVE_ID_def)
  have st: "stream (rxq (c_sock c)) = mbap_frame (c_tid c) SLAVE_ID 3 (word_of_int (2 * cnt) #
      word_of_int (fake_value s div 256) # word_of_int (fake_value s mod 256) # be_bytes (replicate k (fake_value s))) @ tail"
    using tcp_side t(2) gateway_answer_eq [OF h(1), of cnt SLAVE_ID addr cnt "fake_value s"] request k
    by (simp add: be_bytes_def)
  have len: "length (be_bytes (replicate k (fake_value s))) \<le> 65530" using k request(3) by simp
  show ?thesis
    using t drive_once_answered [OF client(1,2) request(1) h(2) client(3,4) st h(1,3) len] unpack_H_div_mod [OF v] by auto
qed

theorem gateway_read_end_to_end_witness:
  "\<exists>c'. drive_once 40 1 \<lparr>c_ok = 0, c_errors = [], c_sock =
       \<lparr>rxq = [Data [0, 1, 0, 0, 0], Data [5, 1, 3, 2, 0x11, 0x11]], txd = [], tx_oracle = []\<rparr>, c_tid = 1\<rparr> = (Inr (Some 0x1111), c') \<and> c_ok c' = 1"
proof -
  let ?s = "init_slave 0x1111 [] 0\<lparr>has_sock := True\<rparr>"
  let ?c = "\<lparr>c_ok = 0, c_errors = [], c_sock =
       \<lparr>rxq = [Data [0, 1, 0, 0, 0], Data [5, 1, 3, 2, 0x11, 0x11]], txd = [], tx_oracle = []\<rparr>, c_tid = 1\<rparr> :: gw_conn"
  let ?b = "bus_request (read_frame 1 SLAVE_ID 3 40 1)"
  let ?evs = "[Recv (take 3 ?b), RecvTimeout, Recv (drop 3 ?b)]"
  obtain s' buf status where run: "rtu_run ?s True ?evs = (s', buf, status)" by (metis prod_cases3)
  have l: "length ?b = 8" by (simp add: bus_request_eq framed_def crc_trailer_def)
  have o: "orderly ?evs" "concat (deliveries ?evs) = ?b" using l by (auto simp: )
  have sv: "serving ?s" "drop_count ?s \<le> 0" "\<not> stop_event ?s" "map_of (exception_fc ?s) 3 = None"
    by (simp_all add: serving_def init_slave_def)
  have "sent s' = [reply_of 0x1111 (1, 3, 40, 1)]"
    using slave_serves_requests [of ?s "[(1, 3, 40, 1)]" ?evs] run o sv
    by (auto simp: bus_request_eq SLAVE_ID_def init_slave_def)
  then have "gateway_answer (read_frame 1 SLAVE_ID 3 40 1) (last (sent s')) = [0, 1, 0, 0, 0, 5, 1, 3, 2, 0x11, 0x11]"
    using gateway_answer_eq [of 1 1 SLAVE_ID 40 1 "0x1111"]
    by (simp add: SLAVE_ID_def in_H_def mbap_frame_def be16_bytes_def be_bytes_def)
  then have a: "stream (rxq (c_sock ?c)) = gateway_answer (read_frame (c_tid ?c) SLAVE_ID 3 40 1) (last (sent s')) @ []"
    by (simp add: stream_def)
  show ?thesis
    using gateway_read_end_to_end [of ?s 40 1 ?c ?evs s' buf status "[]"] sv o run a by (auto simp: in_H_def calm_def init_slave_def)
qed

end
